(* ===== verification/Zpr_Prelude.thy ===== *)
theory Zpr_Prelude
  imports Main "HOL-Library.Word"
begin

text \<open>
  Shared ground of the development: machine integer types, the result type of fallible Rust code
  (panics and undefined behaviour are values), checked arithmetic, Rust's \<open>loop\<close> as a
  combinator with its safety and termination interfaces, and the lemmas on lists and words that
  the component theories share.
\<close>

unbundle bit_operations_syntax

section \<open>Machine integers\<close>

type_synonym u8 = "8 word"
type_synonym u16 = "16 word"
type_synonym u32 = "32 word"

text \<open>The target is a 64-bit one: \<open>usize::BITS = 64\<close>. An \<open>isize\<close> is kept as the same
  64 bits, read in two's complement by \<^const>\<open>sint\<close>.\<close>

type_synonym usize = "64 word"
type_synonym isize = "64 word"

abbreviation usize_bits :: nat where
  "usize_bits \<equiv> 64"

section \<open>Faults and results\<close>

text \<open>
  What can go wrong in a Rust function besides returning: a panic (the reason is kept, so that
  a failed \<open>assert!\<close> is not confused with an index out of bounds), undefined behaviour
  (an \<open>unsafe\<close> operation whose precondition does not hold), and the abort that a panic during
  the unwinding of another panic causes.
\<close>

datatype fault =
    Panic_assert
  | Panic_index
  | Panic_overflow
  | Panic_unwrap
  | Panic_poisoned
  | Undefined
  | Abort

type_synonym 'a res = "fault + 'a"

definition rbind :: "'e + 'a \<Rightarrow> ('a \<Rightarrow> 'e + 'b) \<Rightarrow> 'e + 'b" where
  "rbind m f = (case m of Inl e \<Rightarrow> Inl e | Inr x \<Rightarrow> f x)"

definition rassert :: "'e \<Rightarrow> bool \<Rightarrow> 'e + unit" where
  "rassert e b = (if b then Inr () else Inl e)"

named_theorems res_simps \<open>equations that run a result through \<open>rbind\<close> and \<open>rassert\<close>\<close>

lemma rbind_Inr [simp]: "rbind (Inr x) f = f x"
  and rbind_Inl [simp]: "rbind (Inl e) f = Inl e"
  by (simp_all add: rbind_def)

lemma rbind_eq_Inr_iff [res_simps]:
  "rbind m f = Inr y \<longleftrightarrow> (\<exists>x. m = Inr x \<and> f x = Inr y)"
  by (cases m) auto

lemma rbind_eq_Inl_iff [res_simps]:
  "rbind m f = Inl e \<longleftrightarrow> m = Inl e \<or> (\<exists>x. m = Inr x \<and> f x = Inl e)"
  by (cases m) auto

lemma rbind_cong [fundef_cong]:
  assumes "m = m'" and "\<And>x. m' = Inr x \<Longrightarrow> f x = f' x"
  shows "rbind m f = rbind m' f'"
  using assms by (cases m') auto

lemma rassert_True [simp]: "rassert e True = Inr ()"
  and rassert_False [simp]: "rassert e False = Inl e"
  by (simp_all add: rassert_def)

lemma rassert_eq_Inr_iff [res_simps]: "rassert e b = Inr u \<longleftrightarrow> b"
  and rassert_eq_Inl_iff [res_simps]: "rassert e b = Inl e' \<longleftrightarrow> \<not> b \<and> e' = e"
  by (auto simp: rassert_def)

text \<open>\<open>Option::unwrap\<close>.\<close>

definition unwrap :: "'a option \<Rightarrow> 'a res" where
  "unwrap x = (case x of Some v \<Rightarrow> Inr v | None \<Rightarrow> Inl Panic_unwrap)"

text \<open>Slice indexing \<open>xs[i]\<close> panics out of range, \<open>get_unchecked\<close> is undefined there.\<close>

definition index :: "'a list \<Rightarrow> nat \<Rightarrow> 'a res" where
  "index xs i = (if i < length xs then Inr (xs ! i) else Inl Panic_index)"

definition get_unchecked :: "'a list \<Rightarrow> nat \<Rightarrow> 'a res" where
  "get_unchecked xs i = (if i < length xs then Inr (xs ! i) else Inl Undefined)"

lemma index_in_range [simp]: "i < length xs \<Longrightarrow> index xs i = Inr (xs ! i)"
  and get_unchecked_in_range [simp]: "i < length xs \<Longrightarrow> get_unchecked xs i = Inr (xs ! i)"
  by (simp_all add: index_def get_unchecked_def)

lemma index_eq_Inr_iff [res_simps]: "index xs i = Inr v \<longleftrightarrow> i < length xs \<and> v = xs ! i"
  and index_eq_Inl_iff [res_simps]: "index xs i = Inl e \<longleftrightarrow> length xs \<le> i \<and> e = Panic_index"
  and get_unchecked_eq_Inr_iff [res_simps]:
    "get_unchecked xs i = Inr v \<longleftrightarrow> i < length xs \<and> v = xs ! i"
  by (auto simp: index_def get_unchecked_def)

section \<open>Checked arithmetic\<close>

text \<open>
  \<open>+\<close> and \<open>-\<close> on an unsigned integer, with the overflow check of a debug build. Where the
  development shows that the check never fires, debug and release builds agree.
\<close>

definition uadd :: "'n::len word \<Rightarrow> 'n word \<Rightarrow> ('n word) res" where
  "uadd a b = (if unat a + unat b < 2 ^ LENGTH('n) then Inr (a + b) else Inl Panic_overflow)"

definition usub :: "'n::len word \<Rightarrow> 'n word \<Rightarrow> ('n word) res" where
  "usub a b = (if unat b \<le> unat a then Inr (a - b) else Inl Panic_overflow)"

text \<open>\<open>unchecked_add\<close>: overflow is undefined behaviour.\<close>

definition unchecked_add :: "'n::len word \<Rightarrow> 'n word \<Rightarrow> ('n word) res" where
  "unchecked_add a b = (if unat a + unat b < 2 ^ LENGTH('n) then Inr (a + b) else Inl Undefined)"

text \<open>\<open>+\<close> and \<open>-\<close> on a signed integer: the exact result must be in the signed range.\<close>

definition in_isize :: "int \<Rightarrow> bool" where
  "in_isize i \<longleftrightarrow> - (2 ^ 63) \<le> i \<and> i < 2 ^ 63"

definition sadd :: "isize \<Rightarrow> isize \<Rightarrow> isize res" where
  "sadd a b = (if in_isize (sint a + sint b) then Inr (a + b) else Inl Panic_overflow)"

definition ssub :: "isize \<Rightarrow> isize \<Rightarrow> isize res" where
  "ssub a b = (if in_isize (sint a - sint b) then Inr (a - b) else Inl Panic_overflow)"

lemma unat_add_no_wrap:
  fixes a b :: "'n::len word"
  assumes "unat a + unat b < 2 ^ LENGTH('n)"
  shows "unat (a + b) = unat a + unat b"
  using assms by (simp add: unat_word_ariths)

lemma unat_sub_no_wrap:
  fixes a b :: "'n::len word"
  assumes "unat b \<le> unat a"
  shows "unat (a - b) = unat a - unat b"
  using assms by (simp add: unat_sub word_le_nat_alt)

lemma uadd_eq_Inr_iff [res_simps]:
  fixes a b c :: "'n::len word"
  shows "uadd a b = Inr c \<longleftrightarrow> unat c = unat a + unat b"
proof
  assume "uadd a b = Inr c"
  then show "unat c = unat a + unat b"
    by (auto simp: uadd_def unat_add_no_wrap split: if_splits)
next
  assume c: "unat c = unat a + unat b"
  have "unat c < 2 ^ LENGTH('n)" by (rule unsigned_less)
  moreover from this c have "unat (a + b) = unat c" by (simp add: unat_add_no_wrap)
  ultimately show "uadd a b = Inr c" using c by (simp add: uadd_def word_unat_eq_iff)
qed

lemma usub_eq_Inr_iff [res_simps]:
  fixes a b c :: "'n::len word"
  shows "usub a b = Inr c \<longleftrightarrow> unat a = unat b + unat c"
  by (auto simp: usub_def unat_sub_no_wrap word_unat_eq_iff)

lemma uadd_ok:
  fixes a b :: "'n::len word"
  shows "unat a + unat b < 2 ^ LENGTH('n) \<Longrightarrow> uadd a b = Inr (a + b)"
  by (simp add: uadd_def)

lemma usub_ok: "unat b \<le> unat a \<Longrightarrow> usub a b = Inr (a - b)"
  by (simp add: usub_def)

lemma unchecked_add_ok:
  fixes a b :: "'n::len word"
  shows "unat a + unat b < 2 ^ LENGTH('n) \<Longrightarrow> unchecked_add a b = Inr (a + b)"
  by (simp add: unchecked_add_def)

lemma unat_of_nat_small:
  "n < 2 ^ LENGTH('n) \<Longrightarrow> unat (word_of_nat n :: 'n::len word) = n"
  by (simp add: unat_of_nat take_bit_nat_eq_self_iff)

lemma usize_succ:
  fixes w :: usize
  assumes "unat w < 2 ^ 60"
  shows "uadd w 1 = Inr (w + 1)" and "unat (w + 1) = unat w + 1"
  using assms by (simp_all add: uadd_def unat_add_no_wrap [of w 1])

lemma sint_of_int_small: "in_isize i \<Longrightarrow> sint (word_of_int i :: isize) = i"
  by (simp add: in_isize_def sint_uint uint_word_of_int_eq signed_take_bit_take_bit
      signed_take_bit_int_eq_self)

lemma in_isize_nat: "m < 2 ^ 63 \<Longrightarrow> in_isize (int m)"
  and in_isize_diff: "m < 2 ^ 62 \<Longrightarrow> k < 2 ^ 62 \<Longrightarrow> in_isize (int m - int k - 1)"
  and in_isize_diff0: "m < 2 ^ 62 \<Longrightarrow> k < 2 ^ 62 \<Longrightarrow> in_isize (int m - int k)"
  by (simp_all add: in_isize_def)

lemma sint_small: "unat w < 2 ^ 63 \<Longrightarrow> sint (w :: isize) = int (unat w)"
proof -
  assume "unat w < 2 ^ 63"
  then have "in_isize (int (unat w))" by (rule in_isize_nat)
  then have "sint (word_of_int (int (unat w)) :: isize) = int (unat w)" by (rule sint_of_int_small)
  then show ?thesis by simp
qed

lemma sint_difference:
  fixes d p q :: isize
  assumes "q + 1 + d = p" and "unat p < 2 ^ 62" and "unat q < 2 ^ 62"
  shows "sint d = int (unat p) - int (unat q) - 1"
proof -
  have "d = p - q - 1" using assms(1) by (simp add: algebra_simps flip: assms(1))
  then have "d = word_of_int (int (unat p) - int (unat q) - 1)" by simp
  moreover have "in_isize (int (unat p) - int (unat q) - 1)"
    by (rule in_isize_diff [OF assms(2,3)])
  ultimately show ?thesis by (simp only: sint_of_int_small)
qed

text \<open>Counting indexes as words or as numbers is the same.\<close>

lemma card_usize:
  assumes "\<And>i. P i \<Longrightarrow> i < 2 ^ 64"
  shows "card {w :: usize. P (unat w)} = card {i. P i}"
proof -
  have "i \<in> unat ` {w :: usize. P (unat w)}" if "P i" for i
    using that unat_of_nat_small [of i, where 'n = 64] assms [OF that]
    by (intro image_eqI [of _ _ "word_of_nat i"]) simp_all
  then have "{i. P i} = unat ` {w :: usize. P (unat w)}" by blast
  moreover have "inj_on unat {w :: usize. P (unat w)}" by (simp add: inj_on_def word_unat_eq_iff)
  ultimately show ?thesis by (simp add: card_image)
qed

section \<open>Actions on shared state\<close>

text \<open>
  Code whose effects outlive a panic (a poisoned mutex, a released reference) is an action: it
  returns the state reached in either case. \<open>unwind r d\<close> is the result when \<open>d\<close> is the result of
  the drops that run after \<open>r\<close>: a second panic aborts.
\<close>

type_synonym ('s, 'r) act = "'s \<Rightarrow> 's \<times> 'r res"

definition aret :: "'r \<Rightarrow> ('s, 'r) act" where
  "aret x s = (s, Inr x)"

definition abind :: "('s, 'r) act \<Rightarrow> ('r \<Rightarrow> ('s, 'q) act) \<Rightarrow> ('s, 'q) act" where
  "abind m f s = (case m s of (s', r) \<Rightarrow> (case r of Inl e \<Rightarrow> (s', Inl e) | Inr x \<Rightarrow> f x s'))"

fun unwind :: "'r res \<Rightarrow> unit res \<Rightarrow> 'r res" where
  "unwind r (Inr u) = r"
| "unwind (Inr x) (Inl e) = Inl e"
| "unwind (Inl e) (Inl e') = Inl Abort"

definition after :: "('s, 'r) act \<Rightarrow> ('s, unit) act \<Rightarrow> ('s, 'r) act" where
  "after m d s = (case m s of (s1, r) \<Rightarrow> (case d s1 of (s2, r') \<Rightarrow> (s2, unwind r r')))"

lemma unwind_Inr_iff: "unwind r d = Inr x \<longleftrightarrow> r = Inr x \<and> d = Inr ()"
  by (cases r; cases d) auto

lemma after_Inr_iff: "after m d s = (s2, Inr x) \<longleftrightarrow> (\<exists>s1. m s = (s1, Inr x) \<and> d s1 = (s2, Inr ()))"
  by (auto simp: after_def unwind_Inr_iff split: prod.splits)

lemma aret_run [simp]: "aret x s = (s, Inr x)"
  by (simp add: aret_def)

lemma abind_ok [simp]: "m s = (s', Inr x) \<Longrightarrow> abind m f s = f x s'"
  and abind_fault [simp]: "m s = (s', Inl e) \<Longrightarrow> abind m f s = (s', Inl e)"
  by (simp_all add: abind_def)

lemma after_ok [simp]: "m s = (s1, r) \<Longrightarrow> d s1 = (s2, Inr u) \<Longrightarrow> after m d s = (s2, r)"
  by (cases r) (simp_all add: after_def)

section \<open>Rust's \<open>loop\<close>\<close>

text \<open>
  The body of a \<open>loop\<close> either goes round again with a new state or leaves with
  \<open>break r\<close>; it may also fault. \<open>rloop\<close> is \<open>None\<close> where the loop never leaves.
\<close>

datatype ('s, 'r) flow = Continue 's | Break 'r

partial_function (option) rloop :: "('s \<Rightarrow> 'e + ('s, 'r) flow) \<Rightarrow> 's \<Rightarrow> ('e + 'r) option" where
  "rloop body s =
     (case body s of
        Inl e \<Rightarrow> Some (Inl e)
      | Inr fl \<Rightarrow> (case fl of Break r \<Rightarrow> Some (Inr r) | Continue s' \<Rightarrow> rloop body s'))"

text \<open>The states a loop can be in at the head of its body.\<close>

inductive loop_reach :: "('s \<Rightarrow> 'e + ('s, 'r) flow) \<Rightarrow> 's \<Rightarrow> 's \<Rightarrow> bool" for body s where
  loop_start: "loop_reach body s s"
| loop_again: "loop_reach body s t \<Longrightarrow> body t = Inr (Continue u) \<Longrightarrow> loop_reach body s u"

text \<open>A loop whose body always goes round again never leaves.\<close>

lemma rloop_never_returns:
  assumes "P s" and step: "\<And>t. P t \<Longrightarrow> \<exists>u. body t = Inr (Continue u) \<and> P u"
  shows "rloop body s = None"
proof (rule ccontr)
  assume "rloop body s \<noteq> None"
  then obtain r where ret: "rloop body s = Some r" by blast
  let ?Q = "\<lambda>body s. P s \<and> (\<forall>t. P t \<longrightarrow> (\<exists>u. body t = Inr (Continue u) \<and> P u))"
  have "\<not> ?Q body s"
  proof (rule rloop.raw_induct [where P = "\<lambda>body s r. \<not> ?Q body s", OF _ ret])
    fix f body s r
    assume IH: "\<And>body s r. f body s = Some r \<Longrightarrow> \<not> ?Q body s"
      and eq: "(case body s of Inl e \<Rightarrow> Some (Inl e)
        | Inr fl \<Rightarrow> (case fl of Break r \<Rightarrow> Some (Inr r) | Continue s' \<Rightarrow> f body s')) = Some r"
    show "\<not> ?Q body s"
    proof
      assume Q: "?Q body s"
      then obtain u where "body s = Inr (Continue u)" and "P u" by blast
      with eq Q IH show False by fastforce
    qed
  qed
  with assms show False by blast
qed

text \<open>
  The interface of a loop that never faults: an invariant \<open>inv p\<close> (\<open>p\<close> is what the loop
  only reads) under which every pass of the body succeeds and which \<open>Continue\<close> keeps. With a
  \<open>rank\<close> that every \<open>Continue\<close> lowers, the loop also returns.
\<close>

locale safe_loop =
  fixes body :: "'p \<Rightarrow> 's \<Rightarrow> 'e + ('s, 'r) flow"
    and inv :: "'p \<Rightarrow> 's \<Rightarrow> bool"
  assumes body_ok: "inv p s \<Longrightarrow> \<exists>fl. body p s = Inr fl"
    and body_inv: "inv p s \<Longrightarrow> body p s = Inr (Continue s') \<Longrightarrow> inv p s'"
begin

lemma reach_inv: "loop_reach (body p) s t \<Longrightarrow> inv p s \<Longrightarrow> inv p t"
  by (induction rule: loop_reach.induct) (auto intro: body_inv)

lemma reach_no_fault:
  assumes "inv p s" and "loop_reach (body p) s t"
  shows "\<exists>fl. body p t = Inr fl"
  using assms by (blast intro: body_ok reach_inv)

end

locale terminating_loop = safe_loop body inv
  for body :: "'p \<Rightarrow> 's \<Rightarrow> 'e + ('s, 'r) flow" and inv +
  fixes rank :: "'p \<Rightarrow> 's \<Rightarrow> nat"
  assumes body_rank: "inv p s \<Longrightarrow> body p s = Inr (Continue s') \<Longrightarrow> rank p s' < rank p s"
begin

lemma rloop_returns: "inv p s \<Longrightarrow> \<exists>r. rloop (body p) s = Some (Inr r)"
proof (induction "rank p s" arbitrary: s rule: less_induct)
  case less
  obtain fl where fl: "body p s = Inr fl"
    using body_ok [OF less.prems] by blast
  show ?case
  proof (cases fl)
    case (Break r)
    with fl show ?thesis by (subst rloop.simps) simp
  next
    case (Continue s')
    with fl less.prems have "rank p s' < rank p s" and "inv p s'"
      by (auto intro: body_rank body_inv)
    then obtain r where "rloop (body p) s' = Some (Inr r)"
      using less.hyps by blast
    with fl Continue show ?thesis by (subst rloop.simps) simp
  qed
qed

text \<open>A body that does the same wherever the invariant holds makes the same loop.\<close>

lemma rloop_agree:
  assumes "inv p s" and agree: "\<And>t. inv p t \<Longrightarrow> other t = body p t"
  shows "rloop other s = rloop (body p) s"
  using assms(1)
proof (induction "rank p s" arbitrary: s rule: less_induct)
  case less
  have "rloop other s' = rloop (body p) s'" if "body p s = Inr (Continue s')" for s'
    using less.hyps [OF body_rank [OF less.prems that] body_inv [OF less.prems that]] .
  then show ?case
    using agree [OF less.prems]
    by (subst (1 2) rloop.simps) (simp split: sum.split flow.split)
qed

lemma reach_rank: "loop_reach (body p) s t \<Longrightarrow> inv p s \<Longrightarrow> rank p t \<le> rank p s"
proof (induction rule: loop_reach.induct)
  case loop_start
  show ?case by simp
next
  case (loop_again t u)
  then have "inv p t" by (blast intro: reach_inv)
  with loop_again show ?case by (fastforce dest: body_rank)
qed

end

section \<open>Double-ended iterators\<close>

lemma set_butlast_distinct: "distinct xs \<Longrightarrow> xs \<noteq> [] \<Longrightarrow> set (butlast xs) = set xs - {last xs}"
  by (cases xs rule: rev_cases) auto

text \<open>
  \<open>next\<close> and \<open>next_back\<close> of an iterator with state \<open>'s\<close> over what \<open>'p\<close> stores. A
  program calls them in any order: \<open>calls\<close> runs a list of calls (\<open>True\<close> for \<open>next\<close>) and keeps
  what each end delivered, oldest first. \<open>for_each_body\<close> is the loop of \<open>for_each\<close>.
\<close>

type_synonym ('s, 'x) next_op = "'s \<Rightarrow> ('s \<times> 'x option) res"

fun option_list :: "'a option \<Rightarrow> 'a list" where
  "option_list None = []" | "option_list (Some x) = [x]"

fun calls :: "('s, 'x) next_op \<Rightarrow> ('s, 'x) next_op \<Rightarrow> 's \<Rightarrow> bool list \<Rightarrow> ('s \<times> 'x list \<times> 'x list) res" where
  "calls nxt bk s [] = Inr (s, [], [])"
| "calls nxt bk s (d # ds) =
     rbind (if d then nxt s else bk s) (\<lambda>(s', r).
     rbind (calls nxt bk s' ds) (\<lambda>(s'', fs, bs).
     Inr (if d then (s'', option_list r @ fs, bs) else (s'', fs, option_list r @ bs))))"

definition for_each_body :: "('s, 'x) next_op \<Rightarrow> 's \<times> 'x list \<Rightarrow> (('s \<times> 'x list, 'x list) flow) res" where
  "for_each_body nxt = (\<lambda>(s, acc). rbind (nxt s) (\<lambda>(s', r).
     Inr (case r of None \<Rightarrow> Break acc | Some x \<Rightarrow> Continue (s', acc @ [x]))))"

text \<open>The loop of \<open>find\<close>: the first item that satisfies the predicate.\<close>

definition find_body :: "('s, 'x) next_op \<Rightarrow> ('x \<Rightarrow> bool) \<Rightarrow> 's \<Rightarrow> (('s, 'x option) flow) res" where
  "find_body nxt pred = (\<lambda>s. rbind (nxt s) (\<lambda>(s', r).
     Inr (case r of None \<Rightarrow> Break None | Some x \<Rightarrow> if pred x then Break (Some x) else Continue s')))"

locale double_ended =
  fixes ok :: "'p \<Rightarrow> 's \<Rightarrow> bool"
    and rest :: "'p \<Rightarrow> 's \<Rightarrow> 'x list"
    and next_front :: "'p \<Rightarrow> ('s, 'x) next_op"
    and next_back :: "'p \<Rightarrow> ('s, 'x) next_op"
  assumes next_front_ok: "ok p s \<Longrightarrow>
      \<exists>s'. next_front p s = Inr (s', case rest p s of [] \<Rightarrow> None | x # _ \<Rightarrow> Some x) \<and>
        ok p s' \<and> rest p s' = tl (rest p s)"
    and next_back_ok: "ok p s \<Longrightarrow>
      \<exists>s'. next_back p s = Inr (s', if rest p s = [] then None else Some (last (rest p s))) \<and>
        ok p s' \<and> rest p s' = butlast (rest p s)"
begin

lemma calls_split:
  assumes "ok p s"
  shows "\<exists>s' fs bs. calls (next_front p) (next_back p) s ds = Inr (s', fs, bs) \<and> ok p s' \<and>
    rest p s = fs @ rest p s' @ rev bs \<and> length (rest p s') = length (rest p s) - length ds"
  using assms
proof (induction ds arbitrary: s)
  case Nil
  then show ?case by simp
next
  case (Cons d ds)
  show ?case
  proof (cases d)
    case True
    obtain s1 where s1: "next_front p s = Inr (s1, case rest p s of [] \<Rightarrow> None | x # _ \<Rightarrow> Some x)"
      "ok p s1" "rest p s1 = tl (rest p s)"
      using next_front_ok [OF Cons.prems] by blast
    obtain s2 fs bs where "calls (next_front p) (next_back p) s1 ds = Inr (s2, fs, bs)" "ok p s2"
      "rest p s1 = fs @ rest p s2 @ rev bs" "length (rest p s2) = length (rest p s1) - length ds"
      using Cons.IH [OF s1(2)] by blast
    with s1 True show ?thesis by (cases "rest p s") (auto simp: Suc_diff_le)
  next
    case False
    obtain s1 where s1: "next_back p s = Inr (s1, if rest p s = [] then None else Some (last (rest p s)))"
      "ok p s1" "rest p s1 = butlast (rest p s)"
      using next_back_ok [OF Cons.prems] by blast
    obtain s2 fs bs where s2: "calls (next_front p) (next_back p) s1 ds = Inr (s2, fs, bs)" "ok p s2"
      "rest p s1 = fs @ rest p s2 @ rev bs" "length (rest p s2) = length (rest p s1) - length ds"
      using Cons.IH [OF s1(2)] by blast
    then have "rest p s = fs @ rest p s2 @ rev (last (rest p s) # bs)" if "rest p s \<noteq> []"
      using that s1(3) append_butlast_last_id [OF that] by simp
    with s1 s2 False show ?thesis by (cases "rest p s = []") auto
  qed
qed

lemma for_each_collects:
  assumes "ok p s"
  shows "rloop (for_each_body (next_front p)) (s, acc) = Some (Inr (acc @ rest p s))"
  using assms
proof (induction "rest p s" arbitrary: s acc)
  case Nil
  with next_front_ok [OF Nil.prems] show ?case
    by (subst rloop.simps) (auto simp: for_each_body_def)
next
  case (Cons x xs)
  obtain s1 where s1: "next_front p s = Inr (s1, Some x)" "ok p s1" "rest p s1 = xs"
    using next_front_ok [OF Cons.prems] Cons.hyps(2) by (metis list.sel(3) list.simps(5))
  with Cons.hyps(1) [OF s1(3) [symmetric] s1(2), of "acc @ [x]"] Cons.hyps(2) show ?case
    by (subst rloop.simps) (simp add: for_each_body_def)
qed

lemma find_finds:
  assumes "ok p s"
  shows "rloop (find_body (next_front p) pred) s = Some (Inr (find pred (rest p s)))"
  using assms
proof (induction "rest p s" arbitrary: s)
  case Nil
  with next_front_ok [OF Nil.prems] show ?case
    by (subst rloop.simps) (auto simp: find_body_def)
next
  case (Cons x xs)
  obtain s1 where s1: "next_front p s = Inr (s1, Some x)" "ok p s1" "rest p s1 = xs"
    using next_front_ok [OF Cons.prems] Cons.hyps(2) by (metis list.sel(3) list.simps(5))
  with Cons.hyps(1) [OF s1(3) [symmetric] s1(2)] show ?case
    by (subst rloop.simps) (simp add: find_body_def flip: Cons.hyps(2))
qed

end

end
