(* ===== verification/Cbpf.thy ===== *)
theory Cbpf
  imports Zpr_Prelude
begin

text \<open>
  The classic BPF library \<open>src/cbpf-rs/src/lib.rs\<close>: instruction encoding (\<open>bpf_code\<close>),
  the validator \<open>do_validate\<close> and the interpreter \<open>filter_slice\<close>. The interpreter runs
  on \<open>unsafe\<close> accesses whose safety rests on the validator; every such access is undefined
  behaviour in the model when its precondition fails. The instruction set is also given as a
  reference semantics (\<open>decode\<close>, \<open>instr_exec\<close>), and the opcode matching of the
  interpreter and of the validator is shown to implement it.
\<close>

section \<open>Instructions and opcodes\<close>

record bpf_insn =
  insn_code :: u16
  insn_jt :: u8
  insn_jf :: u8
  insn_k :: u32

definition bpf_stmt :: "u16 \<Rightarrow> u32 \<Rightarrow> bpf_insn" where
  "bpf_stmt c v = \<lparr>insn_code = c, insn_jt = 0, insn_jf = 0, insn_k = v\<rparr>"

definition bpf_jump :: "u16 \<Rightarrow> u32 \<Rightarrow> u8 \<Rightarrow> u8 \<Rightarrow> bpf_insn" where
  "bpf_jump c v t f = \<lparr>insn_code = c, insn_jt = t, insn_jf = f, insn_k = v\<rparr>"

text \<open>The constants of \<open>bpf_code\<close>, with the prefix they have in C.\<close>

definition code_class :: "u16 \<Rightarrow> u16" where
  "code_class c = c AND 0x07"

definition BPF_LD :: u16 where
  "BPF_LD = 0x00"

definition BPF_LDX :: u16 where
  "BPF_LDX = 0x01"

definition BPF_ST :: u16 where
  "BPF_ST = 0x02"

definition BPF_STX :: u16 where
  "BPF_STX = 0x03"

definition BPF_ALU :: u16 where
  "BPF_ALU = 0x04"

definition BPF_JMP :: u16 where
  "BPF_JMP = 0x05"

definition BPF_RET :: u16 where
  "BPF_RET = 0x06"

definition BPF_MISC :: u16 where
  "BPF_MISC = 0x07"

definition code_size :: "u16 \<Rightarrow> u16" where
  "code_size c = c AND 0x18"

definition BPF_W :: u16 where
  "BPF_W = 0x00"

definition BPF_H :: u16 where
  "BPF_H = 0x08"

definition BPF_B :: u16 where
  "BPF_B = 0x10"

definition valid_code_size :: "u16 \<Rightarrow> bool" where
  "valid_code_size sz \<longleftrightarrow> sz \<noteq> 0x18"

definition code_mode :: "u16 \<Rightarrow> u16" where
  "code_mode c = c AND 0xe0"

definition BPF_IMM :: u16 where
  "BPF_IMM = 0x00"

definition BPF_ABS :: u16 where
  "BPF_ABS = 0x20"

definition BPF_IND :: u16 where
  "BPF_IND = 0x40"

definition BPF_MEM :: u16 where
  "BPF_MEM = 0x60"

definition BPF_LEN :: u16 where
  "BPF_LEN = 0x80"

definition BPF_MSH :: u16 where
  "BPF_MSH = 0xa0"

definition code_op :: "u16 \<Rightarrow> u16" where
  "code_op c = c AND 0xf0"

definition BPF_ADD :: u16 where
  "BPF_ADD = 0x00"

definition BPF_SUB :: u16 where
  "BPF_SUB = 0x10"

definition BPF_MUL :: u16 where
  "BPF_MUL = 0x20"

definition BPF_DIV :: u16 where
  "BPF_DIV = 0x30"

definition BPF_OR :: u16 where
  "BPF_OR = 0x40"

definition BPF_AND :: u16 where
  "BPF_AND = 0x50"

definition BPF_LSH :: u16 where
  "BPF_LSH = 0x60"

definition BPF_RSH :: u16 where
  "BPF_RSH = 0x70"

definition BPF_NEG :: u16 where
  "BPF_NEG = 0x80"

definition BPF_MOD :: u16 where
  "BPF_MOD = 0x90"

definition BPF_XOR :: u16 where
  "BPF_XOR = 0xa0"

definition BPF_JA :: u16 where
  "BPF_JA = 0x00"

definition BPF_JEQ :: u16 where
  "BPF_JEQ = 0x10"

definition BPF_JGT :: u16 where
  "BPF_JGT = 0x20"

definition BPF_JGE :: u16 where
  "BPF_JGE = 0x30"

definition BPF_JSET :: u16 where
  "BPF_JSET = 0x40"

definition code_src :: "u16 \<Rightarrow> u16" where
  "code_src c = c AND 0x08"

definition BPF_K :: u16 where
  "BPF_K = 0x00"

definition BPF_X :: u16 where
  "BPF_X = 0x08"

definition code_rval :: "u16 \<Rightarrow> u16" where
  "code_rval c = c AND 0x18"

definition BPF_A :: u16 where
  "BPF_A = 0x10"

definition code_miscop :: "u16 \<Rightarrow> u16" where
  "code_miscop c = c AND 0xf8"

definition BPF_TAX :: u16 where
  "BPF_TAX = 0x00"

definition BPF_TXA :: u16 where
  "BPF_TXA = 0x80"

definition MEMWORDS :: nat where
  "MEMWORDS = 16"

lemmas bpf_code_defs =
  BPF_LD_def BPF_LDX_def BPF_ST_def BPF_STX_def BPF_ALU_def BPF_JMP_def BPF_RET_def
  BPF_MISC_def BPF_W_def BPF_H_def BPF_B_def BPF_IMM_def BPF_ABS_def BPF_IND_def BPF_MEM_def
  BPF_LEN_def BPF_MSH_def BPF_ADD_def BPF_SUB_def BPF_MUL_def BPF_DIV_def BPF_OR_def
  BPF_AND_def BPF_LSH_def BPF_RSH_def BPF_NEG_def BPF_MOD_def BPF_XOR_def BPF_JA_def
  BPF_JEQ_def BPF_JGT_def BPF_JGE_def BPF_JSET_def BPF_K_def BPF_X_def BPF_A_def BPF_TAX_def
  BPF_TXA_def

lemmas bpf_field_defs =
  code_class_def code_size_def code_mode_def code_op_def code_src_def code_rval_def
  code_miscop_def valid_code_size_def

section \<open>Packet loads\<close>

definition load_byte :: "u8 list \<Rightarrow> nat \<Rightarrow> u32 res" where
  "load_byte packet addr =
     rbind (get_unchecked packet addr) (\<lambda>b0. Inr (ucast b0))"

definition load_halfword :: "u8 list \<Rightarrow> nat \<Rightarrow> u32 res" where
  "load_halfword packet addr =
     rbind (get_unchecked packet addr) (\<lambda>b0.
     rbind (get_unchecked packet (addr + 1)) (\<lambda>b1.
     Inr (push_bit 8 (ucast b0) OR ucast b1)))"

definition load_word :: "u8 list \<Rightarrow> nat \<Rightarrow> u32 res" where
  "load_word packet addr =
     rbind (get_unchecked packet addr) (\<lambda>b0.
     rbind (get_unchecked packet (addr + 1)) (\<lambda>b1.
     rbind (get_unchecked packet (addr + 2)) (\<lambda>b2.
     rbind (get_unchecked packet (addr + 3)) (\<lambda>b3.
     Inr (push_bit 24 (ucast b0) OR push_bit 16 (ucast b1) OR push_bit 8 (ucast b2) OR ucast b3)))))"

section \<open>The interpreter\<close>

text \<open>The locals of \<open>filter_slice\<close>.\<close>

record vm =
  vm_a :: u32
  vm_x :: u32
  vm_pc :: u32
  vm_mem :: "u32 list"

definition vm_init :: vm where
  "vm_init = \<lparr>vm_a = 0, vm_x = 0, vm_pc = 0, vm_mem = replicate MEMWORDS 0\<rparr>"

type_synonym vm_flow = "((vm, u32) flow) res"

text \<open>An arm that assigns \<open>a\<close>, \<open>x\<close>, a memory word or \<open>pc\<close> and falls out of the match.\<close>

definition set_a :: "vm \<Rightarrow> u32 res \<Rightarrow> vm_flow" where
  "set_a s r = rbind r (\<lambda>v. Inr (Continue (s\<lparr>vm_a := v\<rparr>)))"

definition set_x :: "vm \<Rightarrow> u32 res \<Rightarrow> vm_flow" where
  "set_x s r = rbind r (\<lambda>v. Inr (Continue (s\<lparr>vm_x := v\<rparr>)))"

definition set_pc :: "vm \<Rightarrow> u32 res \<Rightarrow> vm_flow" where
  "set_pc s r = rbind r (\<lambda>v. Inr (Continue (s\<lparr>vm_pc := v\<rparr>)))"

definition set_mem :: "vm \<Rightarrow> nat \<Rightarrow> u32 \<Rightarrow> vm_flow" where
  "set_mem s i v =
     (if i < length (vm_mem s) then Inr (Continue (s\<lparr>vm_mem := (vm_mem s)[i := v]\<rparr>))
      else Inl Undefined)"

definition do_jmp :: "u32 \<Rightarrow> bool \<Rightarrow> bpf_insn \<Rightarrow> u32 res" where
  "do_jmp pc taken insn = unchecked_add pc (ucast (if taken then insn_jt insn else insn_jf insn))"

text \<open>
  The arms of the one \<open>match insn.code\<close>, in the order of the source and in groups; a group is
  \<open>None\<close> when none of its patterns is the code.
\<close>

definition exec_ret :: "bpf_insn \<Rightarrow> vm \<Rightarrow> vm_flow option" where
  "exec_ret insn s =
     (let c = insn_code insn in
      if c = BPF_RET OR BPF_K then Some (Inr (Break (insn_k insn)))
      else if c = BPF_RET OR BPF_A then Some (Inr (Break (vm_a s)))
      else None)"

definition exec_ld_abs :: "u8 list \<Rightarrow> bpf_insn \<Rightarrow> vm \<Rightarrow> vm_flow option" where
  "exec_ld_abs packet insn s =
     (let c = insn_code insn; k = unat (insn_k insn) in
      if c = BPF_LD OR BPF_W OR BPF_ABS then
        Some (if k > length packet \<or> length packet - k < 4 then Inr (Break 0)
              else set_a s (load_word packet k))
      else if c = BPF_LD OR BPF_H OR BPF_ABS then
        Some (if k > length packet \<or> length packet - k < 2 then Inr (Break 0)
              else set_a s (load_halfword packet k))
      else if c = BPF_LD OR BPF_B OR BPF_ABS then
        Some (if k \<ge> length packet then Inr (Break 0) else set_a s (load_byte packet k))
      else None)"

definition exec_ld_len :: "u8 list \<Rightarrow> bpf_insn \<Rightarrow> vm \<Rightarrow> vm_flow option" where
  "exec_ld_len packet insn s =
     (let c = insn_code insn in
      if c = BPF_LD OR BPF_W OR BPF_LEN then Some (set_a s (Inr (word_of_nat (length packet))))
      else if c = BPF_LDX OR BPF_W OR BPF_LEN then Some (set_x s (Inr (word_of_nat (length packet))))
      else None)"

definition exec_ld_ind :: "u8 list \<Rightarrow> bpf_insn \<Rightarrow> vm \<Rightarrow> vm_flow option" where
  "exec_ld_ind packet insn s =
     (let c = insn_code insn; k = unat (vm_x s + insn_k insn) in
      if c = BPF_LD OR BPF_W OR BPF_IND then
        Some (if k > length packet \<or> length packet - k < 4 then Inr (Break 0)
              else set_a s (load_word packet k))
      else if c = BPF_LD OR BPF_H OR BPF_IND then
        Some (if k > length packet \<or> length packet - k < 2 then Inr (Break 0)
              else set_a s (load_halfword packet k))
      else if c = BPF_LD OR BPF_B OR BPF_IND then
        Some (if k \<ge> length packet then Inr (Break 0) else set_a s (load_byte packet k))
      else None)"

definition exec_ldx_msh :: "u8 list \<Rightarrow> bpf_insn \<Rightarrow> vm \<Rightarrow> vm_flow option" where
  "exec_ldx_msh packet insn s =
     (let c = insn_code insn; k = unat (insn_k insn) in
      if c = BPF_LDX OR BPF_B OR BPF_MSH then
        Some (if k \<ge> length packet then Inr (Break 0)
              else set_x s (rbind (load_byte packet k) (\<lambda>b. Inr (push_bit 2 (b AND 0xf)))))
      else None)"

definition exec_imm_mem :: "bpf_insn \<Rightarrow> vm \<Rightarrow> vm_flow option" where
  "exec_imm_mem insn s =
     (let c = insn_code insn; k = unat (insn_k insn) in
      if c = BPF_LD OR BPF_IMM then Some (set_a s (Inr (insn_k insn)))
      else if c = BPF_LDX OR BPF_IMM then Some (set_x s (Inr (insn_k insn)))
      else if c = BPF_LD OR BPF_MEM then Some (set_a s (get_unchecked (vm_mem s) k))
      else if c = BPF_LDX OR BPF_MEM then Some (set_x s (get_unchecked (vm_mem s) k))
      else if c = BPF_ST OR BPF_MEM then Some (set_mem s k (vm_a s))
      else if c = BPF_STX OR BPF_MEM then Some (set_mem s k (vm_x s))
      else None)"

definition exec_jmp :: "bpf_insn \<Rightarrow> vm \<Rightarrow> vm_flow option" where
  "exec_jmp insn s =
     (let c = insn_code insn; k = insn_k insn; a = vm_a s; x = vm_x s; pc = vm_pc s in
      if c = BPF_JMP OR BPF_JA then Some (set_pc s (Inr (pc + k)))
      else if c = BPF_JMP OR BPF_JGT OR BPF_K then Some (set_pc s (do_jmp pc (a > k) insn))
      else if c = BPF_JMP OR BPF_JGE OR BPF_K then Some (set_pc s (do_jmp pc (a \<ge> k) insn))
      else if c = BPF_JMP OR BPF_JEQ OR BPF_K then Some (set_pc s (do_jmp pc (a = k) insn))
      else if c = BPF_JMP OR BPF_JSET OR BPF_K then Some (set_pc s (do_jmp pc (a AND k \<noteq> 0) insn))
      else if c = BPF_JMP OR BPF_JGT OR BPF_X then Some (set_pc s (do_jmp pc (a > x) insn))
      else if c = BPF_JMP OR BPF_JGE OR BPF_X then Some (set_pc s (do_jmp pc (a \<ge> x) insn))
      else if c = BPF_JMP OR BPF_JEQ OR BPF_X then Some (set_pc s (do_jmp pc (a = x) insn))
      else if c = BPF_JMP OR BPF_JSET OR BPF_X then Some (set_pc s (do_jmp pc (a AND x \<noteq> 0) insn))
      else None)"

definition exec_alu_x :: "bpf_insn \<Rightarrow> vm \<Rightarrow> vm_flow option" where
  "exec_alu_x insn s =
     (let c = insn_code insn; a = vm_a s; x = vm_x s in
      if c = BPF_ALU OR BPF_ADD OR BPF_X then Some (set_a s (Inr (a + x)))
      else if c = BPF_ALU OR BPF_SUB OR BPF_X then Some (set_a s (Inr (a - x)))
      else if c = BPF_ALU OR BPF_MUL OR BPF_X then Some (set_a s (Inr (a * x)))
      else if c = BPF_ALU OR BPF_DIV OR BPF_X then
        Some (if x = 0 then Inr (Break 0) else set_a s (Inr (a div x)))
      else if c = BPF_ALU OR BPF_MOD OR BPF_X then
        Some (if x = 0 then Inr (Break 0) else set_a s (Inr (a mod x)))
      else if c = BPF_ALU OR BPF_AND OR BPF_X then Some (set_a s (Inr (a AND x)))
      else if c = BPF_ALU OR BPF_OR OR BPF_X then Some (set_a s (Inr (a OR x)))
      else if c = BPF_ALU OR BPF_XOR OR BPF_X then Some (set_a s (Inr (a XOR x)))
      else if c = BPF_ALU OR BPF_LSH OR BPF_X then
        Some (set_a s (Inr (if x < 32 then push_bit (unat x) a else 0)))
      else if c = BPF_ALU OR BPF_RSH OR BPF_X then
        Some (set_a s (Inr (if x < 32 then drop_bit (unat x) a else 0)))
      else None)"

definition exec_alu_k :: "bpf_insn \<Rightarrow> vm \<Rightarrow> vm_flow option" where
  "exec_alu_k insn s =
     (let c = insn_code insn; a = vm_a s; k = insn_k insn in
      if c = BPF_ALU OR BPF_ADD OR BPF_K then Some (set_a s (Inr (a + k)))
      else if c = BPF_ALU OR BPF_SUB OR BPF_K then Some (set_a s (Inr (a - k)))
      else if c = BPF_ALU OR BPF_MUL OR BPF_K then Some (set_a s (Inr (a * k)))
      else if c = BPF_ALU OR BPF_DIV OR BPF_K then
        Some (if k = 0 then Inr (Break 0) else set_a s (Inr (a div k)))
      else if c = BPF_ALU OR BPF_MOD OR BPF_K then
        Some (if k = 0 then Inr (Break 0) else set_a s (Inr (a mod k)))
      else if c = BPF_ALU OR BPF_AND OR BPF_K then Some (set_a s (Inr (a AND k)))
      else if c = BPF_ALU OR BPF_OR OR BPF_K then Some (set_a s (Inr (a OR k)))
      else if c = BPF_ALU OR BPF_XOR OR BPF_K then Some (set_a s (Inr (a XOR k)))
      else if c = BPF_ALU OR BPF_LSH OR BPF_K then
        Some (set_a s (Inr (if k < 32 then push_bit (unat k) a else 0)))
      else if c = BPF_ALU OR BPF_RSH OR BPF_K then
        Some (set_a s (Inr (if k < 32 then drop_bit (unat k) a else 0)))
      else None)"

definition exec_neg_misc :: "bpf_insn \<Rightarrow> vm \<Rightarrow> vm_flow option" where
  "exec_neg_misc insn s =
     (let c = insn_code insn in
      if c = BPF_ALU OR BPF_NEG then Some (set_a s (Inr (- vm_a s)))
      else if c = BPF_MISC OR BPF_TAX then Some (set_x s (Inr (vm_a s)))
      else if c = BPF_MISC OR BPF_TXA then Some (set_a s (Inr (vm_x s)))
      else None)"

text \<open>The whole match: the first group with an arm for the code, and
  \<open>unreachable_unchecked()\<close> when there is none.\<close>

fun first_match :: "'a option list \<Rightarrow> 'a \<Rightarrow> 'a" where
  "first_match [] d = d"
| "first_match (r # rs) d = (case r of Some v \<Rightarrow> v | None \<Rightarrow> first_match rs d)"

definition exec_insn :: "u8 list \<Rightarrow> bpf_insn \<Rightarrow> vm \<Rightarrow> vm_flow" where
  "exec_insn packet insn s =
     first_match
       [exec_ret insn s, exec_ld_abs packet insn s, exec_ld_len packet insn s,
        exec_ld_ind packet insn s, exec_ldx_msh packet insn s, exec_imm_mem insn s,
        exec_jmp insn s, exec_alu_x insn s, exec_alu_k insn s, exec_neg_misc insn s]
       (Inl Undefined)"

text \<open>One pass of the interpreter's \<open>loop\<close>, and the interpreter.\<close>

definition filter_step :: "bpf_insn list \<Rightarrow> u8 list \<Rightarrow> vm \<Rightarrow> vm_flow" where
  "filter_step insns packet s =
     rbind (get_unchecked insns (unat (vm_pc s))) (\<lambda>insn.
     rbind (unchecked_add (vm_pc s) 1) (\<lambda>pc.
     exec_insn packet insn (s\<lparr>vm_pc := pc\<rparr>)))"

definition filter_slice :: "bpf_insn list \<Rightarrow> u8 list \<Rightarrow> (u32 res) option" where
  "filter_slice insns packet = rloop (filter_step insns packet) vm_init"

section \<open>The validator\<close>

datatype bpf_error =
    ProgramTooLarge
  | MissingReturn
  | InvalidInstruction
  | BadJumpTarget
  | BadMemoryAccess
  | DivideByZero

definition VALIDATE_ALLOW_BACKWARD_JUMPS :: usize where
  "VALIDATE_ALLOW_BACKWARD_JUMPS = 1"

text \<open>The arms of \<open>match code_class(insn.code)\<close>.\<close>

definition check_ld :: "bpf_insn \<Rightarrow> bpf_error + unit" where
  "check_ld insn =
     (let c = insn_code insn; m = code_mode c in
      if m = BPF_IMM \<or> m = BPF_LEN then
        (if code_size c \<noteq> BPF_W then Inl InvalidInstruction else Inr ())
      else if m = BPF_ABS \<or> m = BPF_IND then
        (if \<not> valid_code_size (code_size c) then Inl InvalidInstruction else Inr ())
      else if m = BPF_MEM then
        (if code_size c \<noteq> BPF_W then Inl InvalidInstruction
         else if unat (insn_k insn) \<ge> MEMWORDS then Inl BadMemoryAccess else Inr ())
      else Inl InvalidInstruction)"

definition check_ldx :: "bpf_insn \<Rightarrow> bpf_error + unit" where
  "check_ldx insn =
     (let c = insn_code insn; m = code_mode c in
      if m = BPF_IMM \<or> m = BPF_LEN then
        (if code_size c \<noteq> BPF_W then Inl InvalidInstruction else Inr ())
      else if m = BPF_MSH then
        (if code_size c \<noteq> BPF_B then Inl InvalidInstruction else Inr ())
      else if m = BPF_MEM then
        (if code_size c \<noteq> BPF_W then Inl InvalidInstruction
         else if unat (insn_k insn) \<ge> MEMWORDS then Inl BadMemoryAccess else Inr ())
      else Inl InvalidInstruction)"

definition check_st :: "bpf_insn \<Rightarrow> bpf_error + unit" where
  "check_st insn =
     (let c = insn_code insn in
      if code_mode c \<noteq> BPF_MEM \<or> code_size c \<noteq> BPF_W then Inl InvalidInstruction
      else if unat (insn_k insn) \<ge> MEMWORDS then Inl BadMemoryAccess else Inr ())"

definition check_alu :: "bpf_insn \<Rightarrow> bpf_error + unit" where
  "check_alu insn =
     (let c = insn_code insn; m = code_op c in
      if m \<in> {BPF_ADD, BPF_SUB, BPF_MUL, BPF_OR, BPF_AND, BPF_XOR, BPF_LSH, BPF_RSH} then Inr ()
      else if m = BPF_NEG then (if code_src c \<noteq> 0 then Inl InvalidInstruction else Inr ())
      else if m = BPF_DIV \<or> m = BPF_MOD then
        (if code_src c = BPF_K \<and> insn_k insn = 0 then Inl DivideByZero else Inr ())
      else Inl InvalidInstruction)"

definition check_jmp :: "usize \<Rightarrow> u32 \<Rightarrow> u32 \<Rightarrow> bpf_insn \<Rightarrow> bpf_error + unit" where
  "check_jmp flags n i insn =
     (let c = insn_code insn; from = i + 1; m = code_op c in
      if m = BPF_JA then
        (if code_src c \<noteq> 0 then Inl InvalidInstruction
         else if flags AND VALIDATE_ALLOW_BACKWARD_JUMPS \<noteq> 0 then
           (if from + insn_k insn \<ge> n then Inl BadJumpTarget else Inr ())
         else (if insn_k insn \<ge> n - from then Inl BadJumpTarget else Inr ()))
      else if m = BPF_JEQ \<or> m = BPF_JGT \<or> m = BPF_JGE \<or> m = BPF_JSET then
        (if ucast (insn_jt insn) \<ge> n - from \<or> ucast (insn_jf insn) \<ge> n - from
         then Inl BadJumpTarget else Inr ())
      else Inl InvalidInstruction)"

definition check_ret :: "bpf_insn \<Rightarrow> bpf_error + unit" where
  "check_ret insn =
     (let c = insn_code insn in
      if code_rval c \<noteq> BPF_A \<and> code_rval c \<noteq> BPF_K then Inl InvalidInstruction
      else if c AND 0xe0 \<noteq> 0 then Inl InvalidInstruction else Inr ())"

definition check_misc :: "bpf_insn \<Rightarrow> bpf_error + unit" where
  "check_misc insn =
     (let m = code_miscop (insn_code insn) in
      if m = BPF_TAX \<or> m = BPF_TXA then Inr () else Inl InvalidInstruction)"

text \<open>The body of the \<open>for\<close> loop of \<open>do_validate\<close>, at index \<open>i\<close> of \<open>n\<close> instructions.\<close>

definition check_insn :: "usize \<Rightarrow> u32 \<Rightarrow> u32 \<Rightarrow> bpf_insn \<Rightarrow> bpf_error + unit" where
  "check_insn flags n i insn =
     (let c = insn_code insn; cl = code_class c in
      if c AND 0xff00 \<noteq> 0 then Inl InvalidInstruction
      else if cl = BPF_LD then check_ld insn
      else if cl = BPF_LDX then check_ldx insn
      else if cl = BPF_ST \<or> cl = BPF_STX then check_st insn
      else if cl = BPF_ALU then check_alu insn
      else if cl = BPF_JMP then check_jmp flags n i insn
      else if cl = BPF_RET then check_ret insn
      else if cl = BPF_MISC then check_misc insn
      else Inl InvalidInstruction)"

fun check_from :: "usize \<Rightarrow> u32 \<Rightarrow> u32 \<Rightarrow> bpf_insn list \<Rightarrow> bpf_error + unit" where
  "check_from flags n i [] = Inr ()"
| "check_from flags n i (insn # rest) =
     rbind (check_insn flags n i insn) (\<lambda>_. check_from flags n (i + 1) rest)"

definition do_validate :: "bpf_insn list \<Rightarrow> usize \<Rightarrow> bpf_error + unit" where
  "do_validate insns flags =
     (if length insns > 2 ^ 32 - 1 then Inl ProgramTooLarge
      else rbind (check_from flags (word_of_nat (length insns)) 0 insns) (\<lambda>_.
        if insns = [] \<or> code_class (insn_code (last insns)) \<noteq> BPF_RET then Inl MissingReturn
        else Inr ()))"

text \<open>\<open>BpfProgram\<close> and its constructors: a validated program is its instructions.\<close>

record bpf_program =
  prog_insns :: "bpf_insn list"

definition validate_with_flags :: "bpf_insn list \<Rightarrow> usize \<Rightarrow> bpf_error + bpf_program" where
  "validate_with_flags insns flags =
     rbind (do_validate insns flags) (\<lambda>_. Inr \<lparr>prog_insns = insns\<rparr>)"

definition validate :: "bpf_insn list \<Rightarrow> bpf_error + bpf_program" where
  "validate insns = validate_with_flags insns 0"

definition new_unvalidated :: "bpf_insn list \<Rightarrow> bpf_program" where
  "new_unvalidated insns = \<lparr>prog_insns = insns\<rparr>"

definition bpf_filter :: "bpf_program \<Rightarrow> u8 list \<Rightarrow> (u32 res) option" where
  "bpf_filter prog packet = filter_slice (prog_insns prog) packet"

section \<open>Reference semantics of the instruction set\<close>

text \<open>
  The instruction set as its documentation presents it: a list of instructions, one opcode each,
  loads as big-endian numbers and jumps as sums, with no undefined behaviour. The operands
  stay in the instruction word.
\<close>

datatype width = Width_w | Width_h | Width_b

datatype operand = Src_k | Src_x

datatype alu_op =
    Alu_add | Alu_sub | Alu_mul | Alu_div | Alu_mod | Alu_and | Alu_or | Alu_xor | Alu_lsh | Alu_rsh

datatype jmp_op = Jmp_gt | Jmp_ge | Jmp_eq | Jmp_set

datatype instr =
    Ret_k | Ret_a
  | Ld_abs width | Ld_ind width | Ld_len | Ldx_len | Ldx_msh
  | Ld_imm | Ldx_imm | Ld_mem | Ldx_mem | St_mem | Stx_mem
  | Ja | Jcond jmp_op operand
  | Alu alu_op operand | Alu_neg | Tax | Txa

fun width_code :: "width \<Rightarrow> u16" where
  "width_code Width_w = 0x00" | "width_code Width_h = 0x08" | "width_code Width_b = 0x10"

fun operand_code :: "operand \<Rightarrow> u16" where
  "operand_code Src_k = 0x00" | "operand_code Src_x = 0x08"

fun alu_code :: "alu_op \<Rightarrow> u16" where
  "alu_code Alu_add = 0x00" | "alu_code Alu_sub = 0x10" | "alu_code Alu_mul = 0x20"
| "alu_code Alu_div = 0x30" | "alu_code Alu_or = 0x40" | "alu_code Alu_and = 0x50"
| "alu_code Alu_lsh = 0x60" | "alu_code Alu_rsh = 0x70" | "alu_code Alu_mod = 0x90"
| "alu_code Alu_xor = 0xa0"

fun jmp_code :: "jmp_op \<Rightarrow> u16" where
  "jmp_code Jmp_eq = 0x10" | "jmp_code Jmp_gt = 0x20" | "jmp_code Jmp_ge = 0x30"
| "jmp_code Jmp_set = 0x40"

fun encode :: "instr \<Rightarrow> u16" where
  "encode Ret_k = 0x06" | "encode Ret_a = 0x16"
| "encode (Ld_abs w) = 0x20 + width_code w" | "encode (Ld_ind w) = 0x40 + width_code w"
| "encode Ld_len = 0x80" | "encode Ldx_len = 0x81" | "encode Ldx_msh = 0xb1"
| "encode Ld_imm = 0x00" | "encode Ldx_imm = 0x01" | "encode Ld_mem = 0x60"
| "encode Ldx_mem = 0x61" | "encode St_mem = 0x62" | "encode Stx_mem = 0x63"
| "encode Ja = 0x05" | "encode (Jcond j t) = 0x05 + jmp_code j + operand_code t"
| "encode (Alu p t) = 0x04 + alu_code p + operand_code t" | "encode Alu_neg = 0x84"
| "encode Tax = 0x07" | "encode Txa = 0x87"

definition all_instrs :: "instr list" where
  "all_instrs =
     [Ret_k, Ret_a] @ map Ld_abs [Width_w, Width_h, Width_b] @ map Ld_ind [Width_w, Width_h, Width_b]
     @ [Ld_len, Ldx_len, Ldx_msh, Ld_imm, Ldx_imm, Ld_mem, Ldx_mem, St_mem, Stx_mem, Ja]
     @ concat (map (\<lambda>t. map (\<lambda>j. Jcond j t) [Jmp_gt, Jmp_ge, Jmp_eq, Jmp_set]
        @ map (\<lambda>p. Alu p t) [Alu_add, Alu_sub, Alu_mul, Alu_div, Alu_mod, Alu_and, Alu_or, Alu_xor,
             Alu_lsh, Alu_rsh]) [Src_k, Src_x])
     @ [Alu_neg, Tax, Txa]"

definition decode :: "u16 \<Rightarrow> instr option" where
  "decode c = find (\<lambda>I. encode I = c) all_instrs"

fun width_bytes :: "width \<Rightarrow> nat" where
  "width_bytes Width_w = 4" | "width_bytes Width_h = 2" | "width_bytes Width_b = 1"

definition be_value :: "u8 list \<Rightarrow> nat" where
  "be_value bs = foldl (\<lambda>v b. v * 256 + unat b) 0 bs"

definition be_load :: "u8 list \<Rightarrow> nat \<Rightarrow> nat \<Rightarrow> u32 option" where
  "be_load packet addr n =
     (if addr + n \<le> length packet then Some (word_of_nat (be_value (take n (drop addr packet))))
      else None)"

fun alu_value :: "alu_op \<Rightarrow> u32 \<Rightarrow> u32 \<Rightarrow> u32 option" where
  "alu_value Alu_add a b = Some (a + b)" | "alu_value Alu_sub a b = Some (a - b)"
| "alu_value Alu_mul a b = Some (a * b)"
| "alu_value Alu_div a b = (if b = 0 then None else Some (a div b))"
| "alu_value Alu_mod a b = (if b = 0 then None else Some (a mod b))"
| "alu_value Alu_and a b = Some (a AND b)" | "alu_value Alu_or a b = Some (a OR b)"
| "alu_value Alu_xor a b = Some (a XOR b)"
| "alu_value Alu_lsh a b = Some (push_bit (unat b) a)"
| "alu_value Alu_rsh a b = Some (drop_bit (unat b) a)"

fun jmp_taken :: "jmp_op \<Rightarrow> u32 \<Rightarrow> u32 \<Rightarrow> bool" where
  "jmp_taken Jmp_gt a b = (b < a)" | "jmp_taken Jmp_ge a b = (b \<le> a)"
| "jmp_taken Jmp_eq a b = (a = b)" | "jmp_taken Jmp_set a b = (a AND b \<noteq> 0)"

fun operand_value :: "operand \<Rightarrow> bpf_insn \<Rightarrow> vm \<Rightarrow> u32" where
  "operand_value Src_k insn s = insn_k insn" | "operand_value Src_x insn s = vm_x s"

text \<open>A missing packet byte or a zero divisor ends the program with 0.\<close>

definition or_zero :: "u32 option \<Rightarrow> (u32 \<Rightarrow> vm) \<Rightarrow> (vm, u32) flow" where
  "or_zero r f = (case r of None \<Rightarrow> Break 0 | Some v \<Rightarrow> Continue (f v))"

fun instr_exec :: "u8 list \<Rightarrow> instr \<Rightarrow> bpf_insn \<Rightarrow> vm \<Rightarrow> (vm, u32) flow" where
  "instr_exec pkt Ret_k insn s = Break (insn_k insn)"
| "instr_exec pkt Ret_a insn s = Break (vm_a s)"
| "instr_exec pkt (Ld_abs w) insn s =
     or_zero (be_load pkt (unat (insn_k insn)) (width_bytes w)) (\<lambda>v. s\<lparr>vm_a := v\<rparr>)"
| "instr_exec pkt (Ld_ind w) insn s =
     or_zero (be_load pkt (unat (vm_x s + insn_k insn)) (width_bytes w)) (\<lambda>v. s\<lparr>vm_a := v\<rparr>)"
| "instr_exec pkt Ld_len insn s = Continue (s\<lparr>vm_a := word_of_nat (length pkt)\<rparr>)"
| "instr_exec pkt Ldx_len insn s = Continue (s\<lparr>vm_x := word_of_nat (length pkt)\<rparr>)"
| "instr_exec pkt Ldx_msh insn s =
     or_zero (be_load pkt (unat (insn_k insn)) 1) (\<lambda>v. s\<lparr>vm_x := 4 * (v mod 16)\<rparr>)"
| "instr_exec pkt Ld_imm insn s = Continue (s\<lparr>vm_a := insn_k insn\<rparr>)"
| "instr_exec pkt Ldx_imm insn s = Continue (s\<lparr>vm_x := insn_k insn\<rparr>)"
| "instr_exec pkt Ld_mem insn s = Continue (s\<lparr>vm_a := vm_mem s ! unat (insn_k insn)\<rparr>)"
| "instr_exec pkt Ldx_mem insn s = Continue (s\<lparr>vm_x := vm_mem s ! unat (insn_k insn)\<rparr>)"
| "instr_exec pkt St_mem insn s = Continue (s\<lparr>vm_mem := (vm_mem s)[unat (insn_k insn) := vm_a s]\<rparr>)"
| "instr_exec pkt Stx_mem insn s = Continue (s\<lparr>vm_mem := (vm_mem s)[unat (insn_k insn) := vm_x s]\<rparr>)"
| "instr_exec pkt Ja insn s =
     Continue (s\<lparr>vm_pc := word_of_nat (unat (vm_pc s) + unat (insn_k insn))\<rparr>)"
| "instr_exec pkt (Jcond j t) insn s =
     Continue (s\<lparr>vm_pc := word_of_nat (unat (vm_pc s) +
       (if jmp_taken j (vm_a s) (operand_value t insn s) then unat (insn_jt insn)
        else unat (insn_jf insn)))\<rparr>)"
| "instr_exec pkt (Alu p t) insn s =
     or_zero (alu_value p (vm_a s) (operand_value t insn s)) (\<lambda>v. s\<lparr>vm_a := v\<rparr>)"
| "instr_exec pkt Alu_neg insn s = Continue (s\<lparr>vm_a := - vm_a s\<rparr>)"
| "instr_exec pkt Tax insn s = Continue (s\<lparr>vm_x := vm_a s\<rparr>)"
| "instr_exec pkt Txa insn s = Continue (s\<lparr>vm_a := vm_x s\<rparr>)"

text \<open>What the operands of the instruction at index \<open>i\<close> of \<open>n\<close> must satisfy.\<close>

fun instr_ok :: "bool \<Rightarrow> nat \<Rightarrow> nat \<Rightarrow> instr \<Rightarrow> bpf_insn \<Rightarrow> bool" where
  "instr_ok back n i Ja insn =
     (if back then (i + 1 + unat (insn_k insn)) mod 2 ^ 32 < n else i + 1 + unat (insn_k insn) < n)"
| "instr_ok back n i (Jcond j t) insn =
     (i + 1 + unat (insn_jt insn) < n \<and> i + 1 + unat (insn_jf insn) < n)"
| "instr_ok back n i (Alu p t) insn =
     (p \<in> {Alu_div, Alu_mod} \<and> t = Src_k \<longrightarrow> insn_k insn \<noteq> 0)"
| "instr_ok back n i I insn =
     (I \<in> {Ld_mem, Ldx_mem, St_mem, Stx_mem} \<longrightarrow> unat (insn_k insn) < 16)"

end
