(* ===== verification/Cbpf_Safety.thy ===== *)
theory Cbpf_Safety
  imports Cbpf
begin

text \<open>
  Correctness of the BPF library: the opcode matching of interpreter and validator against the
  reference instruction set, what \<open>do_validate\<close> accepts, and that a validated program runs
  without undefined behaviour and, without backward jumps, returns on every packet.
\<close>

section \<open>Decoding\<close>

lemma all_instrs_complete: "I \<in> set all_instrs"
proof (cases I)
  case (Ld_abs w) then show ?thesis by (cases w) (simp_all add: all_instrs_def)
next
  case (Ld_ind w) then show ?thesis by (cases w) (simp_all add: all_instrs_def)
next
  case (Jcond j t) then show ?thesis by (cases j; cases t) (simp_all add: all_instrs_def)
next
  case (Alu p t) then show ?thesis by (cases p; cases t) (simp_all add: all_instrs_def)
qed (simp_all add: all_instrs_def)

lemma distinct_encodings: "distinct (map encode all_instrs)"
  by (simp add: all_instrs_def)

lemma encode_inject: "encode I = encode J \<longleftrightarrow> I = J"
  using distinct_encodings all_instrs_complete
  by (auto simp: distinct_map dest: inj_onD)

lemma decode_eq_Some_iff: "decode c = Some I \<longleftrightarrow> encode I = c"
proof
  assume "decode c = Some I"
  then show "encode I = c" by (auto simp: decode_def find_Some_iff)
next
  assume c: "encode I = c"
  then have "\<exists>J. decode c = Some J"
    using all_instrs_complete by (auto simp: decode_def find_None_iff not_None_eq [symmetric])
  then obtain J where "decode c = Some J" ..
  moreover from this have "encode J = c" by (auto simp: decode_def find_Some_iff)
  ultimately show "decode c = Some I" using c encode_inject by auto
qed

lemma decode_eq_None_iff: "decode c = None \<longleftrightarrow> (\<forall>I. encode I \<noteq> c)"
  by (metis decode_eq_Some_iff not_None_eq option.distinct(1))

section \<open>Packet loads are big-endian reads\<close>

lemma or_eq_add_disjoint:
  fixes x y :: u32
  assumes "\<And>n. bit x n \<Longrightarrow> \<not> bit y n"
  shows "x OR y = x + y"
  using assms by (intro disjunctive_add_eq_or [symmetric] bit_word_eqI) (auto simp: bit_simps)

lemma push_byte_or:
  fixes w :: u32 and b :: u8
  shows "push_bit 8 w OR ucast b = w * 256 + word_of_nat (unat b)"
proof -
  have "push_bit 8 w OR ucast b = push_bit 8 w + ucast b"
    by (rule or_eq_add_disjoint) (auto simp: bit_simps dest: bit_imp_le_length)
  moreover have "push_bit 8 w = w * 256"
    by (simp add: push_bit_eq_mult)
  ultimately show ?thesis by (simp only:) simp
qed

lemma take_drop_unroll:
  assumes "addr < length p"
  shows "take (Suc n) (drop addr p) = p ! addr # take n (drop (Suc addr) p)"
  using assms by (metis Cons_nth_drop_Suc take_Suc_Cons)

lemma load_byte_be:
  assumes "addr + 1 \<le> length p"
  shows "load_byte p addr = Inr (word_of_nat (be_value (take 1 (drop addr p))))"
  using assms take_drop_unroll [of addr p 0]
  by (simp add: load_byte_def be_value_def)

lemma load_halfword_be:
  assumes "addr + 2 \<le> length p"
  shows "load_halfword p addr = Inr (word_of_nat (be_value (take 2 (drop addr p))))"
proof -
  have "take 2 (drop addr p) = [p ! addr, p ! (addr + 1)]"
    using assms take_drop_unroll [of addr p 1] take_drop_unroll [of "addr + 1" p 0]
    by (simp add: numeral_2_eq_2)
  moreover from assms have "addr < length p" "addr + 1 < length p" by auto
  ultimately show ?thesis
    by (simp add: load_halfword_def be_value_def push_byte_or)
qed

lemma load_word_be:
  assumes "addr + 4 \<le> length p"
  shows "load_word p addr = Inr (word_of_nat (be_value (take 4 (drop addr p))))"
proof -
  have "take 4 (drop addr p) = [p ! addr, p ! (addr + 1), p ! (addr + 2), p ! (addr + 3)]"
    using assms take_drop_unroll [of addr p 3] take_drop_unroll [of "addr + 1" p 2]
      take_drop_unroll [of "addr + 2" p 1] take_drop_unroll [of "addr + 3" p 0]
    by (simp add: eval_nat_numeral)
  moreover from assms have "addr < length p" "addr + 1 < length p" "addr + 2 < length p"
    "addr + 3 < length p" by auto
  moreover have "push_bit 24 (ucast b0) OR push_bit 16 (ucast b1) OR push_bit 8 (ucast b2) OR ucast b3
      = push_bit 8 (push_bit 8 (push_bit 8 (ucast b0) OR ucast b1) OR ucast b2) OR (ucast b3 :: u32)"
    for b0 b1 b2 b3 :: u8
    by (simp add: push_bit_or or.assoc)
  ultimately show ?thesis
    by (simp add: load_word_def be_value_def push_byte_or algebra_simps)
qed

lemmas load_be = load_byte_be load_halfword_be load_word_be

section \<open>The interpreter's match implements the instruction set\<close>

lemmas exec_defs =
  exec_ret_def exec_ld_abs_def exec_ld_len_def exec_ld_ind_def exec_ldx_msh_def exec_imm_mem_def
  exec_jmp_def exec_alu_x_def exec_alu_k_def exec_neg_misc_def

lemma exec_insn_undecodable:
  assumes "decode (insn_code insn) = None"
  shows "exec_insn pkt insn s = Inl Undefined"
proof -
  have "list_all (\<lambda>I. insn_code insn \<noteq> encode I) all_instrs"
    using assms by (auto simp: decode_eq_None_iff list_all_iff)
  then show ?thesis
    by (simp add: all_instrs_def exec_insn_def exec_defs bpf_code_defs Let_def)
qed

text \<open>The operand conditions under which the arms of the match do what the set says.\<close>

definition operands_ok :: "instr \<Rightarrow> bpf_insn \<Rightarrow> vm \<Rightarrow> bool" where
  "operands_ok I insn s \<longleftrightarrow>
     (I \<in> {Ld_mem, Ldx_mem, St_mem, Stx_mem} \<longrightarrow> unat (insn_k insn) < length (vm_mem s)) \<and>
     (\<forall>j t. I = Jcond j t \<longrightarrow> unat (vm_pc s) + unat (insn_jt insn) < 2 ^ 32 \<and>
        unat (vm_pc s) + unat (insn_jf insn) < 2 ^ 32)"

lemma unat_ucast_byte: "unat (ucast x :: u32) = unat (x :: u8)"
proof -
  have "unat x < 2 ^ 8" using unsigned_less [of x, where 'a = nat] by simp
  then show ?thesis by (simp add: unsigned_ucast_eq take_bit_nat_eq_self_iff)
qed

lemma shift_beyond:
  fixes a b :: u32
  assumes "\<not> b < 32"
  shows "push_bit (unat b) a = 0" and "drop_bit (unat b) a = 0"
proof -
  have "32 \<le> unat b" using assms by (simp add: word_less_nat_alt)
  then show "push_bit (unat b) a = 0" and "drop_bit (unat b) a = 0"
    by (simp_all add: push_bit_word_beyond drop_bit_word_beyond)
qed

lemma msh_value: "push_bit 2 (b AND 0xf) = 4 * (b mod 16 :: u32)"
proof -
  have "b AND 0xf = b mod 16"
    using take_bit_eq_mask [of 4 b] by (simp add: mask_eq_exp_minus_1 take_bit_eq_mod)
  then show ?thesis by (simp add: push_bit_eq_mult)
qed

lemma do_jmp_ok:
  assumes "unat pc + unat (insn_jt insn) < 2 ^ 32" and "unat pc + unat (insn_jf insn) < 2 ^ 32"
  shows "do_jmp pc b insn =
    Inr (word_of_nat (unat pc + (if b then unat (insn_jt insn) else unat (insn_jf insn))))"
proof -
  have "unat (ucast x :: u32) = unat x" for x :: u8
    by (rule unat_ucast_byte)
  with assms show ?thesis by (simp add: do_jmp_def unchecked_add_def)
qed

lemma exec_insn_decoded:
  assumes "encode I = insn_code insn" and "operands_ok I insn s"
  shows "exec_insn pkt insn s = Inr (instr_exec pkt I insn s)"
proof (cases I)
  case (Ld_abs w)
  with assms show ?thesis
    by (cases w) (auto simp: exec_insn_def exec_defs bpf_code_defs Let_def set_a_def be_load_def
        load_be or_zero_def)
next
  case (Ld_ind w)
  with assms show ?thesis
    by (cases w) (auto simp: exec_insn_def exec_defs bpf_code_defs Let_def set_a_def be_load_def
        load_be or_zero_def)
next
  case (Jcond j t)
  with assms show ?thesis
    by (cases j; cases t) (auto simp: exec_insn_def exec_defs bpf_code_defs Let_def set_pc_def
        operands_ok_def do_jmp_ok)
next
  case (Alu p t)
  with assms show ?thesis
    by (cases p; cases t) (auto simp: exec_insn_def exec_defs bpf_code_defs Let_def set_a_def or_zero_def
        shift_beyond)
next
  case Ldx_msh
  with assms show ?thesis
    by (auto simp: exec_insn_def exec_defs bpf_code_defs Let_def set_x_def be_load_def
        load_be or_zero_def msh_value simp del: push_bit_and)
qed (insert assms, auto simp: exec_insn_def exec_defs bpf_code_defs Let_def set_a_def set_x_def
  set_pc_def set_mem_def operands_ok_def)

section \<open>What the validator accepts\<close>

lemmas check_defs =
  check_insn_def check_ld_def check_ldx_def check_st_def check_alu_def check_jmp_def check_ret_def
  check_misc_def

lemma high_byte_clear:
  assumes "c AND 0xff00 = (0 :: u16)"
  shows "c = c AND 0xff"
proof -
  have "c = c AND (0xff00 OR 0xff)"
    using take_bit_eq_mask [of 16 c] by (simp add: mask_eq_exp_minus_1 take_bit_word_eq_self)
  also have "\<dots> = (c AND 0xff00) OR (c AND 0xff)"
    by (rule bit.conj_disj_distrib)
  finally show ?thesis using assms by simp
qed

lemma code_fields:
  assumes "c AND 0xff00 = (0 :: u16)"
  shows "c = code_class c OR code_size c OR code_mode c"
    and "c = code_class c OR code_src c OR code_op c"
    and "c = code_class c OR code_miscop c"
  using high_byte_clear [OF assms]
  by (simp_all add: bpf_field_defs flip: bit.conj_disj_distrib)

lemma code_size_cases: "code_size c \<in> {0x00, 0x08, 0x10, 0x18}"
proof -
  have "c AND 0x18 = (if bit c 3 then 8 else 0) + (if bit c 4 then 0x10 else 0)"
    by (rule bit_word_eqI) (auto simp: bit_simps bit_numeral_rec less_Suc_eq numeral_eq_Suc)
  then show ?thesis by (auto simp: code_size_def)
qed

lemma code_src_cases: "code_src c \<in> {0x00, 0x08}"
proof -
  have "c AND 0x08 = (if bit c 3 then 8 else 0)"
    by (rule bit_word_eqI) (auto simp: bit_simps bit_numeral_rec less_Suc_eq numeral_eq_Suc)
  then show ?thesis by (auto simp: code_src_def)
qed

text \<open>Every accepted opcode is one of the instruction set.\<close>

lemma check_insn_decodes:
  assumes ok: "check_insn flags n i insn = Inr ()"
  shows "\<exists>I. encode I = insn_code insn"
proof -
  let ?c = "insn_code insn"
  have hi: "?c AND 0xff00 = 0"
    using ok by (auto simp: check_insn_def Let_def split: if_splits)
  have "?c \<in> set (map encode all_instrs)"
  proof (cases "code_class ?c \<in> {BPF_ALU, BPF_JMP}")
    case True
    then show ?thesis
      using ok hi code_fields(2) [OF hi] code_src_cases [of ?c]
      by (auto simp: check_defs Let_def bpf_code_defs all_instrs_def split: if_splits)
  next
    case False
    show ?thesis
    proof (cases "code_class ?c = BPF_MISC")
      case True
      then show ?thesis
        using ok hi code_fields(3) [OF hi]
        by (auto simp: check_defs Let_def bpf_code_defs all_instrs_def split: if_splits)
    next
      case nomisc: False
      have "code_rval ?c = code_size ?c" and "?c AND 0xe0 = code_mode ?c"
        by (simp_all add: bpf_field_defs)
      then show ?thesis
        using ok hi False nomisc code_fields(1) [OF hi] code_size_cases [of ?c]
        by (auto simp: check_defs Let_def bpf_code_defs valid_code_size_def all_instrs_def
            split: if_splits)
    qed
  qed
  then show ?thesis by auto
qed

lemma jump_bound:
  fixes v n i :: u32
  assumes "unat i < unat n"
  shows "v < n - (i + 1) \<longleftrightarrow> unat i + 1 + unat v < unat n"
proof -
  have "unat n < 2 ^ 32" using unsigned_less [of n, where 'a = nat] by simp
  with assms have i: "unat (i + 1) = unat i + 1" by (subst unat_add_no_wrap) simp_all
  with assms have "unat (n - (i + 1)) = unat n - (unat i + 1)" by (simp add: unat_sub_no_wrap)
  with i show ?thesis by (auto simp: word_less_nat_alt)
qed

lemma wrapping_target:
  fixes k i :: u32
  shows "unat (i + 1 + k) = (unat i + 1 + unat k) mod 2 ^ 32"
  by (simp add: unat_word_ariths mod_simps)

lemma check_insn_decoded:
  assumes "unat i < unat n" and "encode I = insn_code insn"
  shows "check_insn flags n i insn = Inr () \<longleftrightarrow>
    instr_ok (flags AND VALIDATE_ALLOW_BACKWARD_JUMPS \<noteq> 0) (unat n) (unat i) I insn"
proof (cases I)
  case (Ld_abs w)
  with assms show ?thesis
    by (cases w) (simp_all add: check_defs bpf_field_defs bpf_code_defs Let_def)
next
  case (Ld_ind w)
  with assms show ?thesis
    by (cases w) (simp_all add: check_defs bpf_field_defs bpf_code_defs Let_def)
next
  case Ja
  with assms(2) have "insn_code insn = 5" by simp
  then have "check_insn flags n i insn = Inr () \<longleftrightarrow>
      (if flags AND VALIDATE_ALLOW_BACKWARD_JUMPS \<noteq> 0 then i + 1 + insn_k insn < n
       else insn_k insn < n - (i + 1))"
    by (auto simp: check_defs bpf_field_defs bpf_code_defs Let_def)
  then show ?thesis
    using jump_bound [OF assms(1), of "insn_k insn"] wrapping_target [of i "insn_k insn"]
    by (simp add: Ja word_less_nat_alt)
next
  case (Jcond j t)
  with assms have "check_insn flags n i insn = Inr () \<longleftrightarrow>
      ucast (insn_jt insn) < n - (i + 1) \<and> ucast (insn_jf insn) < n - (i + 1)"
    by (cases j; cases t) (auto simp: check_defs bpf_field_defs bpf_code_defs Let_def)
  with Jcond show ?thesis by (simp add: jump_bound [OF assms(1)] unat_ucast_byte)
next
  case (Alu p t)
  with assms show ?thesis
    by (cases p; cases t) (simp_all add: check_defs bpf_field_defs bpf_code_defs Let_def)
qed (insert assms, simp_all add: check_defs bpf_field_defs bpf_code_defs Let_def MEMWORDS_def not_le)

lemma check_insn_ok_iff:
  assumes "unat i < unat n"
  shows "check_insn flags n i insn = Inr () \<longleftrightarrow>
    (\<exists>I. decode (insn_code insn) = Some I \<and>
         instr_ok (flags AND VALIDATE_ALLOW_BACKWARD_JUMPS \<noteq> 0) (unat n) (unat i) I insn)"
  using check_insn_decoded [OF assms] check_insn_decodes
  by (metis decode_eq_Some_iff)

lemma all_less_Suc_split: "(\<forall>m < Suc n. P m) \<longleftrightarrow> P 0 \<and> (\<forall>m < n. P (Suc m))"
  by (auto simp: less_Suc_eq_0_disj)

text \<open>The \<open>for\<close> loop accepts when every instruction is accepted at its own index.\<close>

lemma check_from_ok_iff:
  assumes "unat i + length insns = unat n"
  shows "check_from flags n i insns = Inr () \<longleftrightarrow>
    (\<forall>m < length insns. check_insn flags n (i + word_of_nat m) (insns ! m) = Inr ())"
  using assms
proof (induction insns arbitrary: i)
  case Nil
  show ?case by simp
next
  case (Cons insn rest)
  show ?case
  proof (cases "rest = []")
    case True
    then show ?thesis by (auto simp: res_simps)
  next
    case False
    have "unat n < 2 ^ 32" using unsigned_less [of n, where 'a = nat] by simp
    with Cons.prems False have "unat (i + 1) = unat i + 1"
      by (subst unat_add_no_wrap) auto
    with Cons.prems have "unat (i + 1) + length rest = unat n" by simp
    note IH = Cons.IH [OF this]
    have "check_from flags n i (insn # rest) = Inr () \<longleftrightarrow>
        check_insn flags n i insn = Inr () \<and>
        (\<forall>m < length rest. check_insn flags n (i + word_of_nat (Suc m)) (rest ! m) = Inr ())"
      by (auto simp: res_simps IH add.assoc)
    also have "\<dots> \<longleftrightarrow> (\<forall>m < length (insn # rest).
        check_insn flags n (i + word_of_nat m) ((insn # rest) ! m) = Inr ())"
      by (subst length_Cons, subst all_less_Suc_split) simp
    finally show ?thesis .
  qed
qed

text \<open>The acceptance condition of the validator, over the reference instruction set.\<close>

definition program_ok :: "bool \<Rightarrow> bpf_insn list \<Rightarrow> bool" where
  "program_ok back insns \<longleftrightarrow>
     length insns < 2 ^ 32 \<and> insns \<noteq> [] \<and>
     insn_code (last insns) \<in> {encode Ret_k, encode Ret_a} \<and>
     (\<forall>i < length insns. \<exists>I. decode (insn_code (insns ! i)) = Some I \<and>
        instr_ok back (length insns) i I (insns ! i))"

lemma class_ret_encode: "code_class (encode I) = BPF_RET \<longleftrightarrow> I \<in> {Ret_k, Ret_a}"
proof (cases I)
  case (Ld_abs w) then show ?thesis by (cases w) (simp_all add: bpf_field_defs bpf_code_defs)
next
  case (Ld_ind w) then show ?thesis by (cases w) (simp_all add: bpf_field_defs bpf_code_defs)
next
  case (Jcond j t) then show ?thesis by (cases j; cases t) (simp_all add: bpf_field_defs bpf_code_defs)
next
  case (Alu p t) then show ?thesis by (cases p; cases t) (simp_all add: bpf_field_defs bpf_code_defs)
qed (simp_all add: bpf_field_defs bpf_code_defs)

lemma do_validate_ok_iff:
  "do_validate insns flags = Inr () \<longleftrightarrow>
     program_ok (flags AND VALIDATE_ALLOW_BACKWARD_JUMPS \<noteq> 0) insns"
proof (cases "insns \<noteq> [] \<and> length insns < 2 ^ 32")
  case False
  then show ?thesis by (auto simp: do_validate_def program_ok_def)
next
  case True
  let ?n = "word_of_nat (length insns) :: u32" and ?last = "length insns - 1"
  have n: "unat ?n = length insns"
    using True by (simp add: unat_of_nat take_bit_nat_eq_self_iff)
  have at: "check_insn flags ?n (word_of_nat i) (insns ! i) = Inr () \<longleftrightarrow>
      (\<exists>I. decode (insn_code (insns ! i)) = Some I \<and>
        instr_ok (flags AND VALIDATE_ALLOW_BACKWARD_JUMPS \<noteq> 0) (length insns) i I (insns ! i))"
    if "i < length insns" for i
  proof -
    have "unat (word_of_nat i :: u32) = i"
      using that True by (simp add: unat_of_nat take_bit_nat_eq_self_iff)
    with check_insn_ok_iff [of "word_of_nat i" ?n] that n show ?thesis by simp
  qed
  have "do_validate insns flags = Inr () \<longleftrightarrow>
      (\<forall>i < length insns. check_insn flags ?n (word_of_nat i) (insns ! i) = Inr ()) \<and>
      code_class (insn_code (last insns)) = BPF_RET"
    using True check_from_ok_iff [of 0 insns ?n flags] n
    by (auto simp: do_validate_def res_simps)
  moreover have "code_class (insn_code (last insns)) = BPF_RET \<longleftrightarrow>
      insn_code (last insns) \<in> {encode Ret_k, encode Ret_a}"
    if "\<forall>i < length insns. \<exists>I. decode (insn_code (insns ! i)) = Some I \<and> Q i I" for Q
  proof -
    have "?last < length insns" using True by simp
    with that obtain I where "encode I = insn_code (insns ! ?last)"
      by (fastforce simp: decode_eq_Some_iff)
    then show ?thesis
      using class_ret_encode [of I] encode_inject [of I Ret_k] encode_inject [of I Ret_a] True
      by (simp add: last_conv_nth)
  qed
  ultimately show ?thesis
    using True at by (auto simp: program_ok_def)
qed

section \<open>A validated program runs safely\<close>

definition vm_ok :: "bpf_insn list \<Rightarrow> vm \<Rightarrow> bool" where
  "vm_ok insns s \<longleftrightarrow> unat (vm_pc s) < length insns \<and> length (vm_mem s) = MEMWORDS"

lemma vm_init_ok: "insns \<noteq> [] \<Longrightarrow> vm_ok insns vm_init"
  by (simp add: vm_ok_def vm_init_def)

text \<open>The instruction a state is about to run.\<close>

lemma current_instr:
  assumes "program_ok back insns" and "vm_ok insns s"
  obtains I where "encode I = insn_code (insns ! unat (vm_pc s))"
    and "instr_ok back (length insns) (unat (vm_pc s)) I (insns ! unat (vm_pc s))"
    and "unat (vm_pc s + 1) = unat (vm_pc s) + 1"
    and "I \<in> {Ret_k, Ret_a} \<or> unat (vm_pc s) + 1 < length insns"
proof -
  let ?i = "unat (vm_pc s)"
  have i: "?i < length insns" and n: "length insns < 2 ^ 32"
    using assms by (simp_all add: vm_ok_def program_ok_def)
  then obtain I where I: "encode I = insn_code (insns ! ?i)"
    and ok: "instr_ok back (length insns) ?i I (insns ! ?i)"
    using assms(1) by (auto simp: program_ok_def decode_eq_Some_iff)
  have "unat (vm_pc s + 1) = ?i + 1" using i n by (subst unat_add_no_wrap) auto
  moreover have "?i + 1 < length insns" if "I \<notin> {Ret_k, Ret_a}"
  proof (rule ccontr)
    assume "\<not> ?i + 1 < length insns"
    with i have "insns ! ?i = last insns" by (subst last_conv_nth) (auto intro: arg_cong [where f = "(!) insns"])
    with I assms(1) have "encode I \<in> {encode Ret_k, encode Ret_a}" by (simp add: program_ok_def)
    then show False using that by (simp only: insert_iff encode_inject empty_iff) simp
  qed
  ultimately show ?thesis using that I ok by blast
qed

lemma filter_step_decoded:
  assumes "program_ok back insns" and "vm_ok insns s"
    and "encode I = insn_code (insns ! unat (vm_pc s))"
  shows "filter_step insns pkt s =
    Inr (instr_exec pkt I (insns ! unat (vm_pc s)) (s\<lparr>vm_pc := vm_pc s + 1\<rparr>))"
proof -
  let ?insn = "insns ! unat (vm_pc s)" and ?s = "s\<lparr>vm_pc := vm_pc s + 1\<rparr>"
  obtain J where J: "encode J = insn_code ?insn"
    and ok: "instr_ok back (length insns) (unat (vm_pc s)) J ?insn"
    and pc: "unat (vm_pc s + 1) = unat (vm_pc s) + 1"
    by (rule current_instr [OF assms(1,2)])
  have "J = I" using J assms(3) by (metis encode_inject)
  have n: "length insns < 2 ^ 32" using assms(1) by (simp add: program_ok_def)
  have "operands_ok I ?insn ?s"
    using ok n assms(2) pc unfolding \<open>J = I\<close>
    by (cases I) (auto simp: operands_ok_def vm_ok_def MEMWORDS_def)
  then have "exec_insn pkt ?insn ?s = Inr (instr_exec pkt I ?insn ?s)"
    by (rule exec_insn_decoded [OF assms(3)])
  then show ?thesis
    using assms(2) n by (simp add: filter_step_def vm_ok_def unchecked_add_def)
qed

text \<open>A pass that goes on stays in the program; it moves \<open>pc\<close> forward unless backward jumps
  are allowed.\<close>

lemma instr_exec_next:
  assumes "instr_ok back n i I insn" and "n < 2 ^ 32" and "i < n"
    and "unat (vm_pc s) = i + 1" and "I \<in> {Ret_k, Ret_a} \<or> i + 1 < n"
    and "instr_exec pkt I insn s = Continue s'"
  shows "unat (vm_pc s') < n" and "length (vm_mem s') = length (vm_mem s)"
    and "\<not> back \<Longrightarrow> i < unat (vm_pc s')"
proof -
  have word: "unat (word_of_nat m :: u32) = m" if "m < n" for m
    using that assms(2) by (simp add: unat_of_nat take_bit_nat_eq_self_iff)
  have mod: "unat (word_of_nat m :: u32) = m mod 2 ^ 32" for m
    by (simp add: unat_of_nat take_bit_eq_mod)
  show "length (vm_mem s') = length (vm_mem s)"
    using assms(6) by (cases I) (auto simp: or_zero_def split: option.splits)
  show "unat (vm_pc s') < n"
    using assms
    by (cases I) (auto simp: or_zero_def word mod simp del: of_nat_add of_nat_Suc
        split: option.splits if_splits)
  show "i < unat (vm_pc s')" if "\<not> back"
    using assms that
    by (cases I) (auto simp: or_zero_def word simp del: of_nat_add of_nat_Suc
        split: option.splits if_splits)
qed

lemma filter_step_next:
  assumes "program_ok back insns" and "vm_ok insns s"
    and "filter_step insns pkt s = Inr (Continue s')"
  shows "vm_ok insns s'" and "\<not> back \<Longrightarrow> unat (vm_pc s) < unat (vm_pc s')"
proof -
  let ?i = "unat (vm_pc s)"
  have ok: "?i < length insns" "length insns < 2 ^ 32" "length (vm_mem s) = MEMWORDS"
    using assms(1,2) by (simp_all add: program_ok_def vm_ok_def)
  obtain I where I: "encode I = insn_code (insns ! ?i)"
    and facts: "instr_ok back (length insns) ?i I (insns ! ?i)"
      "unat (vm_pc s + 1) = ?i + 1" "I \<in> {Ret_k, Ret_a} \<or> ?i + 1 < length insns"
    by (rule current_instr [OF assms(1,2)])
  let ?s = "s\<lparr>vm_pc := vm_pc s + 1\<rparr>"
  have "instr_exec pkt I (insns ! ?i) ?s = Continue s'"
    using filter_step_decoded [OF assms(1,2) I] assms(3) by simp
  note next_ok = instr_exec_next [OF facts(1) ok(2,1) _ facts(3) this]
  show "vm_ok insns s'" using next_ok ok facts(2) by (simp add: vm_ok_def)
  show "?i < unat (vm_pc s')" if "\<not> back" using next_ok(3) facts(2) that by simp
qed

text \<open>The interpreter loop as an instance of the loop interfaces: safe for every accepted
  program, terminating for those without backward jumps.\<close>

interpretation filter_any: safe_loop
  "\<lambda>p. filter_step (fst p) (snd p)"
  "\<lambda>p s. (\<exists>back. program_ok back (fst p)) \<and> vm_ok (fst p) s"
proof unfold_locales
  fix p :: "bpf_insn list \<times> u8 list" and s
  assume inv: "(\<exists>back. program_ok back (fst p)) \<and> vm_ok (fst p) s"
  then obtain bk I where "program_ok bk (fst p)"
    and "encode I = insn_code (fst p ! unat (vm_pc s))"
    by (blast elim: current_instr)
  with inv show "\<exists>fl. filter_step (fst p) (snd p) s = Inr fl"
    by (blast intro: filter_step_decoded)
next
  fix p :: "bpf_insn list \<times> u8 list" and s s'
  assume "(\<exists>back. program_ok back (fst p)) \<and> vm_ok (fst p) s"
    and "filter_step (fst p) (snd p) s = Inr (Continue s')"
  then show "(\<exists>back. program_ok back (fst p)) \<and> vm_ok (fst p) s'"
    by (blast intro: filter_step_next(1))
qed

interpretation filter_forward: terminating_loop
  "\<lambda>p. filter_step (fst p) (snd p)"
  "\<lambda>p s. program_ok False (fst p) \<and> vm_ok (fst p) s"
  "\<lambda>p s. length (fst p) - unat (vm_pc s)"
proof unfold_locales
  fix p :: "bpf_insn list \<times> u8 list" and s
  assume "program_ok False (fst p) \<and> vm_ok (fst p) s"
  then show "\<exists>fl. filter_step (fst p) (snd p) s = Inr fl"
    by (blast intro: filter_any.body_ok)
next
  fix p :: "bpf_insn list \<times> u8 list" and s s'
  assume inv: "program_ok False (fst p) \<and> vm_ok (fst p) s"
    and next_state: "filter_step (fst p) (snd p) s = Inr (Continue s')"
  then show "program_ok False (fst p) \<and> vm_ok (fst p) s'"
    by (blast intro: filter_step_next(1))
  then show "length (fst p) - unat (vm_pc s') < length (fst p) - unat (vm_pc s)"
    using inv filter_step_next(2) [of False "fst p" s "snd p" s'] next_state
    by (auto simp: vm_ok_def)
qed

text \<open>What acceptance without flags means, and that it makes the interpreter return.\<close>

lemma accepted_iff: "validate insns = Inr prog \<longleftrightarrow> prog = \<lparr>prog_insns = insns\<rparr> \<and> program_ok False insns"
  using do_validate_ok_iff [of insns 0]
  by (auto simp: validate_def validate_with_flags_def res_simps VALIDATE_ALLOW_BACKWARD_JUMPS_def)

lemma program_returns:
  assumes "program_ok False insns"
  shows "\<exists>v. bpf_filter \<lparr>prog_insns = insns\<rparr> packet = Some (Inr v)"
proof -
  have "vm_ok insns vm_init" using assms by (simp add: vm_init_ok program_ok_def)
  with assms filter_forward.rloop_returns [of "(insns, packet)" vm_init] show ?thesis
    by (simp add: bpf_filter_def filter_slice_def)
qed

text \<open>
  A prefix of a program that is itself acceptable does what the program does: no jump of the prefix
  leaves it, so the instructions after it are never reached.
\<close>

lemma filter_step_prefix:
  assumes "vm_ok (take m insns) s"
  shows "filter_step insns packet s = filter_step (take m insns) packet s"
  using assms by (simp add: filter_step_def vm_ok_def get_unchecked_def)

lemma filter_prefix:
  assumes "program_ok False (take m insns)"
  shows "bpf_filter \<lparr>prog_insns = insns\<rparr> packet = bpf_filter \<lparr>prog_insns = take m insns\<rparr> packet"
proof -
  have "vm_ok (take m insns) vm_init" using assms by (auto intro: vm_init_ok simp: program_ok_def)
  then show ?thesis
    using assms filter_forward.rloop_agree [of "(take m insns, packet)" vm_init "filter_step insns packet"]
    by (simp add: bpf_filter_def filter_slice_def filter_step_prefix)
qed

section \<open>Properties of the BPF library\<close>

text \<open>
  C4. Safety and termination of validated programs: when \<open>BpfProgram::validate\<close> accepts a
  program, \<open>filter\<close> returns a value on every packet: no unchecked access is out of range, no
  unchecked addition overflows, the \<open>unreachable_unchecked\<close> arm is not reached and the loop ends.
\<close>

theorem validated_filter_returns:
  assumes "validate insns = Inr prog"
  shows "\<exists>v. bpf_filter prog packet = Some (Inr v)"
  using assms program_returns [of insns packet] by (simp add: accepted_iff)

text \<open>A small accepted program: return the accumulator when the packet starts with a zero byte,
  and 0 otherwise.\<close>

definition sample_program :: "bpf_insn list" where
  "sample_program =
     [bpf_stmt (BPF_LD OR BPF_B OR BPF_ABS) 0, bpf_jump (BPF_JMP OR BPF_JEQ OR BPF_K) 0 1 0,
      bpf_stmt (BPF_RET OR BPF_K) 0, bpf_stmt (BPF_LD OR BPF_W OR BPF_LEN) 0,
      bpf_stmt (BPF_RET OR BPF_A) 0]"

lemma sample_validates: "validate sample_program = Inr \<lparr>prog_insns = sample_program\<rparr>"
proof -
  have "do_validate sample_program 0 = Inr ()"
    by (simp add: do_validate_def sample_program_def bpf_stmt_def bpf_jump_def check_defs
        bpf_field_defs bpf_code_defs Let_def VALIDATE_ALLOW_BACKWARD_JUMPS_def
        word_le_nat_alt)
  then show ?thesis by (simp add: validate_def validate_with_flags_def)
qed

lemma sample_filter: "bpf_filter \<lparr>prog_insns = sample_program\<rparr> [0, 7, 8] = Some (Inr 3)"
  by (simp add: bpf_filter_def filter_slice_def vm_init_def sample_program_def rloop.simps
      filter_step_def unchecked_add_def exec_insn_def exec_defs bpf_code_defs Let_def bpf_stmt_def
      bpf_jump_def set_a_def set_pc_def do_jmp_def load_byte_def)

theorem validated_filter_returns_witness:
  "validate sample_program = Inr \<lparr>prog_insns = sample_program\<rparr> \<and>
   (\<exists>v. bpf_filter \<lparr>prog_insns = sample_program\<rparr> [0, 7, 8] = Some (Inr v))"
  using sample_validates validated_filter_returns [OF sample_validates, of "[0, 7, 8]"] by blast

text \<open>
  C20. Safety with backward jumps: whatever the flags, in every state the interpreter reaches on an
  accepted program the next pass of the loop is free of faults and the state is in range.
\<close>

theorem validated_states_safe:
  assumes "validate_with_flags insns flags = Inr prog"
    and "loop_reach (filter_step (prog_insns prog) packet) vm_init s"
  shows "vm_ok insns s \<and> (\<exists>fl. filter_step (prog_insns prog) packet s = Inr fl)"
proof -
  have prog: "prog_insns prog = insns" and ok: "\<exists>back. program_ok back insns"
    using assms(1) do_validate_ok_iff [of insns flags]
    by (auto simp: validate_with_flags_def res_simps)
  then have "vm_ok insns vm_init" by (auto simp: vm_init_ok program_ok_def)
  with ok prog assms(2) show ?thesis
    using filter_any.reach_inv [of "(insns, packet)" vm_init s]
      filter_any.reach_no_fault [of "(insns, packet)" vm_init s]
    by simp
qed

theorem validated_states_safe_witness:
  "vm_ok sample_program vm_init \<and>
   (\<exists>fl. filter_step sample_program [0, 7, 8] vm_init = Inr fl)"
proof -
  have "validate_with_flags sample_program 0 = Inr \<lparr>prog_insns = sample_program\<rparr>"
    using sample_validates by (simp add: validate_def)
  from validated_states_safe [OF this, of "[0, 7, 8]" vm_init] show ?thesis
    by (simp add: loop_start)
qed

text \<open>
  C9. The validator accepts exactly the programs of fewer than \<open>2^32\<close> instructions that end in a
  return, whose opcodes are all in the instruction set and whose operands satisfy the
  instruction's condition (scratch memory index, constant divisor, jump target).
\<close>

theorem validator_accepts_iff:
  "validate_with_flags insns flags = Inr prog \<longleftrightarrow>
     prog = \<lparr>prog_insns = insns\<rparr> \<and>
     program_ok (flags AND VALIDATE_ALLOW_BACKWARD_JUMPS \<noteq> 0) insns"
  using do_validate_ok_iff [of insns flags]
  by (auto simp: validate_with_flags_def res_simps)

text \<open>
  C8. Refinement: on a validated program, one pass of \<open>filter_slice\<close> is one step of the
  reference semantics of the instruction at \<open>pc\<close>.
\<close>

theorem filter_step_refines:
  assumes "validate_with_flags insns flags = Inr prog"
    and "loop_reach (filter_step insns packet) vm_init s"
  shows "\<exists>I. decode (insn_code (insns ! unat (vm_pc s))) = Some I \<and>
    filter_step insns packet s =
      Inr (instr_exec packet I (insns ! unat (vm_pc s)) (s\<lparr>vm_pc := vm_pc s + 1\<rparr>))"
proof -
  obtain bk where ok: "program_ok bk insns"
    using assms(1) do_validate_ok_iff [of insns flags]
    by (auto simp: validate_with_flags_def res_simps)
  then have "vm_ok insns vm_init" by (auto simp: vm_init_ok program_ok_def)
  with ok assms(2) have s: "vm_ok insns s"
    using filter_any.reach_inv [of "(insns, packet)" vm_init s] by auto
  obtain I where "encode I = insn_code (insns ! unat (vm_pc s))"
    by (rule current_instr [OF ok s])
  with filter_step_decoded [OF ok s] show ?thesis by (auto simp: decode_eq_Some_iff)
qed

theorem filter_step_refines_witness:
  "\<exists>I. decode (insn_code (sample_program ! 0)) = Some I \<and>
    filter_step sample_program [0, 7, 8] vm_init =
      Inr (instr_exec [0, 7, 8] I (sample_program ! 0) (vm_init\<lparr>vm_pc := 1\<rparr>))"
proof -
  have "validate_with_flags sample_program 0 = Inr \<lparr>prog_insns = sample_program\<rparr>"
    using sample_validates by (simp add: validate_def)
  from filter_step_refines [OF this, of "[0, 7, 8]" vm_init] show ?thesis
    by (simp add: loop_start vm_init_def)
qed

lemma ex_less_Suc_split: "(\<exists>m < Suc n. P m) \<longleftrightarrow> P 0 \<or> (\<exists>m < n. P (Suc m))"
  by (auto simp: less_Suc_eq_0_disj)

lemma check_from_error:
  "check_from flags n i insns = Inl e \<longleftrightarrow>
     (\<exists>m < length insns. check_insn flags n (i + word_of_nat m) (insns ! m) = Inl e \<and>
        (\<forall>l < m. check_insn flags n (i + word_of_nat l) (insns ! l) = Inr ()))"
proof (induction insns arbitrary: i)
  case Nil
  show ?case by simp
next
  case (Cons insn rest)
  have "check_from flags n i (insn # rest) = Inl e \<longleftrightarrow> check_insn flags n i insn = Inl e \<or>
      check_insn flags n i insn = Inr () \<and> check_from flags n (i + 1) rest = Inl e"
    by (auto simp: res_simps)
  also have "\<dots> \<longleftrightarrow> (\<exists>m < Suc (length rest).
      check_insn flags n (i + word_of_nat m) ((insn # rest) ! m) = Inl e \<and>
      (\<forall>l < m. check_insn flags n (i + word_of_nat l) ((insn # rest) ! l) = Inr ()))"
    by (simp only: Cons.IH ex_less_Suc_split all_less_Suc_split) (auto simp: ac_simps)
  finally show ?case by simp
qed

text \<open>
  C21. The error of a rejected program: it is too large, or the reported error is that of the first
  instruction that fails its check, or every instruction passes and the last is no return.
\<close>

theorem validator_error:
  "do_validate insns flags = Inl e \<longleftrightarrow>
     (let ok = (\<lambda>m. check_insn flags (word_of_nat (length insns)) (word_of_nat m) (insns ! m)) in
      if length insns \<ge> 2 ^ 32 then e = ProgramTooLarge
      else (\<exists>m < length insns. ok m = Inl e \<and> (\<forall>l < m. ok l = Inr ())) \<or>
        e = MissingReturn \<and> (\<forall>m < length insns. ok m = Inr ()) \<and>
        (insns = [] \<or> code_class (insn_code (last insns)) \<noteq> BPF_RET))"
proof (cases "length insns \<ge> 2 ^ 32")
  case True
  then show ?thesis by (auto simp: do_validate_def Let_def)
next
  case False
  let ?n = "word_of_nat (length insns) :: u32"
  have n: "unat (0 :: u32) + length insns = unat ?n"
    using False by (simp add: unat_of_nat take_bit_nat_eq_self_iff)
  show ?thesis
    using False check_from_ok_iff [OF n, of flags] check_from_error [of flags ?n 0 insns e]
    by (auto simp: do_validate_def Let_def res_simps)
qed

theorem validator_error_witness:
  "do_validate [bpf_stmt (BPF_LD OR BPF_MEM) 16, bpf_stmt 0xff 0] 0 = Inl BadMemoryAccess"
proof -
  let ?p = "[bpf_stmt (BPF_LD OR BPF_MEM) 16, bpf_stmt 0xff 0]"
  have "\<exists>m < length ?p.
      check_insn 0 (word_of_nat (length ?p)) (word_of_nat m) (?p ! m) = Inl BadMemoryAccess \<and>
      (\<forall>l < m. check_insn 0 (word_of_nat (length ?p)) (word_of_nat l) (?p ! l) = Inr ())"
    by (rule exI [of _ 0]) (simp add: bpf_stmt_def check_defs bpf_field_defs bpf_code_defs
        MEMWORDS_def Let_def)
  moreover have "\<not> 2 ^ 32 \<le> length ?p" by simp
  ultimately show ?thesis
    using validator_error [of ?p 0 BadMemoryAccess] by (simp only: Let_def if_False simp_thms)
qed

text \<open>
  Packet loads: \<open>load_word\<close> reads four bytes big-endian, and is defined exactly where all
  four are in the packet.
\<close>

theorem load_word_spec:
  "load_word packet addr =
     (if addr + 4 \<le> length packet
      then Inr (word_of_nat (be_value (take 4 (drop addr packet)))) else Inl Undefined)"
proof (cases "addr + 4 \<le> length packet")
  case True
  then show ?thesis by (simp add: load_word_be)
next
  case False
  then show ?thesis by (auto simp: load_word_def get_unchecked_def rbind_def)
qed

lemma instr_ok_back:
  assumes "instr_ok False n i I insn" and "n < 2 ^ 32"
  shows "instr_ok bk n i I insn"
  using assms by (cases I) auto

text \<open>
  Allowing backward jumps only accepts more: a program accepted without flags is accepted
  with any flags.
\<close>

theorem validate_flags_monotone:
  assumes "validate insns = Inr prog"
  shows "validate_with_flags insns flags = Inr prog"
proof -
  have "program_ok False insns" and prog: "prog = \<lparr>prog_insns = insns\<rparr>"
    using assms do_validate_ok_iff [of insns 0]
    by (auto simp: validate_def validate_with_flags_def res_simps VALIDATE_ALLOW_BACKWARD_JUMPS_def)
  then have "program_ok bk insns" for bk
    by (fastforce simp: program_ok_def intro: instr_ok_back)
  with prog do_validate_ok_iff [of insns flags] show ?thesis
    by (simp add: validate_with_flags_def)
qed

theorem validate_flags_monotone_witness:
  "validate_with_flags sample_program VALIDATE_ALLOW_BACKWARD_JUMPS =
     Inr \<lparr>prog_insns = sample_program\<rparr>"
  by (rule validate_flags_monotone [OF sample_validates])

definition spin_program :: "bpf_insn list" where
  "spin_program = [bpf_stmt (BPF_JMP OR BPF_JA) 0xffffffff, bpf_stmt (BPF_RET OR BPF_K) 0]"

lemma spin_step: "vm_pc s = 0 \<Longrightarrow> filter_step spin_program pkt s = Inr (Continue s)"
  by (simp add: filter_step_def spin_program_def unchecked_add_def exec_insn_def exec_defs
      bpf_code_defs Let_def bpf_stmt_def set_pc_def)

text \<open>
  With backward jumps allowed, an accepted program need not terminate: a jump to itself is
  accepted under the flag, rejected without it, and \<open>filter\<close> never returns on it.
\<close>

theorem backward_jump_may_spin:
  "validate_with_flags spin_program VALIDATE_ALLOW_BACKWARD_JUMPS =
      Inr \<lparr>prog_insns = spin_program\<rparr> \<and>
   validate spin_program = Inl BadJumpTarget \<and>
   bpf_filter \<lparr>prog_insns = spin_program\<rparr> packet = None"
proof (intro conjI)
  show "validate_with_flags spin_program VALIDATE_ALLOW_BACKWARD_JUMPS =
      Inr \<lparr>prog_insns = spin_program\<rparr>"
    and "validate spin_program = Inl BadJumpTarget"
    by (simp_all add: validate_def validate_with_flags_def do_validate_def spin_program_def
        bpf_stmt_def check_defs bpf_field_defs bpf_code_defs Let_def
        VALIDATE_ALLOW_BACKWARD_JUMPS_def word_le_nat_alt)
  have "rloop (filter_step spin_program packet) vm_init = None"
    by (rule rloop_never_returns [where P = "\<lambda>s. vm_pc s = 0"])
      (auto simp: vm_init_def intro: spin_step)
  then show "bpf_filter \<lparr>prog_insns = spin_program\<rparr> packet = None"
    by (simp add: bpf_filter_def filter_slice_def)
qed

end
