(* ===== verification/Cbpf_Clients.thy ===== *)
theory Cbpf_Clients
  imports Cbpf_Safety
begin

text \<open>
  What uses the validator and the interpreter: the conversions from the types of the \<open>pcap\<close> crate
  (\<open>src/cbpf-rs/src/lib.rs\<close>), the fuzz target of the interpreter
  (\<open>src/cbpf-rs/fuzz/fuzz_targets/filter.rs\<close>) and the unit tests that run a program compiled by
  \<open>pcap\<close>. A call of the interpreter may not return, so these have values in \<open>(_ res) option\<close>.
\<close>

section \<open>Conversions\<close>

text \<open>
  \<open>pcap::BpfInstruction\<close> has the C layout of \<open>BpfInsn\<close>; \<open>transmute\<close> is the reading of one as the other, which
  the conversions apply to a reference and to a slice. A \<open>pcap::BpfProgram\<close> is known by its instructions.
\<close>

definition borrow_insn :: "('p \<Rightarrow> bpf_insn) \<Rightarrow> 'p \<Rightarrow> bpf_insn" where
  "borrow_insn transmute self = transmute self"

definition program_from_pcap :: "('p \<Rightarrow> bpf_insn) \<Rightarrow> 'p list \<Rightarrow> bpf_program" where
  "program_from_pcap transmute get_instructions = new_unvalidated (map transmute get_instructions)"

text \<open>
  \<open>validate\<close> takes instructions of any type that can be borrowed as \<open>BpfInsn\<close>; a program of \<open>pcap\<close> that
  it accepts is the one the unchecked conversion gives.
\<close>

lemma conversion_agrees:
  assumes "validate (map (borrow_insn transmute) insns) = Inr prog"
  shows "program_from_pcap transmute insns = prog"
  using assms by (auto simp: accepted_iff program_from_pcap_def new_unvalidated_def borrow_insn_def)

section \<open>The fuzz target\<close>

record fuzz_in =
  fuzz_insn :: "bpf_insn list"
  fuzz_pkt :: "u8 list"

definition fuzz_filter :: "fuzz_in \<Rightarrow> (unit res) option" where
  "fuzz_filter inp =
     (case validate (fuzz_insn inp) of
        Inr prog \<Rightarrow> map_option (map_sum id (\<lambda>_. ())) (bpf_filter prog (fuzz_pkt inp))
      | Inl _ \<Rightarrow> Some (Inr ()))"

text \<open>
  The fuzz target finds nothing: on every sequence of instructions and every packet, whether the
  sequence is accepted or not, the target returns without a fault.
\<close>

theorem fuzz_filter_never_crashes: "fuzz_filter inp = Some (Inr ())"
proof (cases "validate (fuzz_insn inp)")
  case (Inr prog)
  then have "program_ok False (fuzz_insn inp)" and prog: "prog = \<lparr>prog_insns = fuzz_insn inp\<rparr>"
    by (simp_all add: accepted_iff)
  then obtain v where "bpf_filter prog (fuzz_pkt inp) = Some (Inr v)"
    using program_returns by blast
  then show ?thesis using Inr by (simp add: fuzz_filter_def)
qed (simp add: fuzz_filter_def)

section \<open>Unit tests with a compiled program\<close>

text \<open>
  \<open>capture.compile(_, true)\<close> of an Ethernet capture is a parameter, from filter expressions to
  instructions of \<open>pcap\<close> or an error.
\<close>

definition filter_of :: "bpf_program \<Rightarrow> u8 list \<Rightarrow> (u32 \<Rightarrow> unit res) \<Rightarrow> (unit res) option" where
  "filter_of prog packet test = map_option (\<lambda>r. rbind r test) (bpf_filter prog packet)"

definition cbpf_basic_test :: "('p \<Rightarrow> bpf_insn) \<Rightarrow> (string \<Rightarrow> 'e + 'p list) \<Rightarrow> (unit res) option" where
  "cbpf_basic_test transmute compile =
     (case compile ''ip src 1.2.3.4'' of
        Inl e \<Rightarrow> Some (Inl Panic_unwrap)
      | Inr compiled \<Rightarrow>
        let prog = program_from_pcap transmute compiled;
            packet = [0, 0, 0, 0, 0, 0, 0, 0, 0, 0, 0, 0, 0x08, 0x00, 0, 0, 0, 0, 0, 0,
                      0, 0, 0, 0, 0, 0, 1, 2, 3, 4];
            packet' = take 26 packet @ [5, 6, 7, 8] @ drop 30 packet in
        case filter_of prog packet (\<lambda>v. rassert Panic_assert (v \<ge> 1500)) of
          Some (Inr _) \<Rightarrow> filter_of prog packet' (\<lambda>v. rassert Panic_assert (v = 0))
        | r \<Rightarrow> r)"

definition borrow_test :: "('p \<Rightarrow> bpf_insn) \<Rightarrow> (string \<Rightarrow> 'e + 'p list) \<Rightarrow> unit res" where
  "borrow_test transmute compile =
     (case compile ''ip src 1.2.3.4'' of
        Inl e \<Rightarrow> Inl Panic_unwrap
      | Inr prog \<Rightarrow>
        if prog = [] then Inl Panic_index
        else rassert Panic_assert (borrow_insn transmute (prog ! 0) = bpf_stmt (BPF_LD OR BPF_H OR BPF_ABS) 12))"

text \<open>A test that returns an error is a failure of the test.\<close>

definition validate_test :: "('p \<Rightarrow> bpf_insn) \<Rightarrow> (string \<Rightarrow> 'e + 'p list) \<Rightarrow> unit res" where
  "validate_test transmute compile =
     (case compile ''ip src 1.2.3.4'' of
        Inl e \<Rightarrow> Inl Panic_unwrap
      | Inr prog \<Rightarrow>
        (case validate (map (borrow_insn transmute) prog) of Inl err \<Rightarrow> Inl Panic_unwrap | Inr _ \<Rightarrow> Inr ()))"

text \<open>
  What \<open>libpcap\<close> documents of this expression on Ethernet (the output of \<open>tcpdump -d\<close>): load the type,
  compare with IPv4, load the source address, compare, and return the snapshot length or 0.
\<close>

definition ip_src_filter :: "u32 \<Rightarrow> bpf_insn list" where
  "ip_src_filter snaplen =
     [bpf_stmt (BPF_LD OR BPF_H OR BPF_ABS) 12, bpf_jump (BPF_JMP OR BPF_JEQ OR BPF_K) 0x800 0 3,
      bpf_stmt (BPF_LD OR BPF_W OR BPF_ABS) 26, bpf_jump (BPF_JMP OR BPF_JEQ OR BPF_K) 0x01020304 0 1,
      bpf_stmt (BPF_RET OR BPF_K) snaplen, bpf_stmt (BPF_RET OR BPF_K) 0]"

definition compile_laws :: "('p \<Rightarrow> bpf_insn) \<Rightarrow> (string \<Rightarrow> 'e + 'p list) \<Rightarrow> u32 \<Rightarrow> bool" where
  "compile_laws transmute compile snaplen \<longleftrightarrow>
     (\<exists>prog. compile ''ip src 1.2.3.4'' = Inr prog \<and> map transmute prog = ip_src_filter snaplen)"

lemma ip_src_validates: "validate (ip_src_filter snaplen) = Inr \<lparr>prog_insns = ip_src_filter snaplen\<rparr>"
proof -
  have "do_validate (ip_src_filter snaplen) 0 = Inr ()"
    by (simp add: do_validate_def ip_src_filter_def bpf_stmt_def bpf_jump_def check_defs
        bpf_field_defs bpf_code_defs Let_def VALIDATE_ALLOW_BACKWARD_JUMPS_def word_le_nat_alt)
  then show ?thesis by (simp add: validate_def validate_with_flags_def)
qed

text \<open>What this program computes, on every packet.\<close>

lemma ip_src_filter_value:
  "bpf_filter \<lparr>prog_insns = ip_src_filter snaplen\<rparr> packet = Some (Inr
     (if be_load packet 12 2 = Some 0x800 \<and> be_load packet 26 4 = Some 0x01020304 then snaplen else 0))"
proof -
  note run = bpf_filter_def filter_slice_def vm_init_def ip_src_filter_def filter_step_def unchecked_add_def
    exec_insn_def exec_defs bpf_code_defs Let_def bpf_stmt_def bpf_jump_def set_a_def set_pc_def do_jmp_def
  consider "length packet < 14" | "14 \<le> length packet" "length packet < 30" | "30 \<le> length packet" by linarith
  then show ?thesis
  proof cases
    case 1
    then have "12 < length packet \<longrightarrow> length packet - 12 < 2" by linarith
    with 1 show ?thesis by (subst run(1), subst run(2), subst rloop.simps) (auto simp: run be_load_def)
  next
    case 2
    then show ?thesis
      by (auto simp: run be_load_def rloop.simps load_halfword_be)
  next
    case 3
    then show ?thesis
      by (auto simp: run be_load_def rloop.simps load_halfword_be load_word_be)
  qed
qed

text \<open>The tests pass when \<open>pcap\<close> compiles as documented, with any snapshot length the test allows for.\<close>

theorem pcap_tests_pass:
  assumes "compile_laws transmute compile snaplen" and "1500 \<le> snaplen"
  shows "cbpf_basic_test transmute compile = Some (Inr ()) \<and> borrow_test transmute compile = Inr () \<and>
    validate_test transmute compile = Inr ()"
proof -
  obtain prog where prog: "compile ''ip src 1.2.3.4'' = Inr prog" "map transmute prog = ip_src_filter snaplen"
    using assms(1) by (auto simp: compile_laws_def)
  have "prog \<noteq> []" "transmute (prog ! 0) = bpf_stmt (BPF_LD OR BPF_H OR BPF_ABS) 12"
    using prog(2) by (cases prog; simp add: ip_src_filter_def)+
  moreover have "map (borrow_insn transmute) prog = ip_src_filter snaplen"
    using prog(2) by (simp add: borrow_insn_def [abs_def])
  ultimately show ?thesis
    using prog(1) assms(2) ip_src_validates [of snaplen]
    by (simp add: cbpf_basic_test_def borrow_test_def validate_test_def program_from_pcap_def new_unvalidated_def
        borrow_insn_def prog(2) filter_of_def ip_src_filter_value be_load_def be_value_def Let_def)
qed

theorem pcap_tests_pass_witness:
  "cbpf_basic_test id (\<lambda>e. if e = ''ip src 1.2.3.4'' then Inr (ip_src_filter 65535) else Inl ()) = Some (Inr ())"
  using pcap_tests_pass [of id "\<lambda>e. if e = ''ip src 1.2.3.4'' then Inr (ip_src_filter 65535) else Inl ()" 65535]
  by (simp add: compile_laws_def)

end
