(* ===== verification/Bitmap.thy ===== *)
theory Bitmap
  imports Zpr_Prelude
begin

text \<open>
  The presence bitmap of the slab (\<open>CslabBitmap\<close> in \<open>src/cslab/src/lib.rs\<close>): 64 flags per
  word. The word-level tests and updates the code writes are related to a view of the bitmap as
  one flag per index; the scans of a word (\<open>trailing_zeros\<close>, \<open>leading_zeros\<close>) are related to
  the next and the previous flag that is set.
\<close>

section \<open>Flags\<close>

type_synonym bitmap = "usize list"

definition flag_at :: "bitmap \<Rightarrow> nat \<Rightarrow> bool" where
  "flag_at bm i \<longleftrightarrow> i div usize_bits < length bm \<and> bit (bm ! (i div usize_bits)) (i mod usize_bits)"

text \<open>\<open>(mask >> (idx % BITS)) & 1\<close>, and the words stored to set and to clear a flag.\<close>

definition flag_of :: "usize \<Rightarrow> nat \<Rightarrow> usize" where
  "flag_of w i = drop_bit (i mod usize_bits) w AND 1"

definition set_flag :: "usize \<Rightarrow> nat \<Rightarrow> usize" where
  "set_flag w i = w OR push_bit (i mod usize_bits) 1"

definition clear_flag :: "usize \<Rightarrow> nat \<Rightarrow> usize" where
  "clear_flag w i = w AND NOT (push_bit (i mod usize_bits) 1)"

lemma flag_of_eq: "flag_of w i = of_bool (bit w (i mod 64))"
  by (simp add: flag_of_def and_one_eq mod_2_eq_odd bit_iff_odd_drop_bit)

lemma flag_of_zero_iff [simp]: "flag_of w i = 0 \<longleftrightarrow> \<not> bit w (i mod 64)"
  and flag_of_one_iff [simp]: "flag_of w i = 1 \<longleftrightarrow> bit w (i mod 64)"
  by (simp_all add: flag_of_eq)

lemma bit_set_flag: "j < 64 \<Longrightarrow> bit (set_flag w i) j \<longleftrightarrow> j = i mod 64 \<or> bit w j"
  by (auto simp: set_flag_def bit_simps)

lemma bit_clear_flag: "j < 64 \<Longrightarrow> bit (clear_flag w i) j \<longleftrightarrow> j \<noteq> i mod 64 \<and> bit w j"
  by (auto simp: clear_flag_def bit_simps)

lemma div_mod_64_eq: "(i :: nat) div 64 = j div 64 \<Longrightarrow> i mod 64 = j mod 64 \<Longrightarrow> i = j"
  by (metis div_mult_mod_eq)

lemma flag_at_set:
  assumes "i div 64 < length bm"
  shows "flag_at (bm[i div 64 := set_flag (bm ! (i div 64)) i]) j \<longleftrightarrow> j = i \<or> flag_at bm j"
proof (cases "j div 64 = i div 64")
  case True
  with assms div_mod_64_eq [of j i] show ?thesis
    by (auto simp: flag_at_def bit_set_flag)
qed (use assms in \<open>auto simp: flag_at_def\<close>)

lemma flag_at_clear:
  assumes "i div 64 < length bm"
  shows "flag_at (bm[i div 64 := clear_flag (bm ! (i div 64)) i]) j \<longleftrightarrow> j \<noteq> i \<and> flag_at bm j"
proof (cases "j div 64 = i div 64")
  case True
  with assms div_mod_64_eq [of j i] show ?thesis
    by (auto simp: flag_at_def bit_clear_flag)
qed (use assms in \<open>auto simp: flag_at_def\<close>)

lemma flag_at_word: "i div 64 < length bm \<Longrightarrow> flag_at bm i \<longleftrightarrow> bit (bm ! (i div 64)) (i mod 64)"
  by (simp add: flag_at_def)

lemma flag_at_zeroed [simp]: "\<not> flag_at (replicate n 0) i"
  by (simp add: flag_at_def)

text \<open>Number of words for \<open>n\<close> flags.\<close>


lemma word_index_bound: "i < n \<Longrightarrow> i div 64 < (n + 63) div (64 :: nat)"
proof -
  assume "i < n"
  then have "n + 63 = (n - 1) + 64" and "i \<le> n - 1" by simp_all
  then show ?thesis using div_le_mono [of i "n - 1" 64] by simp
qed

section \<open>Scanning a word\<close>

text \<open>\<open>trailing_zeros\<close> and \<open>leading_zeros\<close> of a 64-bit word.\<close>

definition trailing_zeros :: "usize \<Rightarrow> nat" where
  "trailing_zeros w = length (takeWhile (\<lambda>i. \<not> bit w i) [0..<64])"

definition leading_zeros :: "usize \<Rightarrow> nat" where
  "leading_zeros w = length (takeWhile (\<lambda>i. \<not> bit w (63 - i)) [0..<64])"

lemma takeWhile_upt_spec:
  assumes "length (takeWhile (\<lambda>i. \<not> P i) [0..<n]) = d"
  shows "\<forall>i < d. \<not> P i" and "d \<le> n" and "d < n \<Longrightarrow> P d"
proof -
  show "d \<le> n" using assms length_takeWhile_le [of "\<lambda>i. \<not> P i" "[0..<n]"] by simp
  then show "\<forall>i < d. \<not> P i"
    using assms set_takeWhileD nth_mem takeWhile_nth
    by (metis (mono_tags, lifting) add_0 length_upt minus_nat.diff_0 nth_upt order_less_le_trans)
  show "P d" if "d < n"
    using nth_length_takeWhile [of "\<lambda>i. \<not> P i" "[0..<n]"] assms that by simp
qed

lemma bit_beyond_word: "\<not> bit (w :: usize) (64 + i)"
  by (auto dest: bit_imp_le_length)

lemma nonzero_has_bit:
  assumes "(w :: usize) \<noteq> 0"
  shows "\<exists>i < 64. bit w i"
proof (rule ccontr)
  assume "\<not> (\<exists>i < 64. bit w i)"
  then have "w = 0" by (intro bit_word_eqI) auto
  with assms show False by simp
qed

lemma trailing_zeros_spec:
  assumes "w \<noteq> 0"
  shows "trailing_zeros w < 64" and "bit w (trailing_zeros w)"
    and "i < trailing_zeros w \<Longrightarrow> \<not> bit w i"
proof -
  note spec = takeWhile_upt_spec [where P = "bit w" and n = 64, OF trailing_zeros_def [symmetric]]
  show "trailing_zeros w < 64"
    using nonzero_has_bit [OF assms] spec(1,2) by (metis le_neq_implies_less)
  with spec(3) show "bit w (trailing_zeros w)" by simp
  show "i < trailing_zeros w \<Longrightarrow> \<not> bit w i" using spec(1) by simp
qed

lemma leading_zeros_spec:
  assumes "w \<noteq> 0"
  shows "leading_zeros w < 64" and "bit w (63 - leading_zeros w)"
    and "i < leading_zeros w \<Longrightarrow> \<not> bit w (63 - i)"
proof -
  note spec = takeWhile_upt_spec [where P = "\<lambda>i. bit w (63 - i)" and n = 64,
      OF leading_zeros_def [symmetric]]
  obtain j where j: "j < 64" "bit w j" using nonzero_has_bit [OF assms] by blast
  have "bit w (63 - (63 - j))" using j by simp
  moreover have "63 - j < 64" by simp
  ultimately show "leading_zeros w < 64"
    using spec(1,2) by (metis le_neq_implies_less)
  with spec(3) show "bit w (63 - leading_zeros w)" by simp
  show "i < leading_zeros w \<Longrightarrow> \<not> bit w (63 - i)" using spec(1) by simp
qed

end
