(* ===== verification/Cslab.thy ===== *)
theory Cslab
  imports Bitmap
begin

text \<open>
  The concurrent slab \<open>Cslab\<close> of \<open>src/cslab/src/lib.rs\<close>: the storage (table of entries
  and presence bitmap in one allocation), lookups, the writer's operations, the reader handle and
  the iterators. One operation is one definition; a panic and a misuse of an \<open>unsafe\<close> operation
  are faults. Atomic orderings are not part of these definitions: each operation is the sequence of
  its loads and stores in program order.
\<close>

section \<open>Allocation layout\<close>

text \<open>
  \<open>std::alloc::Layout\<close>: size and alignment of a block. \<open>Layout::array\<close> fails when the
  array, rounded up to its alignment, does not fit in \<open>isize::MAX\<close> bytes; \<open>extend\<close> places
  a second block behind the first at its alignment.
\<close>

record layout =
  lay_size :: nat
  lay_align :: nat

definition isize_max :: nat where
  "isize_max = 2 ^ 63 - 1"

definition max_size_for_align :: "nat \<Rightarrow> nat" where
  "max_size_for_align al = isize_max + 1 - al"

definition layout_array :: "layout \<Rightarrow> nat \<Rightarrow> layout option" where
  "layout_array el n =
     (if lay_size el * n \<le> max_size_for_align (lay_align el)
      then Some \<lparr>lay_size = lay_size el * n, lay_align = lay_align el\<rparr> else None)"

definition round_up :: "nat \<Rightarrow> nat \<Rightarrow> nat" where
  "round_up sz al = (sz + al - 1) div al * al"

definition layout_extend :: "layout \<Rightarrow> layout \<Rightarrow> (layout \<times> nat) option" where
  "layout_extend a b =
     (let al = max (lay_align a) (lay_align b); off = round_up (lay_size a) (lay_align b);
          sz = off + lay_size b
      in if sz \<le> max_size_for_align al then Some (\<lparr>lay_size = sz, lay_align = al\<rparr>, off) else None)"

text \<open>\<open>Entry<T>\<close> is a union with an \<open>isize\<close>; its layout \<open>ent\<close> depends on \<open>T\<close>.\<close>

definition table_layout :: "layout \<Rightarrow> usize \<Rightarrow> layout res" where
  "table_layout ent n = unwrap (layout_array ent (unat n))"

definition bitmap_words :: "usize \<Rightarrow> usize res" where
  "bitmap_words n =
     rbind (uadd n 64) (\<lambda>m. rbind (usub m 1) (\<lambda>m'. Inr (m' div 64)))"

definition bitmap_layout :: "usize \<Rightarrow> layout res" where
  "bitmap_layout n =
     rbind (bitmap_words n) (\<lambda>w. unwrap (layout_array \<lparr>lay_size = 8, lay_align = 8\<rparr> (unat w)))"

definition storage_layout :: "layout \<Rightarrow> usize \<Rightarrow> (layout \<times> nat) res" where
  "storage_layout ent n =
     rbind (table_layout ent n) (\<lambda>t. rbind (bitmap_layout n) (\<lambda>b. unwrap (layout_extend t b)))"

section \<open>Storage\<close>

text \<open>
  An entry is the union of the offset to the next free entry and an item; reading the member that
  was not written last is undefined behaviour. The two slices \<open>table()\<close> and \<open>bitmap()\<close> of the
  one allocation are two lists.
\<close>

datatype 'a entry = Next_free isize | Item 'a

record 'a cslab_storage =
  st_size :: usize
  st_frontier :: usize
  st_table :: "'a entry list"
  st_bitmap :: bitmap

text \<open>The allocation is zeroed: every entry is free with its neighbour next, no flag is set.\<close>

definition storage_with_fixed_capacity :: "layout \<Rightarrow> usize \<Rightarrow> 'a cslab_storage res" where
  "storage_with_fixed_capacity ent n =
     rbind (rassert Panic_assert (0 < n)) (\<lambda>_.
     rbind (storage_layout ent n) (\<lambda>_.
     rbind (bitmap_words n) (\<lambda>w.
     Inr \<lparr>st_size = n, st_frontier = 0, st_table = replicate (unat n) (Next_free 0),
          st_bitmap = replicate (unat w) 0\<rparr>)))"

definition storage_len :: "'a cslab_storage \<Rightarrow> usize" where
  "storage_len st = st_size st"

definition load_flags :: "'a cslab_storage \<Rightarrow> usize \<Rightarrow> usize res" where
  "load_flags st idx = index (st_bitmap st) (unat (idx div 64))"

definition store_flags :: "'a cslab_storage \<Rightarrow> usize \<Rightarrow> usize \<Rightarrow> 'a cslab_storage res" where
  "store_flags st idx w =
     rbind (rassert Panic_index (unat (idx div 64) < length (st_bitmap st))) (\<lambda>_.
     Inr (st\<lparr>st_bitmap := (st_bitmap st)[unat (idx div 64) := w]\<rparr>))"

definition contains_key_impl :: "'a cslab_storage \<Rightarrow> usize \<Rightarrow> bool res" where
  "contains_key_impl st idx =
     (if idx \<ge> storage_len st then Inr False
      else rbind (load_flags st idx) (\<lambda>w. Inr (flag_of w (unat idx) \<noteq> 0)))"

definition entry_item :: "'a entry \<Rightarrow> 'a res" where
  "entry_item e = (case e of Item v \<Rightarrow> Inr v | Next_free _ \<Rightarrow> Inl Undefined)"

definition entry_next_free :: "'a entry \<Rightarrow> isize res" where
  "entry_next_free e = (case e of Next_free d \<Rightarrow> Inr d | Item _ \<Rightarrow> Inl Undefined)"

definition get_unchecked_impl :: "'a cslab_storage \<Rightarrow> usize \<Rightarrow> 'a res" where
  "get_unchecked_impl st idx = rbind (index (st_table st) (unat idx)) entry_item"

definition get_impl :: "'a cslab_storage \<Rightarrow> usize \<Rightarrow> ('a option) res" where
  "get_impl st idx =
     rbind (contains_key_impl st idx) (\<lambda>b.
     if b then rbind (get_unchecked_impl st idx) (\<lambda>v. Inr (Some v)) else Inr None)"

section \<open>The writer\<close>

record 'a cslab =
  first_free :: usize
  in_use :: usize
  allocated :: usize
  storage :: "'a cslab_storage"

definition cslab_with_fixed_capacity :: "layout \<Rightarrow> usize \<Rightarrow> 'a cslab res" where
  "cslab_with_fixed_capacity ent capacity =
     rbind (storage_with_fixed_capacity ent capacity) (\<lambda>st.
     Inr \<lparr>first_free = 0, in_use = 0, allocated = 0, storage = st\<rparr>)"

definition cslab_capacity :: "'a cslab \<Rightarrow> usize" where
  "cslab_capacity s = storage_len (storage s)"

definition cslab_len :: "'a cslab \<Rightarrow> usize" where
  "cslab_len s = in_use s"

definition cslab_allocated :: "'a cslab \<Rightarrow> usize" where
  "cslab_allocated s = allocated s"

definition cslab_get :: "'a cslab \<Rightarrow> usize \<Rightarrow> ('a option) res" where
  "cslab_get s idx = get_impl (storage s) idx"

text \<open>\<open>insert\<close>, with the stores \<open>[Ii]\<close>, \<open>[Im]\<close> and \<open>[Ib]\<close> in their order.
  \<open>Inl ()\<close> in the second component is \<open>Err(())\<close>.\<close>

definition raise_frontier :: "'a cslab_storage \<Rightarrow> usize \<Rightarrow> 'a cslab_storage res" where
  "raise_frontier st idx =
     (if idx \<ge> st_frontier st then rbind (uadd idx 1) (\<lambda>f. Inr (st\<lparr>st_frontier := f\<rparr>))
      else Inr st)"

definition cslab_insert :: "'a cslab \<Rightarrow> 'a \<Rightarrow> ('a cslab \<times> (unit + usize)) res" where
  "cslab_insert s item =
     (let idx = first_free s; st = storage s in
      if unat idx \<ge> length (st_table st) then Inr (s, Inl ())
      else
        rbind (sadd idx 1) (\<lambda>i1.
        rbind (rbind (index (st_table st) (unat idx)) entry_next_free) (\<lambda>d.
        rbind (sadd i1 d) (\<lambda>next.
        rbind (raise_frontier (st\<lparr>st_table := (st_table st)[unat idx := Item item]\<rparr>) idx) (\<lambda>st2.
        rbind (load_flags st2 idx) (\<lambda>w.
        rbind (rassert Panic_assert (flag_of w (unat idx) = 0)) (\<lambda>_.
        rbind (store_flags st2 idx (set_flag w (unat idx))) (\<lambda>st3.
        rbind (uadd (in_use s) 1) (\<lambda>u.
        rbind (uadd (allocated s) 1) (\<lambda>a.
        Inr (\<lparr>first_free = next, in_use = u, allocated = a, storage = st3\<rparr>, Inr idx)))))))))))"

definition cslab_vacant_key :: "'a cslab \<Rightarrow> unit + usize" where
  "cslab_vacant_key s =
     (if unat (first_free s) \<ge> length (st_table (storage s)) then Inl () else Inr (first_free s))"

text \<open>A \<open>VacantEntry\<close> is the slab itself, borrowed; its \<open>insert\<close> unwraps.\<close>

definition cslab_vacant_entry :: "'a cslab \<Rightarrow> unit + 'a cslab" where
  "cslab_vacant_entry s =
     (if unat (first_free s) \<ge> length (st_table (storage s)) then Inl () else Inr s)"

definition vacant_entry_key :: "'a cslab \<Rightarrow> usize" where
  "vacant_entry_key s = first_free s"

definition vacant_entry_insert :: "'a cslab \<Rightarrow> 'a \<Rightarrow> ('a cslab \<times> usize) res" where
  "vacant_entry_insert s item =
     rbind (cslab_insert s item) (\<lambda>(s', r).
     case r of Inl _ \<Rightarrow> Inl Panic_unwrap | Inr idx \<Rightarrow> Inr (s', idx))"

definition cslab_mark_removed :: "'a cslab \<Rightarrow> usize \<Rightarrow> 'a cslab res" where
  "cslab_mark_removed s idx =
     rbind (load_flags (storage s) idx) (\<lambda>w.
     rbind (rassert Panic_assert (flag_of w (unat idx) = 1)) (\<lambda>_.
     rbind (store_flags (storage s) idx (clear_flag w (unat idx))) (\<lambda>st.
     rbind (usub (in_use s) 1) (\<lambda>u.
     Inr (s\<lparr>storage := st, in_use := u\<rparr>)))))"

definition cslab_finalize_remove :: "'a cslab \<Rightarrow> usize \<Rightarrow> ('a cslab \<times> 'a) res" where
  "cslab_finalize_remove s idx =
     (let st = storage s in
      rbind (load_flags st idx) (\<lambda>w.
      rbind (rassert Panic_assert (flag_of w (unat idx) = 0)) (\<lambda>_.
      rbind (index (st_table st) (unat idx)) (\<lambda>entry.
      rbind (entry_item entry) (\<lambda>item.
      rbind (ssub (first_free s) idx) (\<lambda>d1.
      rbind (ssub d1 1) (\<lambda>d.
      rbind (usub (allocated s) 1) (\<lambda>a.
      Inr (s\<lparr>first_free := idx, allocated := a,
             storage := st\<lparr>st_table := (st_table st)[unat idx := Next_free d]\<rparr>\<rparr>, item)))))))))"

text \<open>The reader handle shares the storage.\<close>

definition cslab_reader :: "'a cslab \<Rightarrow> 'a cslab_storage" where
  "cslab_reader s = storage s"

definition reader_get :: "'a cslab_storage \<Rightarrow> usize \<Rightarrow> ('a option) res" where
  "reader_get r idx = get_impl r idx"

definition reader_contains_key :: "'a cslab_storage \<Rightarrow> usize \<Rightarrow> bool res" where
  "reader_contains_key r idx = contains_key_impl r idx"

definition reader_get_unchecked :: "'a cslab_storage \<Rightarrow> usize \<Rightarrow> 'a res" where
  "reader_get_unchecked r idx = get_unchecked_impl r idx"

end
