(* ===== verification/Cslab_Inv.thy ===== *)
theory Cslab_Inv
  imports Cslab
begin

text \<open>
  The representation invariant of \<open>Cslab\<close>, what it makes of the operations, and the slab
  interface (\<open>slab\<close>) that the model implements: the invariant is kept by every operation, the
  free list is a duplicate-free chain through exactly the free entries, the two counters count,
  and the operations are updates of two abstract maps, the items present and the items allocated.
\<close>

section \<open>The free list\<close>

text \<open>The chain of free entries from index \<open>p\<close>; it ends at the capacity.\<close>

fun free_chain :: "'a entry list \<Rightarrow> nat \<Rightarrow> nat list \<Rightarrow> bool" where
  "free_chain tb p [] \<longleftrightarrow> p = length tb"
| "free_chain tb p (q # qs) \<longleftrightarrow> p = q \<and> q < length tb \<and>
     (case tb ! q of Next_free d \<Rightarrow> free_chain tb (unat (word_of_nat q + 1 + d)) qs | Item _ \<Rightarrow> False)"

fun is_item :: "'a entry \<Rightarrow> bool" where
  "is_item (Item v) = True" | "is_item (Next_free d) = False"

lemma free_chain_bound: "free_chain tb p fl \<Longrightarrow> p \<le> length tb"
  by (cases fl) auto

lemma free_chain_update [simp]:
  assumes "q \<notin> set fl"
  shows "free_chain (tb[q := e]) p fl \<longleftrightarrow> free_chain tb p fl"
  using assms by (induction fl arbitrary: p) (auto split: entry.splits)

lemma free_chain_zeroed:
  assumes "n < 2 ^ 64" and "p \<le> n"
  shows "free_chain (replicate n (Next_free 0)) p [p..<n]"
  using assms(2)
proof (induction p rule: inc_induct)
  case base
  show ?case by simp
next
  case (step p)
  have "word_of_nat p + 1 = (word_of_nat (Suc p) :: usize)" by simp
  with step.hyps assms(1) have "unat (word_of_nat p + 1 :: usize) = Suc p"
    by (simp only: unat_of_nat_small) (rule unat_of_nat_small, simp)
  with step show ?case by (simp add: upt_conv_Cons)
qed

text \<open>Offsets between indexes of a table of admissible size are exact.\<close>

definition max_capacity :: nat where
  "max_capacity = 2 ^ 60"

section \<open>The invariant\<close>

text \<open>The item in slot \<open>i\<close>, present or marked for removal, and the item visible at \<open>i\<close>.\<close>

definition slot_at :: "'a cslab_storage \<Rightarrow> nat \<Rightarrow> 'a option" where
  "slot_at st i =
     (if i < length (st_table st)
      then (case st_table st ! i of Item v \<Rightarrow> Some v | Next_free _ \<Rightarrow> None) else None)"

definition visible_at :: "'a cslab_storage \<Rightarrow> nat \<Rightarrow> 'a option" where
  "visible_at st i = (if flag_at (st_bitmap st) i then slot_at st i else None)"

definition storage_wf :: "'a cslab_storage \<Rightarrow> bool" where
  "storage_wf st \<longleftrightarrow>
     0 < unat (st_size st) \<and> unat (st_size st) < max_capacity \<and>
     length (st_table st) = unat (st_size st) \<and>
     length (st_bitmap st) = (unat (st_size st) + 63) div 64 \<and>
     unat (st_frontier st) \<le> unat (st_size st) \<and>
     (\<forall>i. flag_at (st_bitmap st) i \<longrightarrow> i < unat (st_frontier st) \<and> slot_at st i \<noteq> None)"

definition free_slots :: "'a cslab_storage \<Rightarrow> nat set" where
  "free_slots st = {i. i < length (st_table st) \<and> slot_at st i = None}"

definition cslab_wf :: "'a cslab \<Rightarrow> bool" where
  "cslab_wf s \<longleftrightarrow>
     storage_wf (storage s) \<and>
     (\<exists>fl. free_chain (st_table (storage s)) (unat (first_free s)) fl \<and> distinct fl \<and>
        set fl = free_slots (storage s) \<and>
        unat (allocated s) + length fl = unat (st_size (storage s))) \<and>
     unat (in_use s) = card {i. flag_at (st_bitmap (storage s)) i}"

named_theorems slab_defs \<open>definitions of the slab operations\<close>

declare cslab_get_def [slab_defs] get_impl_def [slab_defs] contains_key_impl_def [slab_defs]
  get_unchecked_impl_def [slab_defs] load_flags_def [slab_defs] store_flags_def [slab_defs]
  storage_len_def [slab_defs] reader_get_def [slab_defs] reader_contains_key_def [slab_defs]
  reader_get_unchecked_def [slab_defs]

lemma slot_at_Some_iff:
  "slot_at st i = Some v \<longleftrightarrow> i < length (st_table st) \<and> st_table st ! i = Item v"
  by (auto simp: slot_at_def split: entry.splits)

lemma slot_at_None_iff:
  "slot_at st i = None \<longleftrightarrow> length (st_table st) \<le> i \<or> (\<exists>d. st_table st ! i = Next_free d)"
  by (auto simp: slot_at_def split: entry.splits)

lemma storage_wf_dests:
  assumes "storage_wf st"
  shows "unat (st_size st) < 2 ^ 60" and "length (st_table st) = unat (st_size st)"
    and "length (st_bitmap st) = (unat (st_size st) + 63) div 64"
    and "unat (st_frontier st) \<le> unat (st_size st)"
    and "flag_at (st_bitmap st) i \<Longrightarrow> i < unat (st_frontier st)"
    and "flag_at (st_bitmap st) i \<Longrightarrow> slot_at st i \<noteq> None"
    and "flag_at (st_bitmap st) i \<Longrightarrow> i < unat (st_size st)"
  using assms unfolding storage_wf_def max_capacity_def by fastforce+

lemma unat_div_64: "unat ((idx :: usize) div 64) = unat idx div 64"
  by (simp add: unat_div)

lemma load_flags_ok:
  assumes "storage_wf st" and "unat idx < unat (st_size st)"
  shows "load_flags st idx = Inr (st_bitmap st ! (unat idx div 64))"
    and "unat idx div 64 < length (st_bitmap st)"
  using assms word_index_bound [OF assms(2)]
  by (simp_all add: load_flags_def unat_div_64 storage_wf_dests)

lemma finite_flags: "storage_wf st \<Longrightarrow> finite {i. flag_at (st_bitmap st) i}"
  by (rule finite_subset [where B = "{..<unat (st_size st)}"]) (auto dest: storage_wf_dests(7))

section \<open>Lookups\<close>

lemma contains_key_impl_eq:
  assumes "storage_wf st"
  shows "contains_key_impl st idx = Inr (flag_at (st_bitmap st) (unat idx))"
proof (cases "idx < st_size st")
  case True
  then have i: "unat idx < unat (st_size st)" by (simp add: word_less_nat_alt)
  note flags = load_flags_ok [OF assms i]
  from True have "\<not> st_size st \<le> idx" by simp
  with flags show ?thesis
    by (simp add: contains_key_impl_def storage_len_def flag_at_word)
next
  case False
  then have "\<not> flag_at (st_bitmap st) (unat idx)"
    using storage_wf_dests(7) [OF assms] by (auto simp: word_less_nat_alt)
  with False show ?thesis by (simp add: contains_key_impl_def storage_len_def not_less)
qed

lemma get_unchecked_impl_eq:
  "slot_at st (unat idx) = Some v \<Longrightarrow> get_unchecked_impl st idx = Inr v"
  by (simp add: get_unchecked_impl_def slot_at_Some_iff entry_item_def)

lemma get_impl_eq:
  assumes "storage_wf st"
  shows "get_impl st idx = Inr (visible_at st (unat idx))"
  using storage_wf_dests(6) [OF assms, of "unat idx"]
  by (auto simp: get_impl_def contains_key_impl_eq [OF assms] visible_at_def get_unchecked_impl_eq)

section \<open>Insertion\<close>

text \<open>Two of the stores of \<open>insert\<close>, on the storage.\<close>

lemma raise_frontier_ok:
  assumes "unat idx < 2 ^ 60"
  shows "raise_frontier st idx =
    Inr (st\<lparr>st_frontier := (if idx \<ge> st_frontier st then idx + 1 else st_frontier st)\<rparr>)"
proof -
  have "unat idx + unat (1 :: usize) < 2 ^ LENGTH(64)" using assms by simp
  then show ?thesis by (simp add: raise_frontier_def uadd_ok)
qed

definition fill_slot :: "'a cslab_storage \<Rightarrow> usize \<Rightarrow> 'a \<Rightarrow> 'a cslab_storage" where
  "fill_slot st idx v =
     st\<lparr>st_table := (st_table st)[unat idx := Item v],
        st_frontier := (if idx \<ge> st_frontier st then idx + 1 else st_frontier st),
        st_bitmap := (st_bitmap st)[unat idx div 64 := set_flag (st_bitmap st ! (unat idx div 64)) (unat idx)]\<rparr>"

lemma fill_slot_views:
  assumes "storage_wf st" and "unat idx < unat (st_size st)"
  shows "slot_at (fill_slot st idx v) i = (if i = unat idx then Some v else slot_at st i)"
    and "flag_at (st_bitmap (fill_slot st idx v)) i \<longleftrightarrow> i = unat idx \<or> flag_at (st_bitmap st) i"
    and "st_size (fill_slot st idx v) = st_size st"
  using assms flag_at_set [OF load_flags_ok(2) [OF assms], of i]
  by (simp_all add: fill_slot_def slot_at_def storage_wf_dests(2))

lemma fill_slot_wf:
  assumes "storage_wf st" and "unat idx < unat (st_size st)"
  shows "storage_wf (fill_slot st idx v)"
proof -
  have small: "unat idx + 1 < 2 ^ 64" using assms storage_wf_dests(1) [OF assms(1)] by simp
  then have "unat (idx + 1) = unat idx + 1" by (subst unat_add_no_wrap) simp_all
  then show ?thesis
    using assms fill_slot_views [OF assms] unfolding storage_wf_def
    by (auto simp: fill_slot_def word_le_nat_alt not_le)
qed

text \<open>The offset stored in a free entry is exact, so following it does not overflow.\<close>

lemma chain_offset:
  assumes "free_chain tb p (unat q # qs)" and "length tb < 2 ^ 60"
  obtains d where "tb ! unat q = Next_free d" and "sadd q 1 = Inr (q + 1)"
    and "sadd (q + 1) d = Inr (q + 1 + d)" and "free_chain tb (unat (q + 1 + d)) qs"
proof -
  from assms(1) obtain d where d: "tb ! unat q = Next_free d" and q: "unat q < length tb"
    and chain: "free_chain tb (unat (q + 1 + d)) qs"
    by (auto split: entry.splits)
  let ?p = "q + 1 + d"
  have q1: "unat (q + 1) = unat q + 1" using q assms(2) by (subst unat_add_no_wrap) simp_all
  have p: "unat ?p < 2 ^ 61" using free_chain_bound [OF chain] assms(2) by simp
  have "sint d = int (unat ?p) - int (unat q) - 1"
    by (rule sint_difference) (use p q assms(2) in simp_all)
  moreover have "sint (q + 1) = int (unat q + 1)" and "sint q = int (unat q)"
    using q assms(2) q1 sint_small [of "q + 1"] sint_small [of q] by simp_all
  moreover have "in_isize (int (unat q + 1))" by (rule in_isize_nat) (use q assms(2) in simp)
  moreover have "in_isize (int (unat ?p))" by (rule in_isize_nat) (use p in simp)
  ultimately show ?thesis using that d chain by (simp add: sadd_def algebra_simps)
qed

lemma cslab_wfE:
  assumes "cslab_wf s"
  obtains fl where "storage_wf (storage s)"
    and "free_chain (st_table (storage s)) (unat (first_free s)) fl" and "distinct fl"
    and "set fl = free_slots (storage s)"
    and "unat (allocated s) + length fl = unat (st_size (storage s))"
    and "unat (in_use s) = card {i. flag_at (st_bitmap (storage s)) i}"
  using assms by (auto simp: cslab_wf_def)

lemma cslab_wf_storage: "cslab_wf s \<Longrightarrow> storage_wf (storage s)"
  by (simp add: cslab_wf_def)

lemma in_use_bound:
  assumes "cslab_wf s"
  shows "unat (in_use s) \<le> unat (allocated s)"
proof -
  obtain fl where st: "storage_wf (storage s)" and fl: "distinct fl" "set fl = free_slots (storage s)"
    and count: "unat (allocated s) + length fl = unat (st_size (storage s))"
    and used: "unat (in_use s) = card {i. flag_at (st_bitmap (storage s)) i}"
    by (rule cslab_wfE [OF assms])
  let ?n = "unat (st_size (storage s))"
  have "{i. flag_at (st_bitmap (storage s)) i} \<subseteq> {..<?n} - set fl"
  proof
    fix i assume "i \<in> {i. flag_at (st_bitmap (storage s)) i}"
    then have "i < ?n" and "slot_at (storage s) i \<noteq> None"
      using storage_wf_dests(6,7) [OF st, of i] by simp_all
    then show "i \<in> {..<?n} - set fl" using fl(2) by (simp add: free_slots_def)
  qed
  then have "card {i. flag_at (st_bitmap (storage s)) i} \<le> card ({..<?n} - set fl)"
    by (intro card_mono) auto
  also have "\<dots> = ?n - length fl"
  proof -
    have "set fl \<subseteq> {..<?n}"
      using fl(2) storage_wf_dests(2) [OF st] by (auto simp: free_slots_def)
    then show ?thesis by (simp add: card_Diff_subset distinct_card [OF fl(1)])
  qed
  finally show ?thesis using used count by simp
qed

text \<open>The next index handed out is free, and there is none exactly when every slot is allocated.\<close>

lemma first_free_cases:
  assumes "cslab_wf s"
  shows "unat (first_free s) < unat (st_size (storage s)) \<longleftrightarrow>
      unat (allocated s) < unat (st_size (storage s))"
    and "unat (first_free s) < unat (st_size (storage s)) \<Longrightarrow>
      slot_at (storage s) (unat (first_free s)) = None"
proof -
  obtain fl where st: "storage_wf (storage s)"
    and chain: "free_chain (st_table (storage s)) (unat (first_free s)) fl"
    and fl: "set fl = free_slots (storage s)"
    and count: "unat (allocated s) + length fl = unat (st_size (storage s))"
    by (rule cslab_wfE [OF assms])
  note len = storage_wf_dests(2) [OF st]
  show "unat (first_free s) < unat (st_size (storage s)) \<longleftrightarrow>
      unat (allocated s) < unat (st_size (storage s))"
    using chain count len by (cases fl) auto
  show "slot_at (storage s) (unat (first_free s)) = None"
    if "unat (first_free s) < unat (st_size (storage s))"
    using chain fl len that by (cases fl) (auto simp: free_slots_def)
qed

lemma free_slots_fill:
  assumes "storage_wf st" and "unat idx < unat (st_size st)"
  shows "free_slots (fill_slot st idx v) = free_slots st - {unat idx}"
  using fill_slot_views [OF assms] by (auto simp: free_slots_def fill_slot_def)

lemma card_flags_fill:
  assumes "storage_wf st" and "unat idx < unat (st_size st)" and "slot_at st (unat idx) = None"
  shows "card {i. flag_at (st_bitmap (fill_slot st idx v)) i} = Suc (card {i. flag_at (st_bitmap st) i})"
proof -
  have "{i. flag_at (st_bitmap (fill_slot st idx v)) i} = insert (unat idx) {i. flag_at (st_bitmap st) i}"
    using fill_slot_views(2) [OF assms(1,2)] by auto
  moreover have "\<not> flag_at (st_bitmap st) (unat idx)"
    using assms(3) storage_wf_dests(6) [OF assms(1)] by blast
  ultimately show ?thesis using finite_flags [OF assms(1)] by simp
qed

lemma cslab_insert_ok:
  assumes wf: "cslab_wf s" and free: "unat (first_free s) < unat (st_size (storage s))"
  obtains ff where
    "cslab_insert s v =
       Inr (\<lparr>first_free = ff, in_use = in_use s + 1, allocated = allocated s + 1,
             storage = fill_slot (storage s) (first_free s) v\<rparr>, Inr (first_free s))"
    and "cslab_wf \<lparr>first_free = ff, in_use = in_use s + 1, allocated = allocated s + 1,
             storage = fill_slot (storage s) (first_free s) v\<rparr>"
proof -
  let ?idx = "first_free s" and ?st = "storage s"
  obtain fl where st: "storage_wf ?st" and chain: "free_chain (st_table ?st) (unat ?idx) fl"
    and fl: "distinct fl" "set fl = free_slots ?st"
    and count: "unat (allocated s) + length fl = unat (st_size ?st)"
    and used: "unat (in_use s) = card {i. flag_at (st_bitmap ?st) i}"
    by (rule cslab_wfE [OF wf])
  note len = storage_wf_dests(1,2) [OF st] and fill = fill_slot_views [OF st free, of v]
  from chain free len obtain qs where qs: "fl = unat ?idx # qs" by (cases fl) auto
  with chain have head: "free_chain (st_table ?st) (unat ?idx) (unat ?idx # qs)" by simp
  obtain d where d: "st_table ?st ! unat ?idx = Next_free d"
    and add1: "sadd ?idx 1 = Inr (?idx + 1)" and add2: "sadd (?idx + 1) d = Inr (?idx + 1 + d)"
    and rest: "free_chain (st_table ?st) (unat (?idx + 1 + d)) qs"
    by (rule chain_offset [OF head]) (use len in simp)
  let ?s = "\<lparr>first_free = ?idx + 1 + d, in_use = in_use s + 1, allocated = allocated s + 1,
             storage = fill_slot ?st ?idx v\<rparr>"
  have small: "unat (allocated s) < 2 ^ 60" "unat (in_use s) < 2 ^ 60"
    using count len in_use_bound [OF wf] by simp_all
  then have plus: "uadd (in_use s) 1 = Inr (in_use s + 1)"
    "uadd (allocated s) 1 = Inr (allocated s + 1)"
    "unat (in_use s + 1) = unat (in_use s) + 1" "unat (allocated s + 1) = unat (allocated s) + 1"
    by (simp_all add: usize_succ)
  note flags = load_flags_ok [OF st free]
  have noflag: "\<not> flag_at (st_bitmap ?st) (unat ?idx)"
    using storage_wf_dests(6) [OF st] first_free_cases(2) [OF wf free] by blast
  have "cslab_insert s v = Inr (?s, Inr ?idx)"
    using free len d add1 add2 plus noflag flags
    by (simp add: cslab_insert_def Let_def raise_frontier_ok load_flags_def store_flags_def
        unat_div_64 fill_slot_def entry_next_free_def flag_at_word)
  moreover have "cslab_wf ?s"
    unfolding cslab_wf_def
  proof (intro conjI exI [of _ qs])
    show "storage_wf (storage ?s)" using fill_slot_wf [OF st free] by simp
    show "free_chain (st_table (storage ?s)) (unat (first_free ?s)) qs"
      using rest fl qs by (simp add: fill_slot_def)
    show "distinct qs" and "unat (allocated ?s) + length qs = unat (st_size (storage ?s))"
      using fl qs plus count fill by simp_all
    show "set qs = free_slots (storage ?s)"
      using fl qs free_slots_fill [OF st free] by auto
    show "unat (in_use ?s) = card {i. flag_at (st_bitmap (storage ?s)) i}"
      using used plus card_flags_fill [OF st free first_free_cases(2) [OF wf free]] by simp
  qed
  ultimately show ?thesis using that by blast
qed

lemma cslab_insert_full:
  assumes "cslab_wf s" and "\<not> unat (first_free s) < unat (st_size (storage s))"
  shows "cslab_insert s v = Inr (s, Inl ())"
  using assms storage_wf_dests(2) [OF cslab_wf_storage [OF assms(1)]]
  by (simp add: cslab_insert_def Let_def)

section \<open>Removal\<close>

definition hide_slot :: "'a cslab_storage \<Rightarrow> usize \<Rightarrow> 'a cslab_storage" where
  "hide_slot st idx =
     st\<lparr>st_bitmap := (st_bitmap st)[unat idx div 64 := clear_flag (st_bitmap st ! (unat idx div 64)) (unat idx)]\<rparr>"

lemma hide_slot_views:
  assumes "storage_wf st" and "unat idx < unat (st_size st)"
  shows "slot_at (hide_slot st idx) i = slot_at st i"
    and "flag_at (st_bitmap (hide_slot st idx)) i \<longleftrightarrow> i \<noteq> unat idx \<and> flag_at (st_bitmap st) i"
    and "free_slots (hide_slot st idx) = free_slots st"
  using assms flag_at_clear [OF load_flags_ok(2) [OF assms], of i]
  by (simp_all add: hide_slot_def slot_at_def free_slots_def)

lemma hide_slot_wf:
  assumes "storage_wf st" and "unat idx < unat (st_size st)"
  shows "storage_wf (hide_slot st idx)"
  using assms hide_slot_views [OF assms] unfolding storage_wf_def by (auto simp: hide_slot_def)

lemma cslab_mark_removed_ok:
  assumes wf: "cslab_wf s" and set: "flag_at (st_bitmap (storage s)) (unat idx)"
  shows "cslab_mark_removed s idx =
      Inr (s\<lparr>storage := hide_slot (storage s) idx, in_use := in_use s - 1\<rparr>)"
    and "cslab_wf (s\<lparr>storage := hide_slot (storage s) idx, in_use := in_use s - 1\<rparr>)"
proof -
  let ?st = "storage s" and ?s = "s\<lparr>storage := hide_slot (storage s) idx, in_use := in_use s - 1\<rparr>"
  obtain fl where st: "storage_wf ?st" and chain: "free_chain (st_table ?st) (unat (first_free s)) fl"
    and fl: "distinct fl" "set fl = free_slots ?st"
    and count: "unat (allocated s) + length fl = unat (st_size ?st)"
    and used: "unat (in_use s) = card {i. flag_at (st_bitmap ?st) i}"
    by (rule cslab_wfE [OF wf])
  have i: "unat idx < unat (st_size ?st)" by (rule storage_wf_dests(7) [OF st set])
  note flags = load_flags_ok [OF st i] and hide = hide_slot_views [OF st i]
  have "{i. flag_at (st_bitmap (hide_slot ?st idx)) i} = {i. flag_at (st_bitmap ?st) i} - {unat idx}"
    using hide(2) by auto
  then have card: "card {i. flag_at (st_bitmap (hide_slot ?st idx)) i} = unat (in_use s) - 1"
    using used set finite_flags [OF st] by simp
  have pos: "unat (1 :: usize) \<le> unat (in_use s)"
    using used set finite_flags [OF st] by (auto simp: Suc_le_eq card_gt_0_iff)
  then have minus: "usub (in_use s) 1 = Inr (in_use s - 1)" "unat (in_use s - 1) = unat (in_use s) - 1"
    by (auto intro: usub_ok simp: unat_sub_no_wrap [OF pos])
  show "cslab_mark_removed s idx = Inr ?s"
    using flags minus set i
    by (simp add: cslab_mark_removed_def store_flags_def unat_div_64 hide_slot_def flag_at_word)
  show "cslab_wf ?s"
    unfolding cslab_wf_def
    using hide_slot_wf [OF st i] chain fl count hide(3) card minus
    by (auto simp: hide_slot_def)
qed

lemma cslab_mark_removed_panics:
  assumes wf: "cslab_wf s" and unset: "\<not> flag_at (st_bitmap (storage s)) (unat idx)"
  shows "cslab_mark_removed s idx \<in> {Inl Panic_assert, Inl Panic_index}"
proof (cases "unat idx div 64 < length (st_bitmap (storage s))")
  case True
  with unset show ?thesis
    by (simp add: cslab_mark_removed_def load_flags_def unat_div_64 flag_at_word)
next
  case False
  then show ?thesis
    by (simp add: cslab_mark_removed_def load_flags_def unat_div_64 index_def)
qed

definition release_slot :: "'a cslab_storage \<Rightarrow> usize \<Rightarrow> isize \<Rightarrow> 'a cslab_storage" where
  "release_slot st idx d = st\<lparr>st_table := (st_table st)[unat idx := Next_free d]\<rparr>"

lemma release_slot_views:
  assumes "storage_wf st" and "unat idx < unat (st_size st)"
  shows "slot_at (release_slot st idx d) i = (if i = unat idx then None else slot_at st i)"
    and "st_bitmap (release_slot st idx d) = st_bitmap st"
    and "free_slots (release_slot st idx d) = insert (unat idx) (free_slots st)"
  using assms by (auto simp: release_slot_def slot_at_def free_slots_def storage_wf_dests(2) nth_list_update)

lemma cslab_finalize_remove_ok:
  assumes wf: "cslab_wf s" and item: "slot_at (storage s) (unat idx) = Some v"
    and unset: "\<not> flag_at (st_bitmap (storage s)) (unat idx)"
  obtains d where
    "cslab_finalize_remove s idx =
       Inr (s\<lparr>first_free := idx, allocated := allocated s - 1,
              storage := release_slot (storage s) idx d\<rparr>, v)"
    and "cslab_wf (s\<lparr>first_free := idx, allocated := allocated s - 1,
              storage := release_slot (storage s) idx d\<rparr>)"
proof -
  let ?st = "storage s"
  obtain fl where st: "storage_wf ?st" and chain: "free_chain (st_table ?st) (unat (first_free s)) fl"
    and fl: "distinct fl" "set fl = free_slots ?st"
    and count: "unat (allocated s) + length fl = unat (st_size ?st)"
    and used: "unat (in_use s) = card {i. flag_at (st_bitmap ?st) i}"
    by (rule cslab_wfE [OF wf])
  note len = storage_wf_dests(1,2) [OF st]
  have entry: "st_table ?st ! unat idx = Item v" and i: "unat idx < unat (st_size ?st)"
    using item len by (auto simp: slot_at_Some_iff)
  note flags = load_flags_ok [OF st i]
  let ?d = "first_free s - idx - 1"
  let ?s = "s\<lparr>first_free := idx, allocated := allocated s - 1, storage := release_slot ?st idx ?d\<rparr>"
  have small: "unat (first_free s) < 2 ^ 62" "unat idx < 2 ^ 62"
    using free_chain_bound [OF chain] i len by simp_all
  note diffs = in_isize_diff0 [OF small] in_isize_diff [OF small]
  have sints: "sint (first_free s) = int (unat (first_free s))" "sint idx = int (unat idx)"
    using small sint_small [of "first_free s"] sint_small [of idx] by simp_all
  moreover from this diffs have "sint (first_free s - idx) = int (unat (first_free s)) - int (unat idx)"
    using sint_of_int_small [OF diffs(1)] by simp
  ultimately have subs: "ssub (first_free s) idx = Inr (first_free s - idx)"
    "ssub (first_free s - idx) 1 = Inr ?d"
    using diffs by (simp_all add: ssub_def)
  have notfree: "unat idx \<notin> set fl" using fl item by (simp add: free_slots_def)
  have "length fl < unat (st_size ?st)"
  proof -
    have "set fl \<subseteq> {..<unat (st_size ?st)} - {unat idx}"
    proof
      fix j assume "j \<in> set fl"
      with notfree have "j \<in> free_slots ?st" and "j \<noteq> unat idx" using fl(2) by auto
      then show "j \<in> {..<unat (st_size ?st)} - {unat idx}"
        using len(2) by (simp add: free_slots_def)
    qed
    then have "length fl \<le> card ({..<unat (st_size ?st)} - {unat idx})"
      using distinct_card [OF fl(1)] card_mono [of "{..<unat (st_size ?st)} - {unat idx}" "set fl"] by simp
    then show ?thesis using i by simp
  qed
  then have pos: "unat (1 :: usize) \<le> unat (allocated s)" using count by simp
  then have minus: "usub (allocated s) 1 = Inr (allocated s - 1)"
    "unat (allocated s - 1) = unat (allocated s) - 1"
    by (auto intro: usub_ok simp: unat_sub_no_wrap [OF pos])
  have "cslab_finalize_remove s idx = Inr (?s, v)"
    using flags unset entry i len subs minus
    by (simp add: cslab_finalize_remove_def Let_def flag_at_word entry_item_def release_slot_def)
  moreover have "cslab_wf ?s"
    unfolding cslab_wf_def
  proof (intro conjI exI [of _ "unat idx # fl"])
    note rel = release_slot_views [OF st i, of ?d]
    show "storage_wf (storage ?s)"
      using st unset rel(1,2) unfolding storage_wf_def by (auto simp: release_slot_def)
    have "idx + 1 + ?d = first_free s" by simp
    then show "free_chain (st_table (storage ?s)) (unat (first_free ?s)) (unat idx # fl)"
      using chain notfree i len by (simp add: release_slot_def)
    show "distinct (unat idx # fl)" and "set (unat idx # fl) = free_slots (storage ?s)"
      using fl notfree rel(3) by simp_all
    show "unat (allocated ?s) + length (unat idx # fl) = unat (st_size (storage ?s))"
      using minus count pos by (simp add: release_slot_def)
    show "unat (in_use ?s) = card {i. flag_at (st_bitmap (storage ?s)) i}"
      using used rel(2) by simp
  qed
  ultimately show ?thesis using that by blast
qed

section \<open>Creation\<close>

text \<open>The layout of \<open>Entry<T>\<close>: a union with an \<open>isize\<close> is at least as large and as
  aligned as one, and its size is a multiple of its alignment.\<close>

definition entry_layout_ok :: "layout \<Rightarrow> bool" where
  "entry_layout_ok ent \<longleftrightarrow> 8 \<le> lay_align ent \<and> 8 \<le> lay_size ent"

lemma bitmap_words_ok:
  assumes "unat n < 2 ^ 60"
  shows "\<exists>w. bitmap_words n = Inr w \<and> unat w = (unat n + 63) div 64"
proof -
  have "unat (n + 64) = unat n + 64" using assms by (subst unat_add_no_wrap) simp_all
  moreover from this have "unat (n + 64 - 1) = unat n + 63" by (subst unat_sub_no_wrap) simp_all
  ultimately show ?thesis
    using assms by (simp add: bitmap_words_def uadd_def usub_def unat_div)
qed

lemma table_layout_small:
  assumes "entry_layout_ok ent" and "table_layout ent n = Inr t"
  shows "unat n < 2 ^ 60"
proof -
  have "lay_size ent * unat n \<le> isize_max"
    using assms by (auto simp: table_layout_def layout_array_def unwrap_def max_size_for_align_def
        entry_layout_ok_def split: if_splits)
  moreover have "8 * unat n \<le> lay_size ent * unat n"
    using assms(1) by (simp add: entry_layout_ok_def)
  ultimately have "8 * unat n \<le> isize_max" by (rule order_trans [rotated])
  then show ?thesis by (simp add: isize_max_def)
qed

lemma cslab_new_ok:
  assumes ent: "entry_layout_ok ent" and new: "cslab_with_fixed_capacity ent n = Inr s"
  shows "cslab_wf s" and "slot_at (storage s) i = None" and "st_size (storage s) = n"
    and "\<not> flag_at (st_bitmap (storage s)) i"
proof -
  obtain lay w where n: "0 < n" and lay: "storage_layout ent n = Inr lay"
    and w: "bitmap_words n = Inr w"
    and s: "s = \<lparr>first_free = 0, in_use = 0, allocated = 0,
      storage = \<lparr>st_size = n, st_frontier = 0, st_table = replicate (unat n) (Next_free 0),
        st_bitmap = replicate (unat w) 0\<rparr>\<rparr>"
    using new by (auto simp: cslab_with_fixed_capacity_def storage_with_fixed_capacity_def res_simps)
  have small: "unat n < 2 ^ 60"
    using lay table_layout_small [OF ent] by (auto simp: storage_layout_def res_simps)
  have uw: "unat w = (unat n + 63) div 64" using bitmap_words_ok [OF small] w by auto
  have slots: "slot_at (storage s) i = None" for i using s by (simp add: slot_at_def)
  then show "slot_at (storage s) i = None" and "st_size (storage s) = n"
    and "\<not> flag_at (st_bitmap (storage s)) i" using s by simp_all
  have "0 < unat n" using n by (simp add: word_less_nat_alt)
  show "cslab_wf s"
    unfolding cslab_wf_def
  proof (intro conjI exI [of _ "[0..<unat n]"])
    show "storage_wf (storage s)"
      using s small uw \<open>0 < unat n\<close> by (simp add: storage_wf_def max_capacity_def)
    show "free_chain (st_table (storage s)) (unat (first_free s)) [0..<unat n]"
      using free_chain_zeroed [of "unat n" 0] small s by simp
    show "set [0..<unat n] = free_slots (storage s)"
      using slots s by (auto simp: free_slots_def)
    show "unat (allocated s) + length [0..<unat n] = unat (st_size (storage s))"
      and "unat (in_use s) = card {i. flag_at (st_bitmap (storage s)) i}"
      using s by simp_all
  qed simp
qed

section \<open>The slab interface\<close>

text \<open>
  What a client of the slab relies on. \<open>visible\<close> and \<open>slot\<close> are the items a lookup returns
  and the items that occupy a slot (a slot that is occupied and not visible is pending removal);
  \<open>vacant\<close> is the index the next insertion uses.
\<close>

locale slab =
  fixes invar :: "'s \<Rightarrow> bool"
    and slot :: "'s \<Rightarrow> usize \<Rightarrow> 'a option"
    and visible :: "'s \<Rightarrow> usize \<Rightarrow> 'a option"
    and vacant :: "'s \<Rightarrow> unit + usize"
    and get :: "'s \<Rightarrow> usize \<Rightarrow> ('a option) res"
    and insert_op :: "'s \<Rightarrow> 'a \<Rightarrow> ('s \<times> (unit + usize)) res"
    and mark :: "'s \<Rightarrow> usize \<Rightarrow> 's res"
    and final :: "'s \<Rightarrow> usize \<Rightarrow> ('s \<times> 'a) res"
  assumes visible_slot: "invar s \<Longrightarrow> visible s i = Some v \<Longrightarrow> slot s i = Some v"
    and get_visible: "invar s \<Longrightarrow> get s i = Inr (visible s i)"
    and insert_full: "invar s \<Longrightarrow> vacant s = Inl () \<Longrightarrow> insert_op s v = Inr (s, Inl ())"
    and insert_vacant: "invar s \<Longrightarrow> vacant s = Inr i \<Longrightarrow>
      slot s i = None \<and> (\<exists>s'. insert_op s v = Inr (s', Inr i) \<and> invar s' \<and>
        slot s' = (slot s)(i \<mapsto> v) \<and> visible s' = (visible s)(i \<mapsto> v))"
    and mark_visible: "invar s \<Longrightarrow> visible s i = Some v \<Longrightarrow>
      \<exists>s'. mark s i = Inr s' \<and> invar s' \<and> slot s' = slot s \<and> visible s' = (visible s)(i := None) \<and>
        vacant s' = vacant s"
    and mark_absent: "invar s \<Longrightarrow> visible s i = None \<Longrightarrow> mark s i \<in> {Inl Panic_assert, Inl Panic_index}"
    and final_pending: "invar s \<Longrightarrow> slot s i = Some v \<Longrightarrow> visible s i = None \<Longrightarrow>
      \<exists>s'. final s i = Inr (s', v) \<and> invar s' \<and> slot s' = (slot s)(i := None) \<and>
        visible s' = visible s \<and> vacant s' = Inr i"
begin

text \<open>Finalizing a list of pending indexes one after the other, as the drop of a generation does.\<close>

fun final_all :: "'s \<Rightarrow> usize list \<Rightarrow> ('s \<times> 'a list) res" where
  "final_all s [] = Inr (s, [])"
| "final_all s (i # is) =
     rbind (final s i) (\<lambda>(s', v). rbind (final_all s' is) (\<lambda>(s'', vs). Inr (s'', v # vs)))"

lemma final_all_pending:
  assumes "invar s" and "distinct is" and "\<forall>i \<in> set is. slot s i \<noteq> None \<and> visible s i = None"
  shows "\<exists>s'. final_all s is = Inr (s', map (\<lambda>i. the (slot s i)) is) \<and> invar s' \<and>
    slot s' = (\<lambda>i. if i \<in> set is then None else slot s i) \<and> visible s' = visible s"
  using assms
proof (induction "is" arbitrary: s)
  case Nil
  then show ?case by auto
next
  case (Cons i "is")
  then obtain v where v: "slot s i = Some v" and "visible s i = None" by auto
  then obtain s1 where s1: "final s i = Inr (s1, v)" "invar s1" "slot s1 = (slot s)(i := None)"
    "visible s1 = visible s"
    using final_pending Cons.prems(1) by blast
  have "\<forall>j \<in> set is. slot s1 j \<noteq> None \<and> visible s1 j = None" and i: "i \<notin> set is"
    using Cons.prems s1 by auto
  then obtain s2 where s2: "final_all s1 is = Inr (s2, map (\<lambda>i. the (slot s1 i)) is)" "invar s2"
    "slot s2 = (\<lambda>i. if i \<in> set is then None else slot s1 i)" "visible s2 = visible s1"
    using Cons.IH [OF s1(2)] Cons.prems(2) by auto
  have "map (\<lambda>j. the (slot s1 j)) is = map (\<lambda>j. the (slot s j)) is"
    using i s1(3) by (auto intro: map_cong)
  with s1 s2 v show ?case by (auto simp: fun_eq_iff)
qed

text \<open>The life of an item: insert, look up, mark, finalize; the slot is used again next.\<close>

lemma item_life:
  assumes "invar s" and "vacant s = Inr i"
  shows "\<exists>s1 s2 s3. insert_op s v = Inr (s1, Inr i) \<and> get s1 i = Inr (Some v) \<and>
    mark s1 i = Inr s2 \<and> get s2 i = Inr None \<and> final s2 i = Inr (s3, v) \<and>
    slot s3 = slot s \<and> visible s3 = visible s \<and> vacant s3 = Inr i \<and> invar s3"
proof -
  obtain s1 where s1: "insert_op s v = Inr (s1, Inr i)" "invar s1" "slot s1 = (slot s)(i \<mapsto> v)"
    "visible s1 = (visible s)(i \<mapsto> v)" and none: "slot s i = None"
    using insert_vacant [OF assms] by blast
  obtain s2 where s2: "mark s1 i = Inr s2" "invar s2" "slot s2 = slot s1"
    "visible s2 = (visible s1)(i := None)"
    using mark_visible [OF s1(2), of i v] s1(4) by auto
  obtain s3 where s3: "final s2 i = Inr (s3, v)" "invar s3" "slot s3 = (slot s2)(i := None)"
    "visible s3 = visible s2" "vacant s3 = Inr i"
    using final_pending [OF s2(2), of i v] s2 s1 by auto
  have vis: "visible s i = None"
    using none visible_slot [OF assms(1)] by (cases "visible s i") auto
  then have "slot s3 = slot s" and "visible s3 = visible s"
    using s1 s2 s3 none by (auto simp: fun_eq_iff)
  moreover have "get s1 i = Inr (Some v)" and "get s2 i = Inr None"
    using get_visible [OF s1(2)] get_visible [OF s2(2)] s1(4) s2(4) by simp_all
  ultimately show ?thesis using s1(1) s2(1) s3(1,2,5) by blast
qed

end

section \<open>The model implements the interface\<close>

definition cslab_slot :: "'a cslab \<Rightarrow> usize \<Rightarrow> 'a option" where
  "cslab_slot s i = slot_at (storage s) (unat i)"

definition cslab_visible :: "'a cslab \<Rightarrow> usize \<Rightarrow> 'a option" where
  "cslab_visible s i = visible_at (storage s) (unat i)"

lemma cslab_vacant_key_eq:
  assumes "cslab_wf s"
  shows "cslab_vacant_key s =
    (if unat (first_free s) < unat (st_size (storage s)) then Inr (first_free s) else Inl ())"
  using storage_wf_dests(2) [OF cslab_wf_storage [OF assms]] by (simp add: cslab_vacant_key_def)

lemmas slot_views = cslab_slot_def cslab_visible_def visible_at_def

interpretation cslab: slab cslab_wf cslab_slot cslab_visible cslab_vacant_key cslab_get cslab_insert
  cslab_mark_removed cslab_finalize_remove
proof unfold_locales
  fix s :: "'a cslab" and i v
  assume wf: "cslab_wf s"
  note st = cslab_wf_storage [OF wf]
  note size = storage_wf_dests(2) [OF st]
  show "cslab_slot s i = Some v" if "cslab_visible s i = Some v"
    using that by (simp add: slot_views split: if_splits)
  show "cslab_get s i = Inr (cslab_visible s i)"
    by (simp add: cslab_get_def get_impl_eq [OF st] cslab_visible_def)
  show "cslab_insert s v = Inr (s, Inl ())" if "cslab_vacant_key s = Inl ()"
    using that cslab_insert_full [OF wf] cslab_vacant_key_eq [OF wf] by (auto split: if_splits)
  show "cslab_slot s i = None \<and> (\<exists>s'. cslab_insert s v = Inr (s', Inr i) \<and> cslab_wf s' \<and>
      cslab_slot s' = (cslab_slot s)(i \<mapsto> v) \<and> cslab_visible s' = (cslab_visible s)(i \<mapsto> v))"
    if vacant: "cslab_vacant_key s = Inr i"
  proof -
    have i: "i = first_free s" and free: "unat (first_free s) < unat (st_size (storage s))"
      using vacant cslab_vacant_key_eq [OF wf] by (auto split: if_splits)
    note fill = fill_slot_views [OF st free, of v]
    obtain ff where ins: "cslab_insert s v =
        Inr (\<lparr>first_free = ff, in_use = in_use s + 1, allocated = allocated s + 1,
          storage = fill_slot (storage s) (first_free s) v\<rparr>, Inr (first_free s))"
      and wf': "cslab_wf \<lparr>first_free = ff, in_use = in_use s + 1, allocated = allocated s + 1,
          storage = fill_slot (storage s) (first_free s) v\<rparr>" (is "cslab_wf ?s")
      by (rule cslab_insert_ok [OF wf free])
    have "cslab_slot ?s = (cslab_slot s)(i \<mapsto> v)" and "cslab_visible ?s = (cslab_visible s)(i \<mapsto> v)"
      using fill by (auto simp: slot_views i fun_eq_iff word_unat_eq_iff)
    moreover have "cslab_slot s i = None"
      using first_free_cases(2) [OF wf free] by (simp add: cslab_slot_def i)
    ultimately show ?thesis using ins wf' i by blast
  qed
  show "\<exists>s'. cslab_mark_removed s i = Inr s' \<and> cslab_wf s' \<and> cslab_slot s' = cslab_slot s \<and>
      cslab_visible s' = (cslab_visible s)(i := None) \<and> cslab_vacant_key s' = cslab_vacant_key s"
    if "cslab_visible s i = Some v"
  proof -
    have flag: "flag_at (st_bitmap (storage s)) (unat i)"
      using that by (simp add: slot_views split: if_splits)
    note hide = hide_slot_views [OF st storage_wf_dests(7) [OF st flag]]
    show ?thesis
      using cslab_mark_removed_ok [OF wf flag] hide
      by (auto simp: slot_views fun_eq_iff cslab_vacant_key_def hide_slot_def word_unat_eq_iff)
  qed
  show "cslab_mark_removed s i \<in> {Inl Panic_assert, Inl Panic_index}" if "cslab_visible s i = None"
    using that storage_wf_dests(6) [OF st, of "unat i"]
    by (intro cslab_mark_removed_panics [OF wf]) (auto simp: slot_views split: if_splits)
  show "\<exists>s'. cslab_finalize_remove s i = Inr (s', v) \<and> cslab_wf s' \<and>
      cslab_slot s' = (cslab_slot s)(i := None) \<and> cslab_visible s' = cslab_visible s \<and>
      cslab_vacant_key s' = Inr i"
    if slot: "cslab_slot s i = Some v" and hidden: "cslab_visible s i = None"
  proof -
    have v: "slot_at (storage s) (unat i) = Some v" and flag: "\<not> flag_at (st_bitmap (storage s)) (unat i)"
      using slot hidden by (auto simp: slot_views split: if_splits)
    then have i: "unat i < unat (st_size (storage s))" using size by (simp add: slot_at_Some_iff)
    obtain d where d: "cslab_finalize_remove s i = Inr (s\<lparr>first_free := i, allocated := allocated s - 1,
        storage := release_slot (storage s) i d\<rparr>, v)"
      "cslab_wf (s\<lparr>first_free := i, allocated := allocated s - 1,
        storage := release_slot (storage s) i d\<rparr>)"
      by (rule cslab_finalize_remove_ok [OF wf v flag])
    with release_slot_views [OF st i, of d] flag i size show ?thesis
      by (auto simp: slot_views fun_eq_iff cslab_vacant_key_def release_slot_def word_unat_eq_iff)
  qed
qed

end
