(* ===== verification/Cslab_Iter.thy ===== *)
theory Cslab_Iter
  imports Cslab_Inv
begin

text \<open>
  The iterators of \<open>src/cslab/src/lib.rs\<close>: \<open>Iter\<close> scans the bitmap word by word from both
  ends, \<open>ExclIter\<close> adds a count, and the drop of the storage runs an \<open>Iter\<close> over the items
  that are left. The scans are shown to be the two ends of one sequence: the indexes between
  \<open>head\<close> and \<open>tail\<close> whose flag is set.
\<close>

section \<open>Iter\<close>

record iter =
  it_head :: usize
  it_tail :: usize

definition iter_new :: "'a cslab_storage \<Rightarrow> iter res" where
  "iter_new st =
     rbind (rassert Panic_assert (st_frontier st \<le> st_size st)) (\<lambda>_.
     Inr \<lparr>it_head = 0, it_tail = st_frontier st\<rparr>)"

text \<open>The \<open>loop\<close> of \<open>next\<close>; its state is \<open>head\<close>.\<close>

definition next_distance :: "usize \<Rightarrow> usize \<Rightarrow> usize" where
  "next_distance bme head = (if bme = 0 then 64 - head mod 64 else word_of_nat (trailing_zeros bme))"

lemma distance_to_next_word: "unat (64 - head mod 64 :: usize) = 64 - unat head mod 64"
proof -
  have "unat (head mod 64) = unat head mod 64" by (simp add: unat_mod)
  moreover have "unat head mod 64 < 64" by simp
  ultimately show ?thesis by (subst unat_sub_no_wrap) simp_all
qed

function iter_next_loop :: "'a cslab_storage \<Rightarrow> iter \<Rightarrow> (iter \<times> (usize \<times> 'a) option) res" where
  "iter_next_loop st it =
     rbind (load_flags st (it_head it)) (\<lambda>w.
     rbind (usub (it_tail it) (it_head it)) (\<lambda>rem.
       let bme = drop_bit (unat (it_head it mod 64)) w; d = next_distance bme (it_head it)
       in if d \<ge> rem then Inr (it\<lparr>it_head := it_tail it\<rparr>, None)
          else rbind (uadd (it_head it) d) (\<lambda>h.
            if bme \<noteq> 0 then
              rbind (uadd h 1) (\<lambda>h1.
              rbind (get_unchecked_impl st h) (\<lambda>v. Inr (it\<lparr>it_head := h1\<rparr>, Some (h, v))))
            else iter_next_loop st (it\<lparr>it_head := h\<rparr>))))"
  by pat_completeness auto

termination
proof (relation "measure (\<lambda>(st, it). unat (it_tail it) - unat (it_head it))", goal_cases)
  case 1
  show ?case by simp
next
  case (2 st it w rem bme d h)
  have "unat rem = unat (it_tail it) - unat (it_head it)"
    using 2(2) by (simp add: res_simps)
  moreover have "unat h = unat (it_head it) + unat d" using 2(6) by (simp add: res_simps)
  moreover have "unat d < unat rem" using 2(5) by (simp add: word_le_nat_alt)
  moreover have "0 < unat d"
  proof -
    have "unat (it_head it) mod 64 < 64" by simp
    with 2 show ?thesis by (simp add: next_distance_def distance_to_next_word)
  qed
  ultimately show ?case by simp
qed

declare iter_next_loop.simps [simp del]

definition iter_next :: "'a cslab_storage \<Rightarrow> iter \<Rightarrow> (iter \<times> (usize \<times> 'a) option) res" where
  "iter_next st it =
     (if it_head it \<ge> it_tail it then Inr (it, None) else iter_next_loop st it)"

text \<open>The \<open>loop\<close> of \<open>next_back\<close>; its state is \<open>tail\<close>.\<close>

definition back_distance :: "usize \<Rightarrow> usize \<Rightarrow> usize" where
  "back_distance bme t1 = (if bme = 0 then t1 mod 64 + 1 else word_of_nat (leading_zeros bme))"

lemma distance_to_word_start: "unat (t1 mod 64 + 1 :: usize) = unat t1 mod 64 + 1"
proof -
  have m: "unat (t1 mod 64) = unat t1 mod 64" by (simp add: unat_mod)
  moreover have "unat t1 mod 64 < 64" by simp
  ultimately have "unat (t1 mod 64) < 2 ^ 60" by simp
  then show ?thesis using m by (simp add: usize_succ)
qed

function iter_next_back_loop :: "'a cslab_storage \<Rightarrow> iter \<Rightarrow> (iter \<times> (usize \<times> 'a) option) res" where
  "iter_next_back_loop st it =
     rbind (usub (it_tail it) 1) (\<lambda>t1.
     rbind (load_flags st t1) (\<lambda>w.
     rbind (usub (it_tail it) (it_head it)) (\<lambda>rem.
       let bme = push_bit (64 - (unat (t1 mod 64) + 1)) w; d = back_distance bme t1
       in if d \<ge> rem then Inr (it\<lparr>it_tail := it_head it\<rparr>, None)
          else rbind (usub (it_tail it) d) (\<lambda>t.
            if bme \<noteq> 0 then
              rbind (usub t 1) (\<lambda>t2.
              rbind (get_unchecked_impl st t2) (\<lambda>v. Inr (it\<lparr>it_tail := t2\<rparr>, Some (t2, v))))
            else iter_next_back_loop st (it\<lparr>it_tail := t\<rparr>)))))"
  by pat_completeness auto

termination
proof (relation "measure (\<lambda>(st, it). unat (it_tail it) - unat (it_head it))", goal_cases)
  case 1
  show ?case by simp
next
  case (2 st it t1 w rem bme d t)
  have "unat (it_tail it) = unat (it_head it) + unat rem"
    using 2(3) by (simp add: res_simps)
  moreover have "unat (it_tail it) = unat d + unat t" using 2(7) by (simp add: res_simps)
  moreover have "unat d < unat rem" using 2(6) by (simp add: word_le_nat_alt)
  moreover have "0 < unat d"
    using 2 by (simp add: back_distance_def distance_to_word_start)
  ultimately show ?case by simp
qed

declare iter_next_back_loop.simps [simp del]

definition iter_next_back :: "'a cslab_storage \<Rightarrow> iter \<Rightarrow> (iter \<times> (usize \<times> 'a) option) res" where
  "iter_next_back st it =
     (if it_tail it \<le> it_head it then Inr (it, None) else iter_next_back_loop st it)"

definition iter_size_hint :: "iter \<Rightarrow> (usize \<times> usize option) res" where
  "iter_size_hint it = rbind (usub (it_tail it) (it_head it)) (\<lambda>r. Inr (0, Some r))"

section \<open>ExclIter\<close>

record excl_iter =
  ex_iter :: iter
  ex_in_use :: usize

definition excl_iter_new :: "'a cslab_storage \<Rightarrow> usize \<Rightarrow> excl_iter res" where
  "excl_iter_new st n = rbind (iter_new st) (\<lambda>it. Inr \<lparr>ex_iter = it, ex_in_use = n\<rparr>)"

definition excl_iter_next ::
    "'a cslab_storage \<Rightarrow> excl_iter \<Rightarrow> (excl_iter \<times> (usize \<times> 'a) option) res" where
  "excl_iter_next st e =
     rbind (iter_next st (ex_iter e)) (\<lambda>(it, r). Inr (e\<lparr>ex_iter := it\<rparr>, r))"

definition excl_iter_next_back ::
    "'a cslab_storage \<Rightarrow> excl_iter \<Rightarrow> (excl_iter \<times> (usize \<times> 'a) option) res" where
  "excl_iter_next_back st e =
     rbind (iter_next_back st (ex_iter e)) (\<lambda>(it, r). Inr (e\<lparr>ex_iter := it\<rparr>, r))"

definition excl_iter_size_hint :: "excl_iter \<Rightarrow> usize \<times> usize option" where
  "excl_iter_size_hint e = (ex_in_use e, Some (ex_in_use e))"

definition excl_iter_count :: "excl_iter \<Rightarrow> usize" where
  "excl_iter_count e = ex_in_use e"

definition excl_iter_into_iter :: "excl_iter \<Rightarrow> iter" where
  "excl_iter_into_iter e = ex_iter e"

definition cslab_iter :: "'a cslab \<Rightarrow> excl_iter res" where
  "cslab_iter s = excl_iter_new (storage s) (in_use s)"

definition reader_iter :: "'a cslab_storage \<Rightarrow> iter res" where
  "reader_iter r = iter_new r"

section \<open>Dropping the storage\<close>

text \<open>
  \<open>Drop for CslabStorage\<close>: \<open>Iter::new(self).for_each\<close> drops the items in place (the list is
  what was dropped, in order), then the block is freed with the layout it was allocated with.
\<close>

definition storage_drop :: "layout \<Rightarrow> 'a cslab_storage \<Rightarrow> (('a list) res) option" where
  "storage_drop ent st =
     (case iter_new st of
        Inl e \<Rightarrow> Some (Inl e)
      | Inr it \<Rightarrow> map_option (\<lambda>r. rbind r (\<lambda>xs.
          rbind (storage_layout ent (st_size st)) (\<lambda>_. Inr (map snd xs))))
          (rloop (for_each_body (iter_next st)) (it, [])))"

section \<open>Scanning a word finds the next flag\<close>

definition flags_between :: "bitmap \<Rightarrow> nat \<Rightarrow> nat \<Rightarrow> nat list" where
  "flags_between bm h t = filter (flag_at bm) [h..<t]"

lemma flags_between_skip:
  assumes "\<And>i. h \<le> i \<Longrightarrow> i < m \<Longrightarrow> i < t \<Longrightarrow> \<not> flag_at bm i"
  shows "flags_between bm h t = (if m < t \<and> h \<le> m then flags_between bm m t
    else if t \<le> m then [] else flags_between bm h t)"
proof -
  have none: "flags_between bm h u = []" if "u \<le> m" "u \<le> t" for u
    using assms that by (auto simp: flags_between_def filter_empty_conv)
  show ?thesis
  proof (cases "m < t \<and> h \<le> m")
    case True
    then have "[h..<t] = [h..<m] @ [m..<t]" using upt_add_eq_append [of h m "t - m"] by simp
    then show ?thesis using True none [of m] by (simp add: flags_between_def)
  qed (use none [of t] in auto)
qed

lemma flags_between_skip_back:
  assumes "\<And>i. m \<le> i \<Longrightarrow> h \<le> i \<Longrightarrow> i < t \<Longrightarrow> \<not> flag_at bm i"
  shows "flags_between bm h t = (if h < m \<and> m \<le> t then flags_between bm h m
    else if m \<le> h then [] else flags_between bm h t)"
proof (cases "h < m \<and> m \<le> t")
  case True
  then have "[h..<t] = [h..<m] @ [m..<t]" using upt_add_eq_append [of h m "t - m"] by simp
  moreover have "filter (flag_at bm) [m..<t] = []"
    using assms True by (auto simp: filter_empty_conv)
  ultimately show ?thesis using True by (simp add: flags_between_def)
qed (use assms in \<open>auto simp: flags_between_def filter_empty_conv\<close>)

lemma flags_between_first:
  assumes "h < t" and "flag_at bm h"
  shows "flags_between bm h t = h # flags_between bm (Suc h) t"
  using assms by (simp add: flags_between_def upt_conv_Cons)

lemma flags_between_last:
  assumes "h \<le> t" and "flag_at bm t"
  shows "flags_between bm h (Suc t) = flags_between bm h t @ [t]"
  using assms by (simp add: flags_between_def)

text \<open>The flags from \<open>h\<close> to the end of its word are the bits of the shifted word.\<close>

lemma div_mod_same_word:
  assumes "j < 64 - h mod (64 :: nat)"
  shows "(h + j) mod 64 = h mod 64 + j" and "(h + j) div 64 = h div 64"
proof -
  have "h + j = (h mod 64 + j) + h div 64 * 64" by simp
  moreover have "h mod 64 + j < 64" using assms by simp
  ultimately show "(h + j) mod 64 = h mod 64 + j" and "(h + j) div 64 = h div 64"
    by (metis mod_mult_self1 mod_less, metis div_mult_self1 div_less add_0_right zero_neq_numeral)
qed

lemma bit_word_from:
  assumes "h div 64 < length bm" and "j < 64 - h mod 64"
  shows "bit (drop_bit (h mod 64) (bm ! (h div 64))) j \<longleftrightarrow> flag_at bm (h + j)"
  using assms(1) div_mod_same_word [OF assms(2)] by (simp add: flag_at_def bit_drop_bit_eq)

text \<open>The flags up to \<open>t\<close> from the start of its word, read from the top of the shifted word.\<close>

lemma bit_word_upto:
  assumes "t div 64 < length bm" and "j \<le> t mod 64"
  shows "bit (push_bit (64 - (t mod 64 + 1)) (bm ! (t div 64)) :: usize) (63 - j) \<longleftrightarrow> flag_at bm (t - j)"
proof -
  obtain k where k: "k = t mod 64" "k < 64" by simp
  have "k - j < 64 - (t - k) mod 64" and tj: "t - j = (t - k) + (k - j)"
    using assms(2) k by (simp_all add: minus_mod_eq_mult_div)
  then have "(t - j) mod 64 = k - j" and "(t - j) div 64 = t div 64"
    unfolding tj by (subst div_mod_same_word; simp add: k minus_mod_eq_mult_div)+
  moreover have "63 - j - (63 - k) = k - j" and "63 - k \<le> 63 - j" and "63 - j < 64"
    using assms(2) k by simp_all
  ultimately show ?thesis
    using assms(1) by (simp add: flag_at_def bit_push_bit_iff flip: k(1) del: diff_diff_left)
qed

section \<open>Both ends of one sequence\<close>

text \<open>What an iterator still has to return: the indexes, and the items in their slots.\<close>

definition iter_rest :: "'a cslab_storage \<Rightarrow> iter \<Rightarrow> nat list" where
  "iter_rest st it = flags_between (st_bitmap st) (unat (it_head it)) (unat (it_tail it))"

definition iter_ok :: "'a cslab_storage \<Rightarrow> iter \<Rightarrow> bool" where
  "iter_ok st it \<longleftrightarrow> storage_wf st \<and> unat (it_tail it) \<le> unat (st_size st) \<and>
     unat (it_head it) \<le> unat (it_tail it)"

definition item_of :: "'a cslab_storage \<Rightarrow> nat \<Rightarrow> usize \<times> 'a" where
  "item_of st i = (word_of_nat i, the (slot_at st i))"

lemma next_word:
  assumes "h div 64 < length bm" and "bme = drop_bit (h mod 64) (bm ! (h div 64))"
    and "d = (if bme = 0 then 64 - h mod 64 else trailing_zeros bme)"
  shows "j < d \<Longrightarrow> \<not> flag_at bm (h + j)" and "bme \<noteq> 0 \<Longrightarrow> flag_at bm (h + d)"
    and "d \<le> 64 - h mod 64"
proof -
  have d: "d < 64 - h mod 64" if "bme \<noteq> 0"
    using trailing_zeros_spec(2) [OF that] assms(2,3) that bit_imp_le_length
    by (fastforce simp: bit_drop_bit_eq)
  show "\<not> flag_at bm (h + j)" if "j < d"
    using that d trailing_zeros_spec(3) [of bme j] bit_word_from [OF assms(1), of j] assms(2,3)
    by (cases "bme = 0") auto
  show "flag_at bm (h + d)" if "bme \<noteq> 0"
    using that d trailing_zeros_spec(2) [of bme] bit_word_from [OF assms(1), of d] assms(2,3) by auto
  show "d \<le> 64 - h mod 64" using d assms(3) by (cases "bme = 0") auto
qed

lemma back_word:
  assumes "t div 64 < length bm" and "bme = push_bit (64 - (t mod 64 + 1)) (bm ! (t div 64))"
    and "d = (if bme = 0 then t mod 64 + 1 else leading_zeros bme)"
  shows "j < d \<Longrightarrow> \<not> flag_at bm (t - j)" and "bme \<noteq> 0 \<Longrightarrow> flag_at bm (t - d)"
    and "d \<le> t mod 64 + 1"
proof -
  have d: "d \<le> t mod 64" if "bme \<noteq> 0"
  proof (rule ccontr)
    assume "\<not> d \<le> t mod 64"
    moreover have "t mod 64 < 64" by simp
    ultimately have "63 - d < 64 - (t mod 64 + 1)" using leading_zeros_spec(1) [OF that] assms(3) that
      by (auto split: if_splits)
    then have "\<not> bit bme (63 - d)" unfolding assms(2) by (simp add: bit_push_bit_iff)
    then show False using leading_zeros_spec(2) [OF that] assms(3) that by simp
  qed
  show "\<not> flag_at bm (t - j)" if "j < d"
    using that d leading_zeros_spec(3) [of bme j] bit_word_upto [OF assms(1), of j] assms(2,3)
    by (cases "bme = 0") auto
  show "flag_at bm (t - d)" if "bme \<noteq> 0"
    using that d leading_zeros_spec(2) [of bme] bit_word_upto [OF assms(1), of d] assms(2,3) by auto
  show "d \<le> t mod 64 + 1" using d assms(3) by (cases "bme = 0") auto
qed

lemma next_distance_eq:
  assumes "bme = drop_bit (unat head mod 64) w"
  shows "unat (next_distance bme head) = (if bme = 0 then 64 - unat head mod 64 else trailing_zeros bme)"
  using trailing_zeros_spec(1) [of bme]
  by (auto simp: next_distance_def distance_to_next_word intro!: unat_of_nat_small)

lemma back_distance_eq:
  "unat (back_distance bme t1) = (if bme = 0 then unat t1 mod 64 + 1 else leading_zeros bme)"
  using leading_zeros_spec(1) [of bme]
  by (auto simp: back_distance_def distance_to_word_start intro!: unat_of_nat_small)

text \<open>What one call has to deliver at the front, given the indexes that are left.\<close>

fun front_result :: "'a cslab_storage \<Rightarrow> iter \<Rightarrow> nat list \<Rightarrow> iter \<times> (usize \<times> 'a) option" where
  "front_result st it [] = (it\<lparr>it_head := it_tail it\<rparr>, None)"
| "front_result st it (i # is) = (it\<lparr>it_head := word_of_nat (Suc i)\<rparr>, Some (item_of st i))"

definition back_result :: "'a cslab_storage \<Rightarrow> iter \<Rightarrow> nat list \<Rightarrow> iter \<times> (usize \<times> 'a) option" where
  "back_result st it is =
     (if is = [] then (it\<lparr>it_tail := it_head it\<rparr>, None)
      else (it\<lparr>it_tail := word_of_nat (last is)\<rparr>, Some (item_of st (last is))))"

lemma flagged_item:
  assumes "storage_wf st" and "flag_at (st_bitmap st) (unat i)"
  shows "get_unchecked_impl st i = Inr (the (slot_at st (unat i)))" and "unat i < 2 ^ 60"
  using assms storage_wf_dests(1,6,7) [OF assms(1)] get_unchecked_impl_eq [of st i]
  by (fastforce, meson less_trans)

text \<open>One pass of either loop: a stretch without flags, and a flag behind it unless the rest of the
  word is empty.\<close>

lemma iter_next_pass:
  assumes "iter_ok st it" and lt: "unat (it_head it) < unat (it_tail it)"
  obtains d bme where
    "iter_next_loop st it =
       (if \<not> unat (it_head it) + unat d < unat (it_tail it) then Inr (it\<lparr>it_head := it_tail it\<rparr>, None)
        else rbind (uadd (it_head it) d) (\<lambda>h.
          if bme \<noteq> (0 :: usize) then rbind (uadd h 1) (\<lambda>h1. rbind (get_unchecked_impl st h) (\<lambda>v.
              Inr (it\<lparr>it_head := h1\<rparr>, Some (h, v))))
          else iter_next_loop st (it\<lparr>it_head := h\<rparr>)))"
    and "\<And>i. unat (it_head it) \<le> i \<Longrightarrow> i < unat (it_head it) + unat d \<Longrightarrow> \<not> flag_at (st_bitmap st) i"
    and "bme \<noteq> 0 \<Longrightarrow> flag_at (st_bitmap st) (unat (it_head it) + unat d)"
    and "bme = 0 \<Longrightarrow> 0 < unat d"
proof -
  let ?h = "unat (it_head it)" and ?t = "unat (it_tail it)" and ?bm = "st_bitmap st"
  have st: "storage_wf st" and le: "?t \<le> unat (st_size st)" using assms(1) by (auto simp: iter_ok_def)
  note load = load_flags_ok [OF st less_le_trans [OF lt le]]
  obtain bme where bme: "bme = drop_bit (?h mod 64) (?bm ! (?h div 64))" by simp
  obtain d where d: "d = next_distance bme (it_head it)" by simp
  note word = next_word [OF load(2) bme next_distance_eq [OF bme, folded d]]
  have rem: "usub (it_tail it) (it_head it) = Inr (it_tail it - it_head it)"
    and urem: "d \<ge> it_tail it - it_head it \<longleftrightarrow> \<not> ?h + unat d < ?t"
    using lt by (auto simp: usub_ok unat_sub_no_wrap word_le_nat_alt)
  show thesis
  proof (rule that [of d bme])
    show "\<not> flag_at ?bm i" if "?h \<le> i" "i < ?h + unat d" for i
      using word(1) [of "i - ?h"] that by simp
    show "flag_at ?bm (?h + unat d)" if "bme \<noteq> 0" using word(2) [OF that] .
    show "0 < unat d" if "bme = 0" using that next_distance_eq [OF bme] by (simp add: d)
  qed (subst iter_next_loop.simps,
      simp add: load(1) rem Let_def unat_mod urem flip: bme d)
qed

lemma iter_next_loop_eq:
  assumes "iter_ok st it" and "unat (it_head it) < unat (it_tail it)"
  shows "iter_next_loop st it = Inr (front_result st it (iter_rest st it))"
  using assms
proof (induction "unat (it_tail it) - unat (it_head it)" arbitrary: it rule: less_induct)
  case less
  let ?h = "unat (it_head it)" and ?t = "unat (it_tail it)" and ?bm = "st_bitmap st"
  have st: "storage_wf st" and le: "?t \<le> unat (st_size st)"
    using less.prems by (auto simp: iter_ok_def)
  then have small: "?t < 2 ^ 60" using storage_wf_dests(1) [OF st] by simp
  obtain d bme where step: "iter_next_loop st it =
       (if \<not> ?h + unat d < ?t then Inr (it\<lparr>it_head := it_tail it\<rparr>, None)
        else rbind (uadd (it_head it) d) (\<lambda>h.
          if bme \<noteq> (0 :: usize) then rbind (uadd h 1) (\<lambda>h1. rbind (get_unchecked_impl st h) (\<lambda>v.
              Inr (it\<lparr>it_head := h1\<rparr>, Some (h, v))))
          else iter_next_loop st (it\<lparr>it_head := h\<rparr>)))"
    and gap: "\<And>i. ?h \<le> i \<Longrightarrow> i < ?h + unat d \<Longrightarrow> \<not> flag_at ?bm i"
    and hit: "bme \<noteq> 0 \<Longrightarrow> flag_at ?bm (?h + unat d)" and progress: "bme = 0 \<Longrightarrow> 0 < unat d"
    by (rule iter_next_pass [OF less.prems]) (rule that)
  have rest: "iter_rest st it = (if ?h + unat d < ?t then flags_between ?bm (?h + unat d) ?t else [])"
    using flags_between_skip [of ?h "?h + unat d" ?t ?bm] gap by (auto simp: iter_rest_def)
  show ?case
  proof (cases "?h + unat d < ?t")
    case False
    with step rest show ?thesis by simp
  next
    case True
    then have h: "uadd (it_head it) d = Inr (it_head it + d)"
      and uh: "unat (it_head it + d) = ?h + unat d"
      using small by (simp_all add: uadd_def unat_add_no_wrap)
    let ?it = "it\<lparr>it_head := it_head it + d\<rparr>"
    show ?thesis
    proof (cases "bme = 0")
      case empty: True
      then have "iter_next_loop st ?it = Inr (front_result st ?it (iter_rest st ?it))"
        using True progress st le uh by (intro less.hyps) (simp_all add: iter_ok_def)
      moreover have "iter_rest st ?it = iter_rest st it"
        using rest uh True by (simp add: iter_rest_def)
      ultimately show ?thesis
        using step h empty True by (cases "iter_rest st it") simp_all
    next
      case nz: False
      then have flag: "flag_at ?bm (unat (it_head it + d))" using hit uh by simp
      have "it_head it + d + 1 = word_of_nat (Suc (?h + unat d))" by simp
      with flagged_item [OF st flag] usize_succ [OF flagged_item(2) [OF st flag]] step h True nz rest
      show ?thesis
        using flags_between_first [OF True, of ?bm] flag uh by (simp add: item_of_def)
    qed
  qed
qed

lemma iter_back_pass:
  assumes "iter_ok st it" and lt: "unat (it_head it) < unat (it_tail it)"
  obtains d bme where
    "iter_next_back_loop st it =
       (if \<not> unat (it_head it) + unat d < unat (it_tail it) then Inr (it\<lparr>it_tail := it_head it\<rparr>, None)
        else rbind (usub (it_tail it) d) (\<lambda>t.
          if bme \<noteq> (0 :: usize) then rbind (usub t 1) (\<lambda>t2. rbind (get_unchecked_impl st t2) (\<lambda>v.
              Inr (it\<lparr>it_tail := t2\<rparr>, Some (t2, v))))
          else iter_next_back_loop st (it\<lparr>it_tail := t\<rparr>)))"
    and "\<And>i. unat (it_tail it) \<le> i + unat d \<Longrightarrow> i < unat (it_tail it) \<Longrightarrow> \<not> flag_at (st_bitmap st) i"
    and "bme \<noteq> 0 \<Longrightarrow> flag_at (st_bitmap st) (unat (it_tail it) - 1 - unat d)"
    and "bme = 0 \<Longrightarrow> 0 < unat d"
proof -
  let ?h = "unat (it_head it)" and ?t = "unat (it_tail it)" and ?bm = "st_bitmap st"
  let ?t1 = "it_tail it - 1"
  have st: "storage_wf st" and le: "?t \<le> unat (st_size st)" using assms(1) by (auto simp: iter_ok_def)
  have t1: "usub (it_tail it) 1 = Inr ?t1" "unat ?t1 = ?t - 1"
    using lt by (simp_all add: usub_ok unat_sub_no_wrap)
  then have "unat ?t1 < unat (st_size st)" using lt le by simp
  note load = load_flags_ok [OF st this]
  obtain bme where bme: "bme = push_bit (64 - (unat ?t1 mod 64 + 1)) (?bm ! (unat ?t1 div 64))" by simp
  obtain d where d: "d = back_distance bme ?t1" by simp
  note word = back_word [OF load(2) bme back_distance_eq [of bme ?t1, folded d]]
  have rem: "usub (it_tail it) (it_head it) = Inr (it_tail it - it_head it)"
    and urem: "d \<ge> it_tail it - it_head it \<longleftrightarrow> \<not> ?h + unat d < ?t"
    using lt by (auto simp: usub_ok unat_sub_no_wrap word_le_nat_alt)
  show thesis
  proof (rule that [of d bme])
    show "\<not> flag_at ?bm i" if "?t \<le> i + unat d" "i < ?t" for i
      using word(1) [of "?t - 1 - i"] that t1(2) by simp
    show "flag_at ?bm (?t - 1 - unat d)" if "bme \<noteq> 0" using word(2) [OF that] t1(2) by simp
    show "0 < unat d" if "bme = 0" using that back_distance_eq [of bme ?t1] by (simp add: d)
  qed (subst iter_next_back_loop.simps,
      simp add: t1(1) load(1) rem Let_def unat_mod urem flip: bme [simplified] d)
qed

lemma iter_next_back_loop_eq:
  assumes "iter_ok st it" and "unat (it_head it) < unat (it_tail it)"
  shows "iter_next_back_loop st it = Inr (back_result st it (iter_rest st it))"
  using assms
proof (induction "unat (it_tail it) - unat (it_head it)" arbitrary: it rule: less_induct)
  case less
  let ?h = "unat (it_head it)" and ?t = "unat (it_tail it)" and ?bm = "st_bitmap st"
  have st: "storage_wf st" and le: "?t \<le> unat (st_size st)"
    using less.prems by (auto simp: iter_ok_def)
  obtain d bme where step: "iter_next_back_loop st it =
       (if \<not> ?h + unat d < ?t then Inr (it\<lparr>it_tail := it_head it\<rparr>, None)
        else rbind (usub (it_tail it) d) (\<lambda>t.
          if bme \<noteq> (0 :: usize) then rbind (usub t 1) (\<lambda>t2. rbind (get_unchecked_impl st t2) (\<lambda>v.
              Inr (it\<lparr>it_tail := t2\<rparr>, Some (t2, v))))
          else iter_next_back_loop st (it\<lparr>it_tail := t\<rparr>)))"
    and gap: "\<And>i. ?t \<le> i + unat d \<Longrightarrow> i < ?t \<Longrightarrow> \<not> flag_at ?bm i"
    and hit: "bme \<noteq> 0 \<Longrightarrow> flag_at ?bm (?t - 1 - unat d)" and progress: "bme = 0 \<Longrightarrow> 0 < unat d"
    by (rule iter_back_pass [OF less.prems]) (rule that)
  have rest: "iter_rest st it = (if ?h + unat d < ?t then flags_between ?bm ?h (?t - unat d) else [])"
    using flags_between_skip_back [of "?t - unat d" ?h ?t ?bm] gap
    by (cases "?h + unat d < ?t") (simp_all add: iter_rest_def less_diff_conv le_diff_conv not_less)
  show ?case
  proof (cases "?h + unat d < ?t")
    case False
    with step rest show ?thesis by (simp add: back_result_def)
  next
    case True
    then have t: "usub (it_tail it) d = Inr (it_tail it - d)"
      and ut: "unat (it_tail it - d) = ?t - unat d"
      by (simp_all add: usub_def unat_sub_no_wrap)
    let ?it = "it\<lparr>it_tail := it_tail it - d\<rparr>"
    show ?thesis
    proof (cases "bme = 0")
      case empty: True
      then have "iter_next_back_loop st ?it = Inr (back_result st ?it (iter_rest st ?it))"
        using True progress st le ut by (intro less.hyps) (auto simp: iter_ok_def)
      moreover have "iter_rest st ?it = iter_rest st it"
        using rest ut True by (simp add: iter_rest_def)
      ultimately show ?thesis
        using step t empty True by (simp add: back_result_def)
    next
      case nz: False
      let ?i = "it_tail it - d - 1"
      have ui: "usub (it_tail it - d) 1 = Inr ?i" "unat ?i = ?t - 1 - unat d"
        using True ut by (simp_all add: usub_ok unat_sub_no_wrap)
      then have flag: "flag_at ?bm (unat ?i)" using hit nz by simp
      have "iter_rest st it = flags_between ?bm ?h (Suc (unat ?i))"
        using rest True ui(2) by (simp add: Suc_diff_Suc)
      moreover have "?h \<le> unat ?i" using True ui(2) by simp
      ultimately have "last (iter_rest st it) = unat ?i" and "iter_rest st it \<noteq> []"
        using flags_between_last [OF _ flag] by auto
      with flagged_item [OF st flag] step t ui(1) True nz show ?thesis
        by (simp add: item_of_def back_result_def)
    qed
  qed
qed

definition iter_items :: "'a cslab_storage \<Rightarrow> iter \<Rightarrow> (usize \<times> 'a) list" where
  "iter_items st it = map (item_of st) (iter_rest st it)"

lemma flags_between_Cons:
  assumes "flags_between bm h t = i # is"
  shows "h \<le> i" and "i < t" and "is = flags_between bm (Suc i) t"
proof -
  have "i \<in> set (flags_between bm h t)" using assms by simp
  then have flag: "flag_at bm i" and i: "h \<le> i" "i < t" by (auto simp: flags_between_def)
  then show "h \<le> i" and "i < t" by blast+
  from i have split: "[h..<t] = [h..<i] @ i # [Suc i..<t]"
    using upt_add_eq_append [of h i "t - i"] by (simp add: upt_conv_Cons)
  have "filter (flag_at bm) [h..<i] = []"
  proof (rule ccontr)
    assume "filter (flag_at bm) [h..<i] \<noteq> []"
    then obtain x xs where xs: "filter (flag_at bm) [h..<i] = x # xs" by (cases "filter (flag_at bm) [h..<i]") auto
    then have "x \<in> set [h..<i]" by (metis filter_is_subset in_mono list.set_intros(1))
    moreover have "x = i" using assms split xs by (simp add: flags_between_def)
    ultimately show False by simp
  qed
  then show "is = flags_between bm (Suc i) t"
    using assms split flag by (simp add: flags_between_def)
qed

lemma flags_between_snoc:
  assumes "flags_between bm h t \<noteq> []"
  shows "h \<le> last (flags_between bm h t)" and "last (flags_between bm h t) < t"
    and "butlast (flags_between bm h t) = flags_between bm h (last (flags_between bm h t))"
proof -
  let ?i = "last (flags_between bm h t)"
  have "?i \<in> set (flags_between bm h t)" using assms by simp
  then have bounds: "h \<le> ?i" "?i < t" and flag: "flag_at bm ?i" by (auto simp: flags_between_def)
  then show "h \<le> ?i" and "?i < t" by blast+
  have sorted: "sorted_wrt (<) (flags_between bm h t)"
    by (simp add: flags_between_def sorted_wrt_filter)
  have "\<not> flag_at bm j" if "Suc ?i \<le> j" "h \<le> j" "j < t" for j
  proof
    assume "flag_at bm j"
    with that have "j \<in> set (flags_between bm h t)" by (simp add: flags_between_def)
    moreover obtain xs where xs: "flags_between bm h t = xs @ [?i]"
      using append_butlast_last_id [OF assms] by metis
    ultimately have "j \<in> insert ?i (set xs)" and "\<forall>x \<in> set xs. x < ?i"
      using sorted by (metis set_append list.simps(15) list.set(1) Un_insert_right sup_bot_right,
          metis sorted_wrt_append list.set_intros(1))
    then have "j \<le> ?i" by auto
    with that show False by simp
  qed
  then have "flags_between bm h t = flags_between bm h (Suc ?i)"
    using flags_between_skip_back [of "Suc ?i" h t bm] bounds by simp
  then show "butlast (flags_between bm h t) = flags_between bm h ?i"
    using flags_between_last [OF bounds(1) flag] by (metis butlast_snoc)
qed

lemma word_of_index:
  assumes "iter_ok st it" and "i < unat (it_tail it)"
  shows "unat (word_of_nat i :: usize) = i" and "unat (word_of_nat (Suc i) :: usize) = Suc i"
proof -
  have "Suc i < 2 ^ 64" using assms storage_wf_dests(1) [of st] by (auto simp: iter_ok_def)
  then show "unat (word_of_nat i :: usize) = i" and "unat (word_of_nat (Suc i) :: usize) = Suc i"
    using unat_of_nat_small [of i, where 'n = 64] unat_of_nat_small [of "Suc i", where 'n = 64] by simp_all
qed

lemma iter_next_rest:
  assumes "iter_ok st it"
  shows "\<exists>it'. iter_next st it =
      Inr (it', case iter_rest st it of [] \<Rightarrow> None | i # _ \<Rightarrow> Some (item_of st i)) \<and>
    iter_ok st it' \<and> iter_rest st it' = tl (iter_rest st it)"
proof (cases "unat (it_head it) < unat (it_tail it)")
  case False
  then have "iter_next st it = Inr (it, None)" and "iter_rest st it = []"
    by (simp_all add: iter_next_def word_le_nat_alt iter_rest_def flags_between_def)
  with assms show ?thesis by auto
next
  case True
  then have run: "iter_next st it = Inr (front_result st it (iter_rest st it))"
    using iter_next_loop_eq [OF assms] by (simp add: iter_next_def word_le_nat_alt not_le)
  show ?thesis
  proof (cases "iter_rest st it")
    case Nil
    with run assms show ?thesis
      by (auto simp: iter_rest_def iter_ok_def flags_between_def)
  next
    case (Cons i "is")
    note split = flags_between_Cons [OF Cons [unfolded iter_rest_def]]
    with run Cons assms word_of_index [OF assms split(2)] show ?thesis
      by (auto simp: iter_ok_def iter_rest_def)
  qed
qed

lemma iter_next_back_rest:
  assumes "iter_ok st it"
  shows "\<exists>it'. iter_next_back st it =
      Inr (it', if iter_rest st it = [] then None else Some (item_of st (last (iter_rest st it)))) \<and>
    iter_ok st it' \<and> iter_rest st it' = butlast (iter_rest st it)"
proof (cases "unat (it_head it) < unat (it_tail it)")
  case False
  then have "iter_next_back st it = Inr (it, None)" and "iter_rest st it = []"
    by (simp_all add: iter_next_back_def word_le_nat_alt iter_rest_def flags_between_def)
  with assms show ?thesis by auto
next
  case True
  then have run: "iter_next_back st it = Inr (back_result st it (iter_rest st it))"
    using iter_next_back_loop_eq [OF assms] by (simp add: iter_next_back_def word_le_nat_alt not_le)
  show ?thesis
  proof (cases "iter_rest st it = []")
    case True
    with run assms show ?thesis
      by (auto simp: iter_rest_def iter_ok_def flags_between_def back_result_def)
  next
    case False
    note split = flags_between_snoc [OF False [unfolded iter_rest_def]]
    with run False assms word_of_index [OF assms split(2)] show ?thesis
      by (auto simp: iter_ok_def iter_rest_def back_result_def)
  qed
qed

lemma iter_next_ok:
  assumes "iter_ok st it"
  shows "\<exists>it'. iter_next st it = Inr (it', case iter_items st it of [] \<Rightarrow> None | x # _ \<Rightarrow> Some x) \<and>
    iter_ok st it' \<and> iter_items st it' = tl (iter_items st it)"
  using iter_next_rest [OF assms]
  by (cases "iter_rest st it") (auto simp: iter_items_def)

lemma iter_next_back_ok:
  assumes "iter_ok st it"
  shows "\<exists>it'. iter_next_back st it =
      Inr (it', if iter_items st it = [] then None else Some (last (iter_items st it))) \<and>
    iter_ok st it' \<and> iter_items st it' = butlast (iter_items st it)"
  using iter_next_back_rest [OF assms]
  by (auto simp: iter_items_def last_map map_butlast)

interpretation iter: double_ended iter_ok iter_items iter_next iter_next_back
  by unfold_locales (rule iter_next_ok, assumption, rule iter_next_back_ok, assumption)

definition excl_iter_ok :: "'a cslab_storage \<Rightarrow> excl_iter \<Rightarrow> bool" where
  "excl_iter_ok st e = iter_ok st (ex_iter e)"

definition excl_iter_items :: "'a cslab_storage \<Rightarrow> excl_iter \<Rightarrow> (usize \<times> 'a) list" where
  "excl_iter_items st e = iter_items st (ex_iter e)"

interpretation excl_iter: double_ended excl_iter_ok excl_iter_items excl_iter_next excl_iter_next_back
proof unfold_locales
  fix st :: "'a cslab_storage" and e
  assume "excl_iter_ok st e"
  then have ok: "iter_ok st (ex_iter e)" by (simp add: excl_iter_ok_def)
  show "\<exists>e'. excl_iter_next st e = Inr (e', case excl_iter_items st e of [] \<Rightarrow> None | x # _ \<Rightarrow> Some x) \<and>
      excl_iter_ok st e' \<and> excl_iter_items st e' = tl (excl_iter_items st e)"
    using iter_next_ok [OF ok]
    by (auto simp: excl_iter_next_def excl_iter_ok_def excl_iter_items_def split: list.splits)
  show "\<exists>e'. excl_iter_next_back st e =
        Inr (e', if excl_iter_items st e = [] then None else Some (last (excl_iter_items st e))) \<and>
      excl_iter_ok st e' \<and> excl_iter_items st e' = butlast (excl_iter_items st e)"
    using iter_next_back_ok [OF ok]
    by (auto simp: excl_iter_next_back_def excl_iter_ok_def excl_iter_items_def)
qed

section \<open>What an iteration visits\<close>

text \<open>The visible items in index order.\<close>

definition visible_items :: "'a cslab_storage \<Rightarrow> (usize \<times> 'a) list" where
  "visible_items st = map (item_of st) (flags_between (st_bitmap st) 0 (unat (st_size st)))"

lemma iter_new_ok:
  assumes "storage_wf st"
  shows "\<exists>it. iter_new st = Inr it \<and> iter_ok st it \<and> iter_items st it = visible_items st"
proof -
  note wf = storage_wf_dests(4,5) [OF assms]
  have "flags_between (st_bitmap st) 0 (unat (st_size st)) =
      flags_between (st_bitmap st) 0 (unat (st_frontier st))"
    using flags_between_skip_back [of "unat (st_frontier st)" 0 "unat (st_size st)" "st_bitmap st"] wf
    by (cases "0 < unat (st_frontier st)") (fastforce simp: flags_between_def filter_empty_conv)+
  with wf(1) assms show ?thesis
    by (simp add: iter_new_def word_le_nat_alt iter_ok_def iter_items_def visible_items_def iter_rest_def)
qed

lemma visible_items_exact:
  assumes "storage_wf st"
  shows "(i, v) \<in> set (visible_items st) \<longleftrightarrow> visible_at st (unat i) = Some v"
    and "distinct (map fst (visible_items st))" and "sorted_wrt (<) (map (unat \<circ> fst) (visible_items st))"
proof -
  let ?fl = "flags_between (st_bitmap st) 0 (unat (st_size st))"
  have small: "unat (word_of_nat j :: usize) = j" if "j < unat (st_size st)" for j
    using that storage_wf_dests(1) [OF assms] by (intro unat_of_nat_small) simp
  then have idx: "map (unat \<circ> fst) (visible_items st) = ?fl"
    by (auto simp: visible_items_def item_of_def flags_between_def intro!: map_idI)
  then show sorted: "sorted_wrt (<) (map (unat \<circ> fst) (visible_items st))"
    by (simp add: flags_between_def sorted_wrt_filter)
  from idx have "distinct (map unat (map fst (visible_items st)))" by (simp add: flags_between_def)
  then show "distinct (map fst (visible_items st))" by (simp only: distinct_map)
  show "(i, v) \<in> set (visible_items st) \<longleftrightarrow> visible_at st (unat i) = Some v"
    using storage_wf_dests(6,7) [OF assms, of "unat i"] small
    by (force simp: visible_items_def item_of_def flags_between_def visible_at_def image_iff)
qed

lemma storage_drop_eq:
  assumes "storage_wf st" and "storage_layout ent (st_size st) = Inr lay"
  shows "storage_drop ent st = Some (Inr (map snd (visible_items st)))"
  using iter_new_ok [OF assms(1)] iter.for_each_collects [of st _ "[]"] assms(2)
  by (auto simp: storage_drop_def)

lemma visible_items_count:
  assumes "cslab_wf s"
  shows "length (visible_items (storage s)) = unat (in_use s)"
proof -
  let ?fl = "flags_between (st_bitmap (storage s)) 0 (unat (st_size (storage s)))"
  have "set ?fl = {i. flag_at (st_bitmap (storage s)) i}"
    using storage_wf_dests(7) [OF cslab_wf_storage [OF assms]] by (auto simp: flags_between_def)
  moreover have "distinct ?fl" by (simp add: flags_between_def)
  ultimately show ?thesis
    using assms by (simp add: visible_items_def cslab_wf_def flip: distinct_card)
qed

end
