(* ===== verification/Rcu_Cslab.thy ===== *)
theory Rcu_Cslab
  imports Cslab_Iter
begin

text \<open>
  \<open>RcuCslab\<close> of \<open>src/cslab/src/lib.rs\<close>: a slab whose removals are finalized by the drop of
  reference-counted generations. The generations are a heap of cells with explicit strong counts,
  so that the last release of a generation, its drop, and the release of the next generation it
  keeps alive are steps of the model. Mutexes are their contents and a poison flag; an action
  returns the state it reaches also when it panics.
\<close>

section \<open>State\<close>

text \<open>\<open>RcuCslabGen\<close>: the strong count of its \<open>Arc\<close>, and the contents and the poison flag of \<open>inner\<close>.\<close>

record gen =
  g_strong :: nat
  g_pending :: "usize list"
  g_next :: "nat option"
  g_poisoned :: bool

text \<open>
  \<open>rc_gens\<close> is the heap of generations (\<open>None\<close> once freed), \<open>rc_cur\<close> the slab's reference to
  the current one, \<open>rc_owner\<close> whether the \<open>RcuCslab\<close> itself is still there; \<open>rc_writer\<close> and
  \<open>rc_poisoned\<close> are the writer's mutex; \<open>rc_dropped\<close> is every item dropped so far, in order.
  The lock-free \<open>CslabReader\<close> shares the writer's storage.
\<close>

record 'a rcu =
  rc_capacity :: usize
  rc_writer :: "'a cslab"
  rc_poisoned :: bool
  rc_gens :: "gen option list"
  rc_cur :: nat
  rc_owner :: bool
  rc_dropped :: "'a list"

abbreviation rcu_storage :: "'a rcu \<Rightarrow> 'a cslab_storage" where
  "rcu_storage s \<equiv> storage (rc_writer s)"

definition gen_at :: "'a rcu \<Rightarrow> nat \<Rightarrow> gen option" where
  "gen_at s g = (if g < length (rc_gens s) then rc_gens s ! g else None)"

definition set_gen :: "nat \<Rightarrow> gen option \<Rightarrow> 'a rcu \<Rightarrow> 'a rcu" where
  "set_gen g x s = s\<lparr>rc_gens := (rc_gens s)[g := x]\<rparr>"

definition new_gen :: gen where
  "new_gen = \<lparr>g_strong = 1, g_pending = [], g_next = None, g_poisoned = False\<rparr>"

section \<open>Locks\<close>

text \<open>\<open>writer.lock().unwrap()\<close> for the duration of \<open>f\<close>: a panic inside poisons the mutex.\<close>

definition with_writer :: "('a cslab, 'r) act \<Rightarrow> ('a rcu, 'r) act" where
  "with_writer f s =
     (if rc_poisoned s then (s, Inl Panic_poisoned)
      else case f (rc_writer s) of (w, r) \<Rightarrow>
        (s\<lparr>rc_writer := w, rc_poisoned := (case r of Inl _ \<Rightarrow> True | Inr _ \<Rightarrow> False)\<rparr>, r))"

definition with_inner :: "nat \<Rightarrow> (gen \<Rightarrow> gen res) \<Rightarrow> ('a rcu, unit) act" where
  "with_inner g f s =
     (case gen_at s g of
        None \<Rightarrow> (s, Inl Undefined)
      | Some gn \<Rightarrow>
          if g_poisoned gn then (s, Inl Panic_poisoned)
          else (case f gn of
            Inl e \<Rightarrow> (set_gen g (Some (gn\<lparr>g_poisoned := True\<rparr>)) s, Inl e)
          | Inr gn' \<Rightarrow> (set_gen g (Some gn') s, Inr ())))"

definition lift_writer :: "('a cslab \<Rightarrow> ('a cslab \<times> 'r) res) \<Rightarrow> ('a cslab, 'r) act" where
  "lift_writer f w = (case f w of Inl e \<Rightarrow> (w, Inl e) | Inr (w', x) \<Rightarrow> (w', Inr x))"

section \<open>Generations\<close>

definition gen_mark_removed :: "nat \<Rightarrow> usize \<Rightarrow> ('a rcu, unit) act" where
  "gen_mark_removed g idx =
     abind (with_writer (lift_writer (\<lambda>w. rbind (cslab_mark_removed w idx) (\<lambda>w'. Inr (w', ()))))) (\<lambda>_.
     with_inner g (\<lambda>gn. Inr (gn\<lparr>g_pending := g_pending gn @ [idx]\<rparr>)))"

fun finalize_list :: "usize list \<Rightarrow> ('a cslab, 'a list) act" where
  "finalize_list [] w = (w, Inr [])"
| "finalize_list (i # is) w =
     abind (lift_writer (\<lambda>w. cslab_finalize_remove w i)) (\<lambda>v. abind (finalize_list is) (\<lambda>vs. aret (v # vs))) w"

text \<open>\<open>Drop for RcuCslabGen\<close>: finalize under the writer's lock, drop the items outside it.\<close>

definition gen_drop :: "gen \<Rightarrow> ('a rcu, unit) act" where
  "gen_drop gn =
     abind (with_writer (if g_poisoned gn then (\<lambda>w. (w, Inl Panic_poisoned)) else finalize_list (g_pending gn)))
       (\<lambda>items s. (s\<lparr>rc_dropped := rc_dropped s @ items\<rparr>, Inr ()))"

definition arc_clone :: "nat \<Rightarrow> ('a rcu, unit) act" where
  "arc_clone g s =
     (case gen_at s g of
        None \<Rightarrow> (s, Inl Undefined)
      | Some gn \<Rightarrow> (set_gen g (Some (gn\<lparr>g_strong := g_strong gn + 1\<rparr>)) s, Inr ()))"

text \<open>
  Releasing a reference to a generation. The last one runs its drop, then drops its fields:
  the reference to the next generation goes last, and may be the last one of that generation.
\<close>

definition live_gens :: "'a rcu \<Rightarrow> nat set" where
  "live_gens s = {g. gen_at s g \<noteq> None}"

lemma finite_live [simp]: "finite (live_gens s)"
  by (rule finite_subset [where B = "{..<length (rc_gens s)}"]) (auto simp: live_gens_def gen_at_def split: if_splits)

lemma gen_at_set_gen:
  "gen_at (set_gen g x s) g' = (if g' = g \<and> g < length (rc_gens s) then x else gen_at s g')"
  by (cases "g' = g") (simp_all add: gen_at_def set_gen_def)

lemma gen_at_beyond: "\<not> g < length (rc_gens s) \<Longrightarrow> gen_at s g = None"
  by (simp add: gen_at_def)

lemma live_gens_free: "live_gens (set_gen g None s) = live_gens s - {g}"
  using gen_at_beyond [of g s] by (auto simp: live_gens_def gen_at_set_gen)

lemma gen_drop_gens: "gen_drop gn s = (s', r) \<Longrightarrow> rc_gens s' = rc_gens s"
  by (auto simp: gen_drop_def abind_def with_writer_def split: prod.splits sum.splits if_splits)

function arc_drop :: "nat \<Rightarrow> ('a rcu, unit) act" where
  "arc_drop g s =
     (case gen_at s g of
        None \<Rightarrow> (s, Inl Undefined)
      | Some gn \<Rightarrow>
          if g_strong gn > 1 then (set_gen g (Some (gn\<lparr>g_strong := g_strong gn - 1\<rparr>)) s, Inr ())
          else
            (case gen_drop gn s of (s1, r) \<Rightarrow>
              (case g_next gn of
                 None \<Rightarrow> (set_gen g None s1, r)
               | Some n \<Rightarrow>
                   (case arc_drop n (set_gen g None s1) of (s2, r') \<Rightarrow> (s2, unwind r r')))))"
  by pat_completeness auto
termination
proof (relation "measure (\<lambda>(g, s). card (live_gens s))", goal_cases)
  case 1
  show ?case by simp
next
  case (2 g s gn s1 r n)
  have "rc_gens s1 = rc_gens s" using 2 gen_drop_gens [of gn s s1 r] by simp
  then have "live_gens s1 = live_gens s" by (simp add: live_gens_def gen_at_def)
  then have "live_gens (set_gen g None s1) = live_gens s - {g}" by (simp add: live_gens_free)
  moreover have "g \<in> live_gens s" using 2 by (simp add: live_gens_def)
  ultimately show ?case using card_Diff1_less [OF finite_live, of g s] by simp
qed

declare arc_drop.simps [simp del]

section \<open>The slab\<close>

definition rcu_with_fixed_capacity :: "layout \<Rightarrow> usize \<Rightarrow> 'a rcu res" where
  "rcu_with_fixed_capacity ent capacity =
     rbind (cslab_with_fixed_capacity ent capacity) (\<lambda>w.
     Inr \<lparr>rc_capacity = capacity, rc_writer = w, rc_poisoned = False, rc_gens = [Some new_gen],
          rc_cur = 0, rc_owner = True, rc_dropped = []\<rparr>)"

definition rcu_len :: "('a rcu, usize) act" where
  "rcu_len = with_writer (\<lambda>w. (w, Inr (cslab_len w)))"

definition rcu_allocated :: "('a rcu, usize) act" where
  "rcu_allocated = with_writer (\<lambda>w. (w, Inr (cslab_allocated w)))"

definition rcu_get :: "'a rcu \<Rightarrow> usize \<Rightarrow> ('a option) res" where
  "rcu_get s idx = reader_get (rcu_storage s) idx"

definition rcu_iter :: "('a rcu, excl_iter) act" where
  "rcu_iter = abind rcu_len (\<lambda>n s. (s, excl_iter_new (rcu_storage s) n))"

text \<open>\<open>reader\<close> and the clone of a reader give a handle, which is the number of its generation.\<close>

definition rcu_reader :: "('a rcu, nat) act" where
  "rcu_reader s = abind (arc_clone (rc_cur s)) (\<lambda>_ s'. (s', Inr (rc_cur s'))) s"

definition rcu_reader_clone :: "nat \<Rightarrow> ('a rcu, nat) act" where
  "rcu_reader_clone g = abind (arc_clone g) (\<lambda>_. aret g)"

definition rcu_reader_get :: "'a rcu \<Rightarrow> nat \<Rightarrow> usize \<Rightarrow> ('a option) res" where
  "rcu_reader_get s g idx = reader_get (rcu_storage s) idx"

definition rcu_reader_contains_key :: "'a rcu \<Rightarrow> nat \<Rightarrow> usize \<Rightarrow> bool res" where
  "rcu_reader_contains_key s g idx = reader_contains_key (rcu_storage s) idx"

definition rcu_reader_get_unchecked :: "'a rcu \<Rightarrow> nat \<Rightarrow> usize \<Rightarrow> 'a res" where
  "rcu_reader_get_unchecked s g idx = reader_get_unchecked (rcu_storage s) idx"

definition rcu_reader_iter :: "'a rcu \<Rightarrow> nat \<Rightarrow> iter res" where
  "rcu_reader_iter s g = reader_iter (rcu_storage s)"

definition rcu_insert :: "'a \<Rightarrow> ('a rcu, unit + usize) act" where
  "rcu_insert item = with_writer (lift_writer (\<lambda>w. cslab_insert w item))"

definition rcu_vacant_key :: "('a rcu, unit + usize) act" where
  "rcu_vacant_key = with_writer (\<lambda>w. (w, Inr (cslab_vacant_key w)))"

text \<open>\<open>vacant_entry\<close> keeps the writer locked; \<open>VacantRcuEntry\<close> is that guard.\<close>

definition rcu_vacant_entry :: "('a rcu, unit + unit) act" where
  "rcu_vacant_entry =
     abind rcu_vacant_key (\<lambda>k. aret (case k of Inl _ \<Rightarrow> Inl () | Inr _ \<Rightarrow> Inr ()))"

definition vacant_rcu_entry_key :: "('a rcu, usize) act" where
  "vacant_rcu_entry_key = with_writer (\<lambda>w. (w, case cslab_vacant_key w of Inl _ \<Rightarrow> Inl Panic_unwrap | Inr i \<Rightarrow> Inr i))"

definition vacant_rcu_entry_insert :: "'a \<Rightarrow> ('a rcu, usize) act" where
  "vacant_rcu_entry_insert item = with_writer (lift_writer (\<lambda>w. vacant_entry_insert w item))"

definition rcu_mark_removed :: "usize \<Rightarrow> ('a rcu, unit) act" where
  "rcu_mark_removed idx s = gen_mark_removed (rc_cur s) idx s"

text \<open>
  \<open>advance_generation\<close>: a new generation, referenced by the previous one and by the slab, whose
  reference to the previous one is released. If the lock of the previous one panics, the new
  generation is released again.
\<close>

definition link_next :: "nat \<Rightarrow> gen \<Rightarrow> gen res" where
  "link_next n gn =
     rbind (rassert Panic_assert (g_next gn = None)) (\<lambda>_. Inr (gn\<lparr>g_next := Some n\<rparr>))"

definition advance_generation :: "('a rcu, unit) act" where
  "advance_generation s =
     (let n = length (rc_gens s); old = rc_cur s; s1 = s\<lparr>rc_gens := rc_gens s @ [Some new_gen]\<rparr> in
      case with_inner old (link_next n) s1 of (s2, r) \<Rightarrow>
        (case r of
           Inl e \<Rightarrow> (case arc_drop n s2 of (s3, r') \<Rightarrow> (s3, unwind (Inl e) r'))
         | Inr _ \<Rightarrow> abind (arc_clone n) (\<lambda>_ s3. arc_drop old (s3\<lparr>rc_cur := n\<rparr>)) s2))"

definition rcu_schedule_finalization :: "('a rcu, nat) act" where
  "rcu_schedule_finalization = abind advance_generation (\<lambda>_. rcu_reader)"

definition rcu_remove :: "usize \<Rightarrow> ('a rcu, nat) act" where
  "rcu_remove idx = abind (rcu_mark_removed idx) (\<lambda>_. rcu_schedule_finalization)"

section \<open>Removing while iterating\<close>

record rcu_iter_mut =
  rim_iter :: iter
  rim_remaining :: usize

record 'a rcu_entry =
  re_idx :: usize
  re_value :: 'a
  re_gen :: nat

definition rcu_iter_mut_new :: "('a rcu, rcu_iter_mut) act" where
  "rcu_iter_mut_new =
     abind rcu_len (\<lambda>n s. (s, rbind (iter_new (rcu_storage s)) (\<lambda>it. Inr \<lparr>rim_iter = it, rim_remaining = n\<rparr>)))"

text \<open>What \<open>next\<close> and \<open>next_back\<close> share: wrap what the inner iterator returned into a proxy.\<close>

definition rim_wrap :: "rcu_iter_mut \<Rightarrow> (iter \<times> (usize \<times> 'a) option) res \<Rightarrow>
    ('a rcu, rcu_iter_mut \<times> 'a rcu_entry option) act" where
  "rim_wrap rim x s =
     (case x of
        Inl e \<Rightarrow> (s, Inl e)
      | Inr (it, None) \<Rightarrow> (s, Inr (rim\<lparr>rim_iter := it\<rparr>, None))
      | Inr (it, Some (idx, v)) \<Rightarrow>
          (case usub (rim_remaining rim) 1 of
             Inl e \<Rightarrow> (s, Inl e)
           | Inr n \<Rightarrow> abind (arc_clone (rc_cur s)) (\<lambda>_ s'.
               (s', Inr (\<lparr>rim_iter = it, rim_remaining = n\<rparr>,
                         Some \<lparr>re_idx = idx, re_value = v, re_gen = rc_cur s\<rparr>))) s))"

definition rim_next :: "rcu_iter_mut \<Rightarrow> ('a rcu, rcu_iter_mut \<times> 'a rcu_entry option) act" where
  "rim_next rim s = rim_wrap rim (iter_next (rcu_storage s) (rim_iter rim)) s"

definition rim_next_back :: "rcu_iter_mut \<Rightarrow> ('a rcu, rcu_iter_mut \<times> 'a rcu_entry option) act" where
  "rim_next_back rim s = rim_wrap rim (iter_next_back (rcu_storage s) (rim_iter rim)) s"

definition rim_size_hint :: "rcu_iter_mut \<Rightarrow> usize \<times> usize option" where
  "rim_size_hint rim = (rim_remaining rim, Some (rim_remaining rim))"

definition rim_drop :: "('a rcu, unit) act" where
  "rim_drop = advance_generation"

definition entry_key :: "'a rcu_entry \<Rightarrow> usize" where
  "entry_key en = re_idx en"

definition entry_deref :: "'a rcu_entry \<Rightarrow> 'a" where
  "entry_deref en = re_value en"

definition entry_drop :: "'a rcu_entry \<Rightarrow> ('a rcu, unit) act" where
  "entry_drop en = arc_drop (re_gen en)"

text \<open>\<open>remove\<close> consumes the proxy: its reference is released on return and on a panic.\<close>

definition entry_remove :: "'a rcu_entry \<Rightarrow> ('a rcu, unit) act" where
  "entry_remove en = after (gen_mark_removed (re_gen en) (re_idx en)) (entry_drop en)"

text \<open>Every item a front iteration returns brings \<open>head\<close> closer to \<open>tail\<close>.\<close>

lemma iter_next_loop_progress:
  assumes "iter_next_loop st it = Inr (it', Some x)"
  shows "unat (it_tail it') - unat (it_head it') < unat (it_tail it) - unat (it_head it)"
  using assms
proof (induction st it rule: iter_next_loop.induct)
  case (1 st it)
  obtain w rem where w: "load_flags st (it_head it) = Inr w"
    and rem: "usub (it_tail it) (it_head it) = Inr rem"
    using "1.prems" by (subst (asm) iter_next_loop.simps) (auto simp: res_simps)
  define bme where "bme = drop_bit (unat (it_head it mod 64)) w"
  define d where "d = next_distance bme (it_head it)"
  have lt: "\<not> d \<ge> rem"
    using "1.prems" w rem by (subst (asm) iter_next_loop.simps) (auto simp: Let_def bme_def d_def split: if_splits)
  obtain h where h: "uadd (it_head it) d = Inr h"
    using "1.prems" w rem lt
    by (subst (asm) iter_next_loop.simps) (auto simp: Let_def res_simps simp flip: bme_def d_def)
  have bounds: "unat h = unat (it_head it) + unat d" "unat (it_tail it) = unat (it_head it) + unat rem"
    "unat d < unat rem"
    using h rem lt by (simp_all add: res_simps word_le_nat_alt)
  have eq: "iter_next_loop st it =
      (if bme \<noteq> 0 then rbind (uadd h 1) (\<lambda>h1. rbind (get_unchecked_impl st h) (\<lambda>v.
          Inr (it\<lparr>it_head := h1\<rparr>, Some (h, v))))
       else iter_next_loop st (it\<lparr>it_head := h\<rparr>))"
    using w rem lt h by (subst iter_next_loop.simps) (simp add: Let_def flip: bme_def d_def)
  show ?case
  proof (cases "bme = 0")
    case True
    then have "unat (it_tail it') - unat (it_head it') < unat (it_tail it) - unat h"
      using "1.IH" [OF w rem bme_def d_def lt h] eq "1.prems" by simp
    then show ?thesis using bounds by simp
  next
    case False
    then show ?thesis using "1.prems" eq bounds by (auto simp: res_simps)
  qed
qed

lemma rim_next_progress:
  assumes "rim_next rim s = (s', Inr (rim', Some en))"
  shows "unat (it_tail (rim_iter rim')) - unat (it_head (rim_iter rim')) <
    unat (it_tail (rim_iter rim)) - unat (it_head (rim_iter rim))"
proof -
  obtain it x where "iter_next (rcu_storage s) (rim_iter rim) = Inr (it, Some x)" and "rim_iter rim' = it"
    using assms by (auto simp: rim_next_def rim_wrap_def abind_def split: sum.splits option.splits prod.splits)
  then show ?thesis
    using iter_next_loop_progress [of "rcu_storage s" "rim_iter rim" it x]
    by (auto simp: iter_next_def split: if_splits)
qed

text \<open>\<open>clear\<close>: the \<open>for\<close> loop over the proxies, the drop of the iterator, a new reader.\<close>

function clear_loop :: "rcu_iter_mut \<Rightarrow> ('a rcu, unit) act" where
  "clear_loop rim s =
     (case rim_next rim s of (s1, r) \<Rightarrow>
       (case r of
          Inl e \<Rightarrow> (s1, Inl e)
        | Inr (rim', None) \<Rightarrow> (s1, Inr ())
        | Inr (rim', Some en) \<Rightarrow>
            (case entry_remove en s1 of (s2, r2) \<Rightarrow>
              (case r2 of Inl e \<Rightarrow> (s2, Inl e) | Inr _ \<Rightarrow> clear_loop rim' s2))))"
  by pat_completeness auto
termination
proof (relation "measure (\<lambda>(rim, s). unat (it_tail (rim_iter rim)) - unat (it_head (rim_iter rim)))", goal_cases)
  case 1
  show ?case by simp
next
  case 2
  then show ?case by (auto intro: rim_next_progress [OF sym])
qed

declare clear_loop.simps [simp del]

definition rcu_clear :: "('a rcu, nat) act" where
  "rcu_clear =
     abind (abind rcu_iter_mut_new (\<lambda>rim. after (clear_loop rim) rim_drop)) (\<lambda>_. rcu_reader)"

section \<open>The last release\<close>

text \<open>
  The writer, and with it the storage, is kept by the slab and by every generation. When the last
  of them is gone the drop of the storage drops the items that are left.
\<close>

definition writer_release :: "layout \<Rightarrow> ('a rcu, unit) act" where
  "writer_release ent s =
     (if rc_owner s \<or> list_ex (\<lambda>x. x \<noteq> None) (rc_gens s) then (s, Inr ())
      else case storage_drop ent (rcu_storage s) of
        Some (Inr items) \<Rightarrow> (s\<lparr>rc_dropped := rc_dropped s @ items\<rparr>, Inr ())
      | Some (Inl e) \<Rightarrow> (s, Inl e)
      | None \<Rightarrow> (s, Inl Abort))"

definition rcu_reader_drop :: "layout \<Rightarrow> nat \<Rightarrow> ('a rcu, unit) act" where
  "rcu_reader_drop ent g = after (arc_drop g) (writer_release ent)"

definition rcu_drop :: "layout \<Rightarrow> ('a rcu, unit) act" where
  "rcu_drop ent s = after (arc_drop (rc_cur s)) (writer_release ent) (s\<lparr>rc_owner := False\<rparr>)"

end
