(* ===== verification/Rcu_Inv.thy ===== *)
theory Rcu_Inv
  imports Rcu_Cslab
begin

text \<open>
  The invariant of the generations: they are freed in creation order, each keeps the next one
  alive, strong counts are exact, and the pending lists of the live generations are together,
  without repetition, the occupied slots that are not visible. The release of a reference, which
  may free a whole row of generations, keeps it; so does every operation of the slab.
\<close>

section \<open>Views\<close>

definition pending_of :: "'a rcu \<Rightarrow> nat \<Rightarrow> usize list" where
  "pending_of s g = (case gen_at s g of None \<Rightarrow> [] | Some gn \<Rightarrow> g_pending gn)"

abbreviation rslot :: "'a rcu \<Rightarrow> usize \<Rightarrow> 'a option" where
  "rslot s \<equiv> cslab_slot (rc_writer s)"

abbreviation rvisible :: "'a rcu \<Rightarrow> usize \<Rightarrow> 'a option" where
  "rvisible s \<equiv> cslab_visible (rc_writer s)"

abbreviation ngens :: "'a rcu \<Rightarrow> nat" where
  "ngens s \<equiv> length (rc_gens s)"

definition pending_in :: "'a rcu \<Rightarrow> nat \<Rightarrow> nat \<Rightarrow> usize list" where
  "pending_in s a b = concat (map (pending_of s) [a..<b])"

text \<open>
  \<open>ext g\<close> counts the references to generation \<open>g\<close> that do not come from another generation;
  \<open>lo\<close> is the oldest generation that is not freed.
\<close>

definition gen_cell :: "'a rcu \<Rightarrow> (nat \<Rightarrow> nat) \<Rightarrow> nat \<Rightarrow> nat \<Rightarrow> gen" where
  "gen_cell s ext lo g =
     \<lparr>g_strong = ext g + (if lo < g then 1 else 0), g_pending = pending_of s g,
      g_next = (if Suc g < ngens s then Some (Suc g) else None), g_poisoned = False\<rparr>"

definition gens_wf :: "'a rcu \<Rightarrow> (nat \<Rightarrow> nat) \<Rightarrow> nat \<Rightarrow> bool" where
  "gens_wf s ext lo \<longleftrightarrow>
     lo \<le> ngens s \<and>
     (\<forall>g. gen_at s g = (if lo \<le> g \<and> g < ngens s then Some (gen_cell s ext lo g) else None)) \<and>
     (\<forall>g. 0 < ext g \<longrightarrow> lo \<le> g \<and> g < ngens s) \<and>
     (lo < ngens s \<longrightarrow> 0 < ext lo)"

definition pending_wf :: "'a rcu \<Rightarrow> nat \<Rightarrow> bool" where
  "pending_wf s lo \<longleftrightarrow>
     distinct (pending_in s lo (ngens s)) \<and>
     set (pending_in s lo (ngens s)) = {i. rslot s i \<noteq> None \<and> rvisible s i = None}"

definition rcu_inv :: "'a rcu \<Rightarrow> (nat \<Rightarrow> nat) \<Rightarrow> nat \<Rightarrow> bool" where
  "rcu_inv s ext lo \<longleftrightarrow>
     cslab_wf (rc_writer s) \<and> \<not> rc_poisoned s \<and> gens_wf s ext lo \<and> pending_wf s lo"

lemma gen_cell_sel [simp]:
  "g_strong (gen_cell s ext lo g) = ext g + (if lo < g then 1 else 0)"
  "g_pending (gen_cell s ext lo g) = pending_of s g"
  "g_next (gen_cell s ext lo g) = (if Suc g < ngens s then Some (Suc g) else None)"
  "\<not> g_poisoned (gen_cell s ext lo g)"
  by (simp_all add: gen_cell_def)

lemma gen_at_writer [simp]: "gen_at (s\<lparr>rc_writer := w\<rparr>) = gen_at s"
  by (simp add: gen_at_def fun_eq_iff)

lemma rcu_invD:
  assumes "rcu_inv s ext lo"
  shows "cslab_wf (rc_writer s)" and "\<not> rc_poisoned s" and "gens_wf s ext lo" and "pending_wf s lo"
  using assms by (simp_all add: rcu_inv_def)

lemma gens_wfD:
  assumes "gens_wf s ext lo"
  shows "lo \<le> ngens s" and "lo \<le> g \<Longrightarrow> g < ngens s \<Longrightarrow> gen_at s g = Some (gen_cell s ext lo g)"
    and "\<not> (lo \<le> g \<and> g < ngens s) \<Longrightarrow> gen_at s g = None"
    and "0 < ext g \<Longrightarrow> lo \<le> g" and "0 < ext g \<Longrightarrow> g < ngens s" and "lo < ngens s \<Longrightarrow> 0 < ext lo"
  using assms unfolding gens_wf_def by auto

lemma gens_wfI:
  assumes "lo \<le> ngens s"
    and "\<And>g. lo \<le> g \<Longrightarrow> g < ngens s \<Longrightarrow> gen_at s g = Some (gen_cell s ext lo g)"
    and "\<And>g. \<not> (lo \<le> g \<and> g < ngens s) \<Longrightarrow> gen_at s g = None"
    and "\<And>g. 0 < ext g \<Longrightarrow> lo \<le> g \<and> g < ngens s" and "lo < ngens s \<Longrightarrow> 0 < ext lo"
  shows "gens_wf s ext lo"
  unfolding gens_wf_def using assms by simp

lemma pending_of_same: "gen_at s' g = gen_at s g \<Longrightarrow> pending_of s' g = pending_of s g"
  and pending_of_none: "gen_at s g = None \<Longrightarrow> pending_of s g = []"
  by (simp_all add: pending_of_def)

lemma pending_in_split:
  assumes "a \<le> b" and "b \<le> c"
  shows "pending_in s a c = pending_in s a b @ pending_in s b c"
proof -
  have "[a..<c] = [a..<b] @ [b..<c]" using assms upt_add_eq_append [of a b "c - b"] by simp
  then show ?thesis by (simp add: pending_in_def)
qed

lemma pending_in_single: "pending_in s g (Suc g) = pending_of s g"
  by (simp add: pending_in_def)

lemma pending_in_cong:
  "(\<And>g. a \<le> g \<Longrightarrow> g < b \<Longrightarrow> pending_of s' g = pending_of s g) \<Longrightarrow> pending_in s' a b = pending_in s a b"
  by (auto simp: pending_in_def intro!: arg_cong [where f = concat])

section \<open>Finalizing a generation\<close>

lemma finalize_list_final_all:
  "cslab.final_all w is = Inr (w', vs) \<Longrightarrow> finalize_list is w = (w', Inr vs)"
proof (induction "is" arbitrary: w vs)
  case (Cons i "is")
  then obtain w1 v vs' where "cslab_finalize_remove w i = Inr (w1, v)"
    and "cslab.final_all w1 is = Inr (w', vs')" and "vs = v # vs'"
    by (auto simp: res_simps split: prod.splits)
  with Cons.IH show ?case by (simp add: abind_def lift_writer_def)
qed simp

lemma gen_drop_ok:
  assumes "cslab_wf (rc_writer s)" and "\<not> rc_poisoned s" and "\<not> g_poisoned gn"
    and "distinct (g_pending gn)"
    and "set (g_pending gn) \<subseteq> {i. rslot s i \<noteq> None \<and> rvisible s i = None}"
  obtains w where
    "gen_drop gn s = (s\<lparr>rc_writer := w,
       rc_dropped := rc_dropped s @ map (\<lambda>i. the (rslot s i)) (g_pending gn)\<rparr>, Inr ())"
    and "cslab_wf w" and "cslab_visible w = rvisible s"
    and "cslab_slot w = (\<lambda>i. if i \<in> set (g_pending gn) then None else rslot s i)"
    and "finalize_list (g_pending gn) (rc_writer s) = (w, Inr (map (\<lambda>i. the (rslot s i)) (g_pending gn)))"
proof -
  have pend: "\<forall>i \<in> set (g_pending gn). rslot s i \<noteq> None \<and> rvisible s i = None"
    using assms(5) by blast
  obtain w where "cslab.final_all (rc_writer s) (g_pending gn) =
      Inr (w, map (\<lambda>i. the (rslot s i)) (g_pending gn))"
    and w: "cslab_wf w" "cslab_visible w = rvisible s"
      "cslab_slot w = (\<lambda>i. if i \<in> set (g_pending gn) then None else rslot s i)"
    using cslab.final_all_pending [OF assms(1,4) pend] by blast
  then have fin: "finalize_list (g_pending gn) (rc_writer s) =
      (w, Inr (map (\<lambda>i. the (rslot s i)) (g_pending gn)))"
    by (intro finalize_list_final_all)
  then have "gen_drop gn s = (s\<lparr>rc_writer := w,
       rc_dropped := rc_dropped s @ map (\<lambda>i. the (rslot s i)) (g_pending gn)\<rparr>, Inr ())"
    using assms(2,3) by (simp add: gen_drop_def abind_def with_writer_def)
  with w fin that show thesis by blast
qed

section \<open>Releasing a reference\<close>

text \<open>
  \<open>finalized s s' lo hi\<close>: from \<open>s\<close> to \<open>s'\<close> the pending items of the generations from \<open>lo\<close> up to
  \<open>hi\<close> were finalized one after the other, left their slots and were dropped in order, and nothing
  else happened to the items.
\<close>

definition finalized :: "'a rcu \<Rightarrow> 'a rcu \<Rightarrow> nat \<Rightarrow> nat \<Rightarrow> bool" where
  "finalized s s' lo hi \<longleftrightarrow>
     rc_owner s' = rc_owner s \<and> rc_capacity s' = rc_capacity s \<and> rvisible s' = rvisible s \<and>
     rslot s' = (\<lambda>i. if i \<in> set (pending_in s lo hi) then None else rslot s i) \<and>
     (\<forall>g. hi \<le> g \<longrightarrow> pending_of s' g = pending_of s g) \<and>
     rc_dropped s' = rc_dropped s @ map (\<lambda>i. the (rslot s i)) (pending_in s lo hi) \<and>
     (\<exists>vs. finalize_list (pending_in s lo hi) (rc_writer s) = (rc_writer s', Inr vs))"

lemma finalize_list_append:
  "finalize_list is w = (w1, Inr us) \<Longrightarrow> finalize_list js w1 = (w2, Inr vs) \<Longrightarrow>
    finalize_list (is @ js) w = (w2, Inr (us @ vs))"
proof (induction "is" arbitrary: w us)
  case (Cons i "is")
  then show ?case by (auto simp: abind_def aret_def split: prod.splits sum.splits)
qed simp

lemma finalized_trans:
  assumes "finalized s s1 lo mid" and "finalized s1 s2 mid hi" and "lo \<le> mid" and "mid \<le> hi"
    and "distinct (pending_in s lo hi)"
  shows "finalized s s2 lo hi"
proof -
  have split: "pending_in s lo hi = pending_in s lo mid @ pending_in s mid hi"
    by (rule pending_in_split [OF assms(3,4)])
  have same: "pending_in s1 mid hi = pending_in s mid hi"
    using assms(1) by (intro pending_in_cong) (simp add: finalized_def)
  have "map (\<lambda>i. the (rslot s1 i)) (pending_in s mid hi) = map (\<lambda>i. the (rslot s i)) (pending_in s mid hi)"
    using assms(1,5) split by (auto simp: finalized_def)
  moreover have "\<exists>vs. finalize_list (pending_in s lo hi) (rc_writer s) = (rc_writer s2, Inr vs)"
    using assms(1,2) same finalize_list_append unfolding split by (fastforce simp: finalized_def)
  ultimately show ?thesis using assms(1-4) split same by (auto simp: finalized_def)
qed

text \<open>\<open>freed\<close>: moreover the slab still refers to the same generation and none was added.\<close>

definition freed :: "'a rcu \<Rightarrow> 'a rcu \<Rightarrow> nat \<Rightarrow> nat \<Rightarrow> bool" where
  "freed s s' lo hi \<longleftrightarrow> ngens s' = ngens s \<and> rc_cur s' = rc_cur s \<and> finalized s s' lo hi"

lemma freed_trans:
  assumes "freed s s1 lo mid" and "freed s1 s2 mid hi" and "lo \<le> mid" and "mid \<le> hi"
    and "distinct (pending_in s lo hi)"
  shows "freed s s2 lo hi"
  using assms finalized_trans by (fastforce simp: freed_def)

text \<open>Changing the number of outside references of one generation.\<close>

lemma recount_ok:
  assumes inv: "rcu_inv s ext lo" and g: "lo \<le> g" "g < ngens s" and n: "g = lo \<Longrightarrow> 0 < n"
    and s': "s' = set_gen g (Some (gen_cell s ext lo g\<lparr>g_strong := n + (if lo < g then 1 else 0)\<rparr>)) s"
  shows "rcu_inv s' (ext(g := n)) lo" and "freed s s' lo lo"
proof -
  note wf = rcu_invD [OF inv]
  note gens = gens_wfD [OF wf(3)]
  have views: "rc_writer s' = rc_writer s" "ngens s' = ngens s" "rc_poisoned s' = rc_poisoned s"
    "gen_at s' k = (if k = g then Some (gen_cell s ext lo g\<lparr>g_strong := n + (if lo < g then 1 else 0)\<rparr>)
      else gen_at s k)" for k
    unfolding s' gen_at_set_gen using g(2) by (simp_all add: set_gen_def)
  have pend: "pending_of s' k = pending_of s k" for k
  proof (cases "k = g")
    case True
    then show ?thesis unfolding pending_of_def [of s' k] views(4) by (simp add: gen_cell_def)
  qed (rule pending_of_same, simp add: views(4))
  have "gens_wf s' (ext(g := n)) lo"
  proof (rule gens_wfI)
    show "gen_at s' k = Some (gen_cell s' (ext(g := n)) lo k)" if "lo \<le> k" "k < ngens s'" for k
      using that gens(2) [of k] unfolding views gen_cell_def pend by simp
    show "gen_at s' k = None" if "\<not> (lo \<le> k \<and> k < ngens s')" for k
      using that gens(3) [of k] g by (auto simp: views)
    show "lo \<le> k \<and> k < ngens s'" if "0 < (ext(g := n)) k" for k
      using that gens(4,5) [of k] g by (auto simp: views split: if_splits)
    show "0 < (ext(g := n)) lo" if "lo < ngens s'"
      using that gens(6) n by (simp add: views)
  qed (use gens(1) in \<open>simp add: views\<close>)
  moreover have "pending_wf s' lo"
    using wf(4) pending_in_cong [of lo "ngens s" s' s] pend by (simp add: pending_wf_def views)
  ultimately show "rcu_inv s' (ext(g := n)) lo" using wf(1,2) by (simp add: rcu_inv_def views)
  show "freed s s' lo lo"
    unfolding freed_def finalized_def by (simp add: views pend pending_in_def) (simp add: s' set_gen_def)
qed

lemma arc_clone_ok:
  assumes "rcu_inv s ext lo" and "0 < ext g"
  shows "\<exists>s'. arc_clone g s = (s', Inr ()) \<and> rcu_inv s' (ext(g := Suc (ext g))) lo \<and> freed s s' lo lo"
proof -
  note gens = gens_wfD [OF rcu_invD(3) [OF assms(1)]]
  have g: "lo \<le> g" "g < ngens s" using gens(4,5) assms(2) by blast+
  show ?thesis
    using recount_ok [OF assms(1) g, of "Suc (ext g)"] gens(2) [OF g]
    by (simp add: arc_clone_def gen_cell_def)
qed

text \<open>Freeing the oldest generation, whose reference to the next one becomes an outside one.\<close>

definition free_oldest :: "nat \<Rightarrow> (nat \<Rightarrow> nat) \<Rightarrow> nat \<Rightarrow> nat \<Rightarrow> nat" where
  "free_oldest n ext lo = (if Suc lo < n then ext(lo := 0, Suc lo := Suc (ext (Suc lo))) else ext(lo := 0))"

lemma free_oldest_ok:
  assumes inv: "rcu_inv s ext lo" and lo: "lo < ngens s" and last: "ext lo = 1"
  obtains s1 where "gen_drop (gen_cell s ext lo lo) s = (s1, Inr ())"
    and "rcu_inv (set_gen lo None s1) (free_oldest (ngens s) ext lo) (Suc lo)"
    and "freed s (set_gen lo None s1) lo (Suc lo)"
proof -
  note wf = rcu_invD [OF inv]
  have pend: "g_pending (gen_cell s ext lo lo) = pending_of s lo"
    and unpoisoned: "\<not> g_poisoned (gen_cell s ext lo lo)"
    by (simp_all add: gen_cell_def)
  have split: "pending_in s lo (ngens s) = pending_of s lo @ pending_in s (Suc lo) (ngens s)"
    using pending_in_split [of lo "Suc lo" "ngens s" s] lo by (simp add: pending_in_single)
  have dist: "distinct (pending_of s lo)"
    and sub: "set (pending_of s lo) \<subseteq> {i. rslot s i \<noteq> None \<and> rvisible s i = None}"
    using wf(4) unfolding pending_wf_def split by auto
  obtain w where drop: "gen_drop (gen_cell s ext lo lo) s = (s\<lparr>rc_writer := w,
       rc_dropped := rc_dropped s @ map (\<lambda>i. the (rslot s i)) (pending_of s lo)\<rparr>, Inr ())"
      (is "_ = (?s1, _)")
    and w: "cslab_wf w" "cslab_visible w = rvisible s"
      "cslab_slot w = (\<lambda>i. if i \<in> set (pending_of s lo) then None else rslot s i)"
      "finalize_list (pending_of s lo) (rc_writer s) = (w, Inr (map (\<lambda>i. the (rslot s i)) (pending_of s lo)))"
    by (rule gen_drop_ok [OF wf(1,2) unpoisoned, unfolded pend, OF dist sub])
  let ?s = "set_gen lo None ?s1"
  have views: "rc_writer ?s = w" "ngens ?s = ngens s" "\<not> rc_poisoned ?s"
    "gen_at ?s g = (if g = lo then None else gen_at s g)" for g
    using wf(2) lo by (simp_all add: set_gen_def gen_at_def)
  have pendings: "pending_of ?s g = (if g = lo then [] else pending_of s g)" for g
    using pending_of_none [of ?s lo] pending_of_same [of ?s g s] by (simp add: views(4))
  have rest: "pending_in ?s (Suc lo) (ngens s) = pending_in s (Suc lo) (ngens s)"
    by (rule pending_in_cong) (simp add: pendings)
  have "gens_wf ?s (free_oldest (ngens s) ext lo) (Suc lo)"
  proof (rule gens_wfI)
    show "gen_at ?s g = Some (gen_cell ?s (free_oldest (ngens s) ext lo) (Suc lo) g)"
      if "Suc lo \<le> g" "g < ngens ?s" for g
      using that gens_wfD(2) [OF wf(3), of g] pendings [of g]
      by (simp add: views gen_cell_def free_oldest_def)
    show "gen_at ?s g = None" if "\<not> (Suc lo \<le> g \<and> g < ngens ?s)" for g
      using that gens_wfD(3) [OF wf(3), of g] by (auto simp: views not_less_eq_eq)
    show "Suc lo \<le> g \<and> g < ngens ?s" if "0 < free_oldest (ngens s) ext lo g" for g
      using that gens_wfD(4,5) [OF wf(3), of g] by (auto simp: views free_oldest_def split: if_splits)
  qed (use lo in \<open>simp_all add: views free_oldest_def\<close>)
  moreover have "pending_wf ?s (Suc lo)"
    using wf(4) unfolding pending_wf_def views(1,2) rest w(2,3) split by auto
  moreover have "freed s ?s lo (Suc lo)"
    using lo by (simp add: freed_def finalized_def views w pendings pending_in_single) (simp add: set_gen_def)
  ultimately show thesis
    using that [OF drop] w(1) views by (simp add: rcu_inv_def)
qed

text \<open>
  A release succeeds, keeps the invariant with one reference less, and frees exactly the
  generations at the old end that no reference from outside is left to.
\<close>

lemma arc_drop_ok:
  assumes "rcu_inv s ext lo" and "0 < ext g"
  shows "\<exists>s' hi. arc_drop g s = (s', Inr ()) \<and> lo \<le> hi \<and>
    rcu_inv s' (ext(g := ext g - 1)) hi \<and> freed s s' lo hi"
  using assms
proof (induction "ngens s - lo" arbitrary: s ext lo g)
  case (0 s lo ext g)
  then show ?case using gens_wfD(4,5) [OF rcu_invD(3) [OF "0.prems"(1)], of g] by simp
next
  case (Suc k s lo ext g)
  note wf = rcu_invD [OF Suc.prems(1)]
  note gens = gens_wfD [OF wf(3)]
  have g: "lo \<le> g" "g < ngens s" using gens(4,5) Suc.prems(2) by blast+
  note cell = gens(2) [OF g]
  show ?case
  proof (cases "g_strong (gen_cell s ext lo g) > 1")
    case True
    then have "arc_drop g s =
        (set_gen g (Some (gen_cell s ext lo g\<lparr>g_strong := (ext g - 1) + (if lo < g then 1 else 0)\<rparr>)) s, Inr ())"
      using cell Suc.prems(2) by (subst arc_drop.simps) (simp add: gen_cell_def)
    moreover have "g = lo \<Longrightarrow> 0 < ext g - 1" using True by (simp add: gen_cell_def)
    ultimately show ?thesis
      using recount_ok [OF Suc.prems(1) g, of "ext g - 1"] by blast
  next
    case False
    then have lo: "g = lo" "ext lo = 1" using g Suc.prems(2) by (auto simp: gen_cell_def split: if_splits)
    obtain s1 where s1: "gen_drop (gen_cell s ext lo lo) s = (s1, Inr ())"
      and inv1: "rcu_inv (set_gen lo None s1) (free_oldest (ngens s) ext lo) (Suc lo)"
      and freed1: "freed s (set_gen lo None s1) lo (Suc lo)"
      by (rule free_oldest_ok [OF Suc.prems(1)]) (use lo g in auto)
    show ?thesis
    proof (cases "Suc lo < ngens s")
      case True
      have ext: "(free_oldest (ngens s) ext lo)(Suc lo := free_oldest (ngens s) ext lo (Suc lo) - 1) = ext(lo := 0)"
        using True by (simp add: free_oldest_def fun_eq_iff)
      have "\<exists>s' hi. arc_drop (Suc lo) (set_gen lo None s1) = (s', Inr ()) \<and> Suc lo \<le> hi \<and>
          rcu_inv s' ((free_oldest (ngens s) ext lo)(Suc lo := free_oldest (ngens s) ext lo (Suc lo) - 1)) hi \<and>
          freed (set_gen lo None s1) s' (Suc lo) hi"
        using Suc.hyps(2) inv1 freed1 True
        by (intro Suc.hyps(1)) (auto simp: freed_def free_oldest_def)
      then obtain s' hi where s': "arc_drop (Suc lo) (set_gen lo None s1) = (s', Inr ())" "Suc lo \<le> hi"
        "rcu_inv s' (ext(lo := 0)) hi" "freed (set_gen lo None s1) s' (Suc lo) hi"
        unfolding ext by blast
      have "hi \<le> ngens s"
        using gens_wfD(1) [OF rcu_invD(3) [OF s'(3)]] s'(4) freed1 by (simp add: freed_def)
      then have "distinct (pending_in s lo hi)"
        using wf(4) pending_in_split [of lo hi "ngens s" s] s'(2) by (simp add: pending_wf_def)
      then have "freed s s' lo hi" using freed_trans [OF freed1 s'(4)] s'(2) by simp
      moreover have "arc_drop g s = (s', Inr ())"
        using False cell lo s1 s'(1) True
        by (subst arc_drop.simps) (simp add: gen_cell_def)
      ultimately show ?thesis using s' lo by (intro exI [of _ s'] exI [of _ hi]) simp
    next
      case last: False
      have "arc_drop g s = (set_gen lo None s1, Inr ())"
        using False cell lo s1 last by (subst arc_drop.simps) (simp add: gen_cell_def)
      moreover have "free_oldest (ngens s) ext lo = ext(lo := 0)" using last by (simp add: free_oldest_def)
      ultimately show ?thesis
        using inv1 freed1 lo by (intro exI [of _ "set_gen lo None s1"] exI [of _ "Suc lo"]) simp
    qed
  qed
qed

section \<open>The operations of the slab\<close>

lemma with_writer_ok:
  assumes "\<not> rc_poisoned s" and "f (rc_writer s) = (w, Inr x)"
  shows "with_writer f s = (s\<lparr>rc_writer := w\<rparr>, Inr x)"
  using assms by (simp add: with_writer_def)

text \<open>Replacing the writer by one in which the same slots are pending.\<close>

lemma rcu_inv_writer:
  assumes "rcu_inv s ext lo" and "cslab_wf w"
    and "{i. cslab_slot w i \<noteq> None \<and> cslab_visible w i = None} = {i. rslot s i \<noteq> None \<and> rvisible s i = None}"
  shows "rcu_inv (s\<lparr>rc_writer := w\<rparr>) ext lo" and "pending_of (s\<lparr>rc_writer := w\<rparr>) = pending_of s"
proof -
  let ?s = "s\<lparr>rc_writer := w\<rparr>"
  have gens: "gen_at ?s = gen_at s" by (simp add: gen_at_def fun_eq_iff)
  then show pend: "pending_of ?s = pending_of s" by (simp add: pending_of_def fun_eq_iff)
  have cell: "gen_cell ?s ext lo = gen_cell s ext lo" by (simp add: gen_cell_def pend fun_eq_iff)
  show "rcu_inv ?s ext lo"
    using assms by (simp add: rcu_inv_def gens_wf_def gens cell pending_wf_def pending_in_def pend)
qed

lemma rcu_insert_ok:
  assumes inv: "rcu_inv s ext lo"
  shows "\<exists>w r. rcu_insert v s = (s\<lparr>rc_writer := w\<rparr>, Inr r) \<and> rcu_inv (s\<lparr>rc_writer := w\<rparr>) ext lo \<and>
    (case r of
       Inl _ \<Rightarrow> w = rc_writer s \<and> cslab_vacant_key (rc_writer s) = Inl ()
     | Inr i \<Rightarrow> rslot s i = None \<and> cslab_slot w = (rslot s)(i \<mapsto> v) \<and>
         cslab_visible w = (rvisible s)(i \<mapsto> v))"
proof (cases "cslab_vacant_key (rc_writer s)")
  case (Inl u)
  then have "cslab_insert (rc_writer s) v = Inr (rc_writer s, Inl ())"
    using cslab.insert_full [OF rcu_invD(1) [OF inv]] by simp
  then have "rcu_insert v s = (s\<lparr>rc_writer := rc_writer s\<rparr>, Inr (Inl ()))"
    unfolding rcu_insert_def by (intro with_writer_ok [OF rcu_invD(2) [OF inv]]) (simp add: lift_writer_def)
  with Inl inv show ?thesis by (intro exI [of _ "rc_writer s"] exI [of _ "Inl ()"]) simp
next
  case (Inr i)
  note wf = rcu_invD(1) [OF inv]
  obtain w where w: "cslab_insert (rc_writer s) v = Inr (w, Inr i)" "cslab_wf w"
    "cslab_slot w = (rslot s)(i \<mapsto> v)" "cslab_visible w = (rvisible s)(i \<mapsto> v)" and free: "rslot s i = None"
    using cslab.insert_vacant [OF wf Inr] by blast
  have "rcu_insert v s = (s\<lparr>rc_writer := w\<rparr>, Inr (Inr i))"
    unfolding rcu_insert_def
    by (intro with_writer_ok [OF rcu_invD(2) [OF inv]]) (simp add: lift_writer_def w(1))
  moreover have "{j. cslab_slot w j \<noteq> None \<and> cslab_visible w j = None} =
      {j. rslot s j \<noteq> None \<and> rvisible s j = None}"
    using w(3,4) free by auto
  ultimately show ?thesis
    using rcu_inv_writer(1) [OF inv w(2)] w free by (intro exI [of _ w] exI [of _ "Inr i"]) simp
qed

lemma set_pending_in: "set (pending_in s a b) = (\<Union>g \<in> {a..<b}. set (pending_of s g))"
  by (simp add: pending_in_def)

text \<open>Marking through a live generation moves one index to the end of its pending list.\<close>

lemma pending_append_distinct:
  fixes s s' :: "'a rcu"
  assumes "distinct (pending_in s a b)" and "a \<le> g" and "g < b" and "i \<notin> set (pending_in s a b)"
    and "\<And>k. pending_of s' k = (if k = g then pending_of s g @ [i] else pending_of s k)"
  shows "distinct (pending_in s' a b)" and "set (pending_in s' a b) = insert i (set (pending_in s a b))"
proof -
  have split: "pending_in t a b = pending_in t a g @ pending_of t g @ pending_in t (Suc g) b" for t :: "'a rcu"
    using assms(2,3) pending_in_split [of a g b t] pending_in_split [of g "Suc g" b t]
    by (simp add: pending_in_single)
  have "pending_in s' a g = pending_in s a g" "pending_in s' (Suc g) b = pending_in s (Suc g) b"
    by (rule pending_in_cong, simp add: assms(5))+
  then have eq: "pending_in s' a b = pending_in s a g @ (pending_of s g @ [i]) @ pending_in s (Suc g) b"
    using split [of s'] assms(5) [of g] by simp
  show "distinct (pending_in s' a b)" using assms(1,4) unfolding eq split [of s] by auto
  show "set (pending_in s' a b) = insert i (set (pending_in s a b))" unfolding eq split [of s] by auto
qed

lemma gen_mark_ok:
  assumes inv: "rcu_inv s ext lo" and g: "lo \<le> g" "g < ngens s" and vis: "rvisible s i = Some v"
  shows "\<exists>s'. gen_mark_removed g i s = (s', Inr ()) \<and> rcu_inv s' ext lo \<and>
    rcu_storage s' = hide_slot (rcu_storage s) i \<and>
    rslot s' = rslot s \<and> rvisible s' = (rvisible s)(i := None) \<and>
    (\<forall>k. pending_of s' k = (if k = g then pending_of s g @ [i] else pending_of s k)) \<and>
    ngens s' = ngens s \<and> rc_cur s' = rc_cur s \<and> rc_owner s' = rc_owner s \<and> rc_dropped s' = rc_dropped s \<and>
    rc_capacity s' = rc_capacity s"
proof -
  note wf = rcu_invD [OF inv]
  obtain w where w: "cslab_mark_removed (rc_writer s) i = Inr w" "cslab_wf w" "cslab_slot w = rslot s"
    "cslab_visible w = (rvisible s)(i := None)"
    using cslab.mark_visible [OF wf(1) vis] by blast
  have flag: "flag_at (st_bitmap (rcu_storage s)) (unat i)"
    using vis by (simp add: slot_views split: if_splits)
  have hide: "storage w = hide_slot (rcu_storage s) i"
    using cslab_mark_removed_ok(1) [OF wf(1) flag] w(1) by simp
  let ?cell = "gen_cell s ext lo g\<lparr>g_pending := pending_of s g @ [i]\<rparr>"
  define s' where "s' = set_gen g (Some ?cell) (s\<lparr>rc_writer := w\<rparr>)"
  have "with_inner g (\<lambda>gn. Inr (gn\<lparr>g_pending := g_pending gn @ [i]\<rparr>)) (s\<lparr>rc_writer := w\<rparr>) = (s', Inr ())"
    using gens_wfD(2) [OF wf(3) g] by (simp add: with_inner_def s'_def)
  then have run: "gen_mark_removed g i s = (s', Inr ())"
    unfolding gen_mark_removed_def
    by (simp add: with_writer_ok [OF wf(2)] lift_writer_def w(1) abind_def)
  have views: "rc_writer s' = w" "ngens s' = ngens s" "rc_poisoned s' = rc_poisoned s"
    "rc_cur s' = rc_cur s" "rc_owner s' = rc_owner s" "rc_dropped s' = rc_dropped s"
    "rc_capacity s' = rc_capacity s"
    "gen_at s' k = (if k = g then Some ?cell else gen_at s k)" for k
    using g(2) by (simp_all add: s'_def set_gen_def gen_at_def)
  have pend: "pending_of s' k = (if k = g then pending_of s g @ [i] else pending_of s k)" for k
    unfolding pending_of_def [of s' k] views(8) by (simp add: pending_of_def)
  have "gens_wf s' ext lo"
  proof (rule gens_wfI)
    show "gen_at s' k = Some (gen_cell s' ext lo k)" if "lo \<le> k" "k < ngens s'" for k
      using that gens_wfD(2) [OF wf(3), of k] unfolding views gen_cell_def pend by simp
    show "gen_at s' k = None" if "\<not> (lo \<le> k \<and> k < ngens s')" for k
      using that gens_wfD(3) [OF wf(3), of k] g by (auto simp: views)
  qed (use gens_wfD [OF wf(3)] in \<open>simp_all add: views\<close>)
  moreover have "i \<notin> set (pending_in s lo (ngens s))"
    using wf(4) vis by (simp add: pending_wf_def)
  then have "pending_wf s' lo"
    using pending_append_distinct [OF _ g _ pend] wf(4) w(3,4) cslab.visible_slot [OF wf(1) vis] vis
    by (auto simp: pending_wf_def views)
  ultimately show ?thesis
    using run views w hide pend wf(2) by (intro exI [of _ s']) (simp add: rcu_inv_def)
qed

lemma pending_in_same: "pending_of s' = pending_of s \<Longrightarrow> pending_in s' a b = pending_in s a b"
  by (simp add: pending_in_def)

text \<open>Linking a new generation behind the current one.\<close>

lemma link_generation:
  assumes inv: "rcu_inv s ext lo" and cur: "Suc c = ngens s" and ext: "0 < ext c"
    and s': "s' = s\<lparr>rc_gens := (rc_gens s)[c := Some (gen_cell s ext lo c\<lparr>g_next := Some (ngens s)\<rparr>)] @
        [Some (new_gen\<lparr>g_strong := 2\<rparr>)], rc_cur := ngens s\<rparr>"
  shows "rcu_inv s' (ext(ngens s := 1)) lo" and "finalized s s' lo lo"
proof -
  note wf = rcu_invD [OF inv]
  note gens = gens_wfD [OF wf(3)]
  let ?n = "ngens s"
  have c: "lo \<le> c" "c < ?n" using gens(4,5) [OF ext] by simp_all
  have views: "rc_writer s' = rc_writer s" "ngens s' = Suc ?n" "rc_poisoned s' = rc_poisoned s"
    by (simp_all add: s')
  have at: "gen_at s' k = (if k = c then Some (gen_cell s ext lo c\<lparr>g_next := Some ?n\<rparr>)
      else if k = ?n then Some (new_gen\<lparr>g_strong := 2\<rparr>) else gen_at s k)" for k
    using c(2) by (auto simp: s' gen_at_def nth_append nth_list_update)
  have "gen_at s ?n = None" by (simp add: gen_at_def)
  then have pend: "pending_of s' = pending_of s"
    by (auto simp: fun_eq_iff pending_of_def [of s'] at new_gen_def) (simp_all add: pending_of_def)
  have "gens_wf s' (ext(?n := 1)) lo"
  proof (rule gens_wfI)
    show "gen_at s' k = Some (gen_cell s' (ext(?n := 1)) lo k)" if k: "lo \<le> k" "k < ngens s'" for k
    proof (cases "k = ?n")
      case True
      then show ?thesis
        using c pending_of_none [of s ?n] unfolding at gen_cell_def views pend
        by (simp add: new_gen_def gen_at_def)
    next
      case False
      then show ?thesis
        using gens(2) [of k] k c cur unfolding at gen_cell_def views pend by auto
    qed
    show "gen_at s' k = None" if "\<not> (lo \<le> k \<and> k < ngens s')" for k
      using that gens(3) [of k] gens(1) c by (auto simp: views at)
    show "lo \<le> k \<and> k < ngens s'" if "0 < (ext(?n := 1)) k" for k
      using that gens(4,5) [of k] gens(1) by (auto simp: views split: if_splits)
  qed (use gens c in \<open>simp_all add: views\<close>)
  moreover have "pending_in s lo (Suc ?n) = pending_in s lo ?n"
    using pending_in_split [of lo ?n "Suc ?n" s] gens(1) pending_of_none [of s ?n]
    by (simp add: pending_in_single gen_at_def)
  then have "pending_wf s' lo"
    using wf(4) pending_in_same [OF pend] by (simp add: pending_wf_def views)
  ultimately show "rcu_inv s' (ext(?n := 1)) lo" using wf(1,2) by (simp add: rcu_inv_def views)
  show "finalized s s' lo lo" by (simp add: finalized_def views pend pending_in_def) (simp add: s')
qed

lemma advance_ok:
  assumes inv: "rcu_inv s ext lo" and cur: "Suc (rc_cur s) = ngens s" and ext: "0 < ext (rc_cur s)"
  shows "\<exists>s' hi. advance_generation s = (s', Inr ()) \<and> lo \<le> hi \<and>
    rcu_inv s' (ext(ngens s := 1, rc_cur s := ext (rc_cur s) - 1)) hi \<and> finalized s s' lo hi \<and>
    ngens s' = Suc (ngens s) \<and> rc_cur s' = ngens s"
proof -
  note wf = rcu_invD [OF inv]
  note gens = gens_wfD [OF wf(3)]
  let ?n = "ngens s" and ?c = "rc_cur s"
  have c: "lo \<le> ?c" "?c < ?n" using gens(4,5) [OF ext] by simp_all
  define s1 where "s1 = s\<lparr>rc_gens := rc_gens s @ [Some new_gen]\<rparr>"
  define s3 where "s3 = s\<lparr>rc_gens := (rc_gens s)[?c := Some (gen_cell s ext lo ?c\<lparr>g_next := Some ?n\<rparr>)] @
        [Some (new_gen\<lparr>g_strong := 2\<rparr>)], rc_cur := ?n\<rparr>"
  have cell: "gen_at s1 ?c = Some (gen_cell s ext lo ?c)"
    using gens(2) [OF c] c by (simp add: s1_def gen_at_def nth_append)
  have link: "with_inner ?c (link_next ?n) s1 =
      (set_gen ?c (Some (gen_cell s ext lo ?c\<lparr>g_next := Some ?n\<rparr>)) s1, Inr ())" (is "_ = (?s2, _)")
    using cur by (simp add: with_inner_def cell link_next_def)
  have at: "gen_at ?s2 ?n = Some new_gen"
    using c by (simp add: gen_at_def set_gen_def s1_def nth_append)
  have "set_gen ?n (Some (new_gen\<lparr>g_strong := g_strong new_gen + 1\<rparr>)) ?s2\<lparr>rc_cur := ?n\<rparr> = s3"
    using c by (simp add: set_gen_def s1_def s3_def new_gen_def list_update_append)
  then have run: "advance_generation s = arc_drop ?c s3"
    using link by (simp add: advance_generation_def Let_def abind_def arc_clone_def at flip: s1_def)
  note linked = link_generation [OF inv cur ext s3_def]
  have "0 < (ext(?n := 1)) ?c" using ext c by simp
  then obtain s' hi where s': "arc_drop ?c s3 = (s', Inr ())" "lo \<le> hi"
    "rcu_inv s' (ext(?n := 1, ?c := (ext(?n := 1)) ?c - 1)) hi" "freed s3 s' lo hi"
    using arc_drop_ok [OF linked(1)] by blast
  have hi: "hi \<le> Suc ?n"
    using gens_wfD(1) [OF rcu_invD(3) [OF s'(3)]] s'(4) by (simp add: freed_def s3_def)
  have "hi \<le> ?n"
    using gens_wfD(4) [OF rcu_invD(3) [OF s'(3)], of ?n] c by simp
  then have "distinct (pending_in s lo hi)"
    using wf(4) pending_in_split [of lo hi ?n s] s'(2) by (simp add: pending_wf_def)
  then have "finalized s s' lo hi"
    using finalized_trans [OF linked(2), of s' hi] s'(2,4) by (simp add: freed_def)
  moreover have "ngens s' = Suc ?n" "rc_cur s' = ?n" using s'(4) by (simp_all add: freed_def s3_def)
  ultimately show ?thesis using run s' c by (intro exI [of _ s'] exI [of _ hi]) simp
qed

end
