(* ===== verification/Cslab_Props.thy ===== *)
theory Cslab_Props
  imports Cslab_Iter
begin

text \<open>
  What the slab promises its users: the states that histories of calls reach and the counts they
  report, every branch of insertion and removal, the life of an item, the layout of the
  allocation, iteration from both ends, and the drop of the storage.
\<close>

section \<open>Histories\<close>

text \<open>
  The states a program reaches from a new slab. \<open>mark_removed\<close> and \<open>finalize_remove\<close> are unsafe;
  the contract of the second, that the index was marked first and is not freed yet, is its guard.
\<close>

inductive slab_reach :: "layout \<Rightarrow> usize \<Rightarrow> 'a cslab \<Rightarrow> bool" for ent n where
  reach_new: "cslab_with_fixed_capacity ent n = Inr s \<Longrightarrow> slab_reach ent n s"
| reach_insert: "slab_reach ent n s \<Longrightarrow> cslab_insert s v = Inr (s', r) \<Longrightarrow> slab_reach ent n s'"
| reach_mark: "slab_reach ent n s \<Longrightarrow> cslab_mark_removed s i = Inr s' \<Longrightarrow> slab_reach ent n s'"
| reach_finalize: "slab_reach ent n s \<Longrightarrow> cslab_slot s i \<noteq> None \<Longrightarrow> cslab_visible s i = None \<Longrightarrow>
    cslab_finalize_remove s i = Inr (s', v) \<Longrightarrow> slab_reach ent n s'"

lemma allocated_occupied:
  assumes "cslab_wf s"
  shows "unat (allocated s) = card {i. slot_at (storage s) i \<noteq> None}"
proof -
  let ?n = "unat (st_size (storage s))" and ?occ = "{i. slot_at (storage s) i \<noteq> None}"
  obtain fl where st: "storage_wf (storage s)" and fl: "distinct fl" "set fl = free_slots (storage s)"
    and count: "unat (allocated s) + length fl = ?n"
    by (rule cslab_wfE [OF assms])
  have table: "length (st_table (storage s)) = ?n" by (rule storage_wf_dests(2) [OF st])
  have "?occ = {..<?n} - set fl"
    unfolding fl(2) free_slots_def by (auto simp: slot_at_Some_iff slot_at_None_iff table)
  moreover have "set fl \<subseteq> {..<?n}" unfolding fl(2) free_slots_def by (auto simp: table)
  ultimately have "card ?occ = ?n - length fl"
    using fl(1) by (simp add: card_Diff_subset distinct_card)
  with count show ?thesis by simp
qed

lemma allocated_bound: "cslab_wf s \<Longrightarrow> unat (allocated s) \<le> unat (cslab_capacity s)"
  by (auto simp: cslab_wf_def cslab_capacity_def storage_len_def)

text \<open>Every operation that returns keeps the invariant and the capacity.\<close>

lemma insert_keeps:
  assumes "cslab_wf s" and "cslab_insert s v = Inr (s', r)"
  shows "cslab_wf s'" and "cslab_capacity s' = cslab_capacity s"
proof -
  have "cslab_wf s' \<and> cslab_capacity s' = cslab_capacity s"
  proof (cases "unat (first_free s) < unat (st_size (storage s))")
    case True
    show ?thesis
      using assms(2)
      by (rule_tac cslab_insert_ok [OF assms(1) True, of v])
        (auto simp: cslab_capacity_def storage_len_def fill_slot_def)
  next
    case False
    with assms cslab_insert_full show ?thesis by fastforce
  qed
  then show "cslab_wf s'" and "cslab_capacity s' = cslab_capacity s" by blast+
qed

lemma mark_keeps:
  assumes "cslab_wf s" and "cslab_mark_removed s i = Inr s'"
  shows "cslab_wf s'" and "cslab_capacity s' = cslab_capacity s"
proof -
  have "flag_at (st_bitmap (storage s)) (unat i)"
    using cslab_mark_removed_panics [OF assms(1)] assms(2) by force
  with cslab_mark_removed_ok [OF assms(1)] assms(2)
  show "cslab_wf s'" and "cslab_capacity s' = cslab_capacity s"
    by (auto simp: cslab_capacity_def storage_len_def hide_slot_def)
qed

lemma finalize_keeps:
  assumes "cslab_wf s" and "cslab_slot s i \<noteq> None" and "cslab_visible s i = None"
    and "cslab_finalize_remove s i = Inr (s', v)"
  shows "cslab_wf s'" and "cslab_capacity s' = cslab_capacity s"
proof -
  obtain w where slot: "cslab_slot s i = Some w" using assms(2) by blast
  show "cslab_wf s'" using cslab.final_pending [OF assms(1) slot assms(3)] assms(4) by auto
  show "cslab_capacity s' = cslab_capacity s"
    using assms(4) by (auto simp: cslab_finalize_remove_def Let_def res_simps cslab_capacity_def storage_len_def)
qed

lemma slab_reach_wf:
  assumes "slab_reach ent n s" and "entry_layout_ok ent"
  shows "cslab_wf s \<and> cslab_capacity s = n"
  using assms(1)
proof induction
  case (reach_new s)
  with cslab_new_ok(1,3) [OF assms(2) reach_new] show ?case
    by (simp add: cslab_capacity_def storage_len_def)
next
  case (reach_insert s v s' r)
  with insert_keeps [of s v s' r] show ?case by simp
next
  case (reach_mark s i s')
  with mark_keeps [of s i s'] show ?case by simp
next
  case (reach_finalize s i s' v)
  with finalize_keeps [of s i s' v] show ?case by simp
qed

lemma visible_count: "cslab_wf s \<Longrightarrow> unat (in_use s) = card {i. cslab_visible s i \<noteq> None}"
proof -
  assume wf: "cslab_wf s"
  note st = cslab_wf_storage [OF wf]
  have "i < 2 ^ 64" if "flag_at (st_bitmap (storage s)) i" for i
    using storage_wf_dests(1,7) [OF st] that by fastforce
  then have "card {w :: usize. flag_at (st_bitmap (storage s)) (unat w)} =
      card {i. flag_at (st_bitmap (storage s)) i}"
    by (rule card_usize)
  moreover have "cslab_visible s w \<noteq> None \<longleftrightarrow> flag_at (st_bitmap (storage s)) (unat w)" for w
    using storage_wf_dests(6) [OF st, of "unat w"] by (auto simp: slot_views)
  ultimately show ?thesis using wf by (simp add: cslab_wf_def)
qed

lemma slot_count: "cslab_wf s \<Longrightarrow> unat (allocated s) = card {i. cslab_slot s i \<noteq> None}"
proof -
  assume wf: "cslab_wf s"
  note st = cslab_wf_storage [OF wf]
  have "i < 2 ^ 64" if "slot_at (storage s) i \<noteq> None" for i
    using that storage_wf_dests(1,2) [OF st] by (auto simp: slot_at_def split: if_splits)
  then have "card {w :: usize. slot_at (storage s) (unat w) \<noteq> None} =
      card {i. slot_at (storage s) i \<noteq> None}"
    by (rule card_usize)
  then show ?thesis using allocated_occupied [OF wf] by (simp add: cslab_slot_def)
qed

text \<open>
  C7. Every history of calls on a slab keeps its invariant, and the counts it reports are exact:
  \<open>len\<close> is the number of visible items, \<open>allocated\<close> the number of occupied slots, and
  \<open>len \<le> allocated \<le> capacity\<close>.
\<close>

theorem slab_history_counts:
  assumes "entry_layout_ok ent" and "slab_reach ent n s"
  shows "cslab_wf s \<and> cslab_capacity s = n \<and>
    unat (cslab_len s) = card {i. cslab_visible s i \<noteq> None} \<and>
    unat (cslab_allocated s) = card {i. cslab_slot s i \<noteq> None} \<and>
    cslab_len s \<le> cslab_allocated s \<and> cslab_allocated s \<le> cslab_capacity s"
  using slab_reach_wf [OF assms(2,1)] visible_count slot_count in_use_bound allocated_bound
  by (auto simp: cslab_len_def cslab_allocated_def word_le_nat_alt)

text \<open>A slab of two slots with the item 7 in slot 0, for the concrete instances below.\<close>

definition entry8 :: layout where
  "entry8 = \<lparr>lay_size = 8, lay_align = 8\<rparr>"

definition demo_slab :: "nat cslab" where
  "demo_slab = \<lparr>first_free = 1, in_use = 1, allocated = 1, storage =
     \<lparr>st_size = 2, st_frontier = 1, st_table = [Item 7, Next_free 0], st_bitmap = [1]\<rparr>\<rparr>"

lemma entry8_ok: "entry_layout_ok entry8"
  by (simp add: entry_layout_ok_def entry8_def)

lemma replicate_2: "replicate 2 x = [x, x]"
  by (simp add: numeral_2_eq_2)

lemma demo_new: "cslab_with_fixed_capacity entry8 2 = Inr
    \<lparr>first_free = 0, in_use = 0, allocated = 0, storage =
       \<lparr>st_size = 2, st_frontier = 0, st_table = [Next_free 0, Next_free 0 :: nat entry], st_bitmap = [0]\<rparr>\<rparr>"
  by (simp add: cslab_with_fixed_capacity_def storage_with_fixed_capacity_def storage_layout_def
      table_layout_def bitmap_layout_def bitmap_words_def layout_array_def layout_extend_def unwrap_def
      uadd_def usub_def entry8_def max_size_for_align_def isize_max_def round_up_def Let_def replicate_2)

lemma demo_insert: "cslab_insert
    \<lparr>first_free = 0, in_use = 0, allocated = 0, storage =
       \<lparr>st_size = 2, st_frontier = 0, st_table = [Next_free 0, Next_free 0], st_bitmap = [0]\<rparr>\<rparr> 7 =
    Inr (demo_slab, Inr 0)"
  by (simp add: cslab_insert_def demo_slab_def sadd_def uadd_def in_isize_def raise_frontier_def
      entry_next_free_def load_flags_def store_flags_def flag_of_def set_flag_def)

lemma demo_reach: "slab_reach entry8 2 demo_slab"
  by (rule reach_insert [OF reach_new [OF demo_new] demo_insert])

lemma demo_wf: "cslab_wf demo_slab"
  using slab_reach_wf [OF demo_reach entry8_ok] by blast

theorem slab_history_counts_witness:
  "cslab_wf demo_slab \<and> unat (cslab_len demo_slab) = 1 \<and>
    card {i. cslab_visible demo_slab i \<noteq> None} = 1 \<and> card {i. cslab_slot demo_slab i \<noteq> None} = 1"
  using slab_history_counts [OF entry8_ok demo_reach]
  by (simp add: cslab_len_def cslab_allocated_def demo_slab_def)

section \<open>Insertion and removal\<close>

lemma counts_nonzero_sub: "0 < unat w \<Longrightarrow> unat (w - 1 :: usize) = unat w - 1"
  by (simp add: unat_sub_no_wrap)

text \<open>
  C15. \<open>insert\<close> fails, changing nothing, exactly when every slot is allocated. Otherwise it
  stores the item in a slot that was free, which \<open>vacant_key\<close> had announced and
  \<open>vacant_entry\<close> would have used, makes it visible, touches no other slot, and adds one to both counts.
\<close>

theorem insert_spec:
  assumes "cslab_wf s"
  shows "if cslab_allocated s = cslab_capacity s
    then cslab_insert s v = Inr (s, Inl ()) \<and> cslab_vacant_key s = Inl () \<and> cslab_vacant_entry s = Inl ()
    else \<exists>s' i. cslab_insert s v = Inr (s', Inr i) \<and> i < cslab_capacity s \<and>
      cslab_vacant_key s = Inr i \<and> cslab_vacant_entry s = Inr s \<and> vacant_entry_key s = i \<and>
      vacant_entry_insert s v = Inr (s', i) \<and>
      cslab_slot s i = None \<and> cslab_slot s' = (cslab_slot s)(i \<mapsto> v) \<and>
      cslab_visible s' = (cslab_visible s)(i \<mapsto> v) \<and>
      cslab_len s' = cslab_len s + 1 \<and> cslab_allocated s' = cslab_allocated s + 1 \<and> cslab_wf s'"
proof -
  have full: "cslab_allocated s = cslab_capacity s \<longleftrightarrow>
      \<not> unat (first_free s) < unat (st_size (storage s))"
    using first_free_cases(1) [OF assms] allocated_bound [OF assms]
    by (auto simp: cslab_allocated_def cslab_capacity_def storage_len_def word_unat_eq_iff)
  note vacant = cslab_vacant_key_eq [OF assms]
  have table: "length (st_table (storage s)) = unat (st_size (storage s))"
    by (rule storage_wf_dests(2) [OF cslab_wf_storage [OF assms]])
  show ?thesis
  proof (cases "unat (first_free s) < unat (st_size (storage s))")
    case False
    then show ?thesis
      using full vacant cslab_insert_full [OF assms] table by (simp add: cslab_vacant_entry_def)
  next
    case True
    then have key: "cslab_vacant_key s = Inr (first_free s)" using vacant by simp
    obtain s' where ins: "cslab_insert s v = Inr (s', Inr (first_free s))" and
      views: "cslab_slot s (first_free s) = None" "cslab_wf s'"
      "cslab_slot s' = (cslab_slot s)(first_free s \<mapsto> v)"
      "cslab_visible s' = (cslab_visible s)(first_free s \<mapsto> v)"
      using cslab.insert_vacant [OF assms key] by blast
    moreover have "cslab_len s' = cslab_len s + 1 \<and> cslab_allocated s' = cslab_allocated s + 1"
      by (rule cslab_insert_ok [OF assms True, of v])
        (use ins in \<open>auto simp: cslab_len_def cslab_allocated_def\<close>)
    ultimately show ?thesis
      using full True key table
      by (auto simp: cslab_vacant_entry_def vacant_entry_key_def vacant_entry_insert_def
          cslab_capacity_def storage_len_def word_less_nat_alt)
  qed
qed

theorem insert_spec_witness:
  "\<exists>s'. cslab_insert demo_slab 9 = Inr (s', Inr 1) \<and> cslab_visible s' 1 = Some 9 \<and> cslab_visible s' 0 = Some 7"
proof -
  have "cslab_allocated demo_slab \<noteq> cslab_capacity demo_slab" and "cslab_vacant_key demo_slab = Inr 1"
    and "cslab_visible demo_slab 0 = Some 7"
    by code_simp+
  with insert_spec [OF demo_wf, of 9] show ?thesis by auto
qed

text \<open>
  The life of an item: an item inserted into a slab with room is returned by lookups until it
  is marked, by none afterwards, and \<open>finalize_remove\<close> gives back that very item; the slab then has
  the slots and items it had before, and the slot is the next one used.
\<close>

theorem slab_item_life:
  assumes "cslab_wf s" and "cslab_vacant_key s = Inr i"
  shows "\<exists>s1 s2 s3. cslab_insert s v = Inr (s1, Inr i) \<and> cslab_get s1 i = Inr (Some v) \<and>
    cslab_mark_removed s1 i = Inr s2 \<and> cslab_get s2 i = Inr None \<and>
    cslab_finalize_remove s2 i = Inr (s3, v) \<and>
    cslab_slot s3 = cslab_slot s \<and> cslab_visible s3 = cslab_visible s \<and>
    cslab_vacant_key s3 = Inr i \<and> cslab_wf s3"
  by (rule cslab.item_life [OF assms])

theorem slab_item_life_witness:
  "\<exists>s1 s2 s3. cslab_insert demo_slab 9 = Inr (s1, Inr 1) \<and> cslab_get s1 1 = Inr (Some 9) \<and>
    cslab_mark_removed s1 1 = Inr s2 \<and> cslab_finalize_remove s2 1 = Inr (s3, 9)"
proof -
  have "cslab_vacant_key demo_slab = Inr 1" by code_simp
  from slab_item_life [OF demo_wf this, of 9] show ?thesis by blast
qed

text \<open>
  \<open>mark_removed\<close> takes an item out of sight and leaves its slot occupied; on an index
  without a visible item it panics.
\<close>

theorem mark_removed_spec:
  assumes "cslab_wf s"
  shows "(case cslab_visible s i of
      None \<Rightarrow> cslab_mark_removed s i \<in> {Inl Panic_assert, Inl Panic_index}
    | Some v \<Rightarrow> \<exists>s'. cslab_mark_removed s i = Inr s' \<and> cslab_wf s' \<and> cslab_slot s' = cslab_slot s \<and>
        cslab_visible s' = (cslab_visible s)(i := None) \<and>
        cslab_allocated s' = cslab_allocated s \<and> cslab_len s' = cslab_len s - 1 \<and> 0 < cslab_len s)"
proof (cases "cslab_visible s i")
  case None
  then show ?thesis using cslab.mark_absent [OF assms] by simp
next
  case (Some v)
  then have flag: "flag_at (st_bitmap (storage s)) (unat i)"
    by (simp add: slot_views split: if_splits)
  have "finite {i. cslab_visible s i \<noteq> None}" by simp
  moreover have "{i. cslab_visible s i \<noteq> None} \<noteq> {}" using Some by blast
  ultimately have "0 < unat (in_use s)" using visible_count [OF assms] by (simp add: card_gt_0_iff)
  with Some cslab.mark_visible [OF assms Some] cslab_mark_removed_ok(1) [OF assms flag] show ?thesis
    by (auto simp: cslab_len_def cslab_allocated_def word_less_nat_alt)
qed

theorem mark_removed_spec_witness:
  "\<exists>s'. cslab_mark_removed demo_slab 0 = Inr s' \<and> cslab_visible s' 0 = None \<and>
    cslab_slot s' 0 = Some 7 \<and> cslab_mark_removed demo_slab 1 \<in> {Inl Panic_assert, Inl Panic_index}"
proof -
  have "cslab_visible demo_slab 0 = Some 7" and "cslab_visible demo_slab 1 = None"
    and "cslab_slot demo_slab 0 = Some 7"
    by code_simp+
  with mark_removed_spec [OF demo_wf, of 0] mark_removed_spec [OF demo_wf, of 1] show ?thesis by auto
qed

text \<open>
  C22. Every outcome of \<open>finalize_remove\<close>: on a pending index it frees the slot and returns its
  item; on a visible item and beyond the table it panics; on a slot that is already free it is
  undefined behaviour, which nothing in the code detects.
\<close>

theorem finalize_remove_outcomes:
  assumes "cslab_wf s"
  shows "(if cslab_capacity s \<le> i then cslab_finalize_remove s i = Inl Panic_index
    else case (cslab_slot s i, cslab_visible s i) of
      (None, _) \<Rightarrow> cslab_finalize_remove s i = Inl Undefined
    | (Some v, Some _) \<Rightarrow> cslab_finalize_remove s i = Inl Panic_assert
    | (Some v, None) \<Rightarrow> \<exists>s'. cslab_finalize_remove s i = Inr (s', v) \<and> cslab_wf s' \<and>
        cslab_slot s' = (cslab_slot s)(i := None) \<and> cslab_visible s' = cslab_visible s \<and>
        cslab_vacant_key s' = Inr i \<and> cslab_len s' = cslab_len s \<and>
        cslab_allocated s' = cslab_allocated s - 1)"
proof -
  note st = cslab_wf_storage [OF assms]
  note table = storage_wf_dests(2) [OF st]
  let ?i = "unat i" and ?bm = "st_bitmap (storage s)"
  show ?thesis
  proof (cases "unat i < unat (st_size (storage s))")
    case False
    then have "\<not> flag_at ?bm ?i" using storage_wf_dests(7) [OF st] by blast
    then have "cslab_finalize_remove s i = Inl Panic_index"
      using False table
      by (cases "?i div 64 < length ?bm")
        (simp_all add: cslab_finalize_remove_def load_flags_def unat_div_64 index_def flag_at_word)
    then show ?thesis using False
      by (simp add: cslab_capacity_def storage_len_def word_le_nat_alt)
  next
    case True
    note load = load_flags_ok [OF st True]
    have "\<not> cslab_capacity s \<le> i"
      using True by (simp add: cslab_capacity_def storage_len_def word_le_nat_alt)
    moreover have "cslab_finalize_remove s i = Inl Undefined" if free: "cslab_slot s i = None"
    proof -
      obtain d where "st_table (storage s) ! ?i = Next_free d"
        using free True table by (auto simp: cslab_slot_def slot_at_def split: entry.splits)
      moreover have "\<not> flag_at ?bm ?i" using free storage_wf_dests(6) [OF st, of ?i] by (auto simp: cslab_slot_def)
      ultimately show ?thesis
        using load True table by (simp add: cslab_finalize_remove_def flag_at_word entry_item_def)
    qed
    moreover have "cslab_finalize_remove s i = Inl Panic_assert" if "cslab_visible s i \<noteq> None"
      using that load by (simp add: slot_views cslab_finalize_remove_def flag_at_word split: if_splits)
    moreover have "cslab_len s' = cslab_len s \<and> cslab_allocated s' = cslab_allocated s - 1"
      if "cslab_finalize_remove s i = Inr (s', v)" for s' v
      using that by (auto simp: cslab_finalize_remove_def Let_def res_simps cslab_len_def
          cslab_allocated_def usub_def split: if_splits)
    ultimately show ?thesis
      using cslab.final_pending [OF assms, of i]
      by (auto split: option.splits)
  qed
qed

theorem finalize_remove_outcomes_witness:
  "cslab_finalize_remove demo_slab 0 = Inl Panic_assert \<and> cslab_finalize_remove demo_slab 1 = Inl Undefined \<and>
    cslab_finalize_remove demo_slab 2 = Inl Panic_index"
proof -
  have "cslab_visible demo_slab 0 = Some 7" and "cslab_slot demo_slab 0 = Some 7"
    and "cslab_slot demo_slab 1 = None" and "cslab_capacity demo_slab = 2" and "\<not> (2 :: usize) \<le> 1"
    by code_simp+
  with finalize_remove_outcomes [OF demo_wf, of 0] finalize_remove_outcomes [OF demo_wf, of 1]
    finalize_remove_outcomes [OF demo_wf, of 2]
  show ?thesis by simp
qed

section \<open>The allocation\<close>

lemma round_up_ge: "0 < al \<Longrightarrow> sz \<le> round_up sz al"
proof -
  assume "0 < al"
  have "sz + al - 1 = (sz + al - 1) div al * al + (sz + al - 1) mod al" by simp
  moreover have "(sz + al - 1) mod al < al" using \<open>0 < al\<close> by simp
  ultimately show ?thesis unfolding round_up_def by linarith
qed

text \<open>
  C23. When \<open>with_fixed_capacity\<close> gets a layout, the table of \<open>n\<close> entries lies before the
  bitmap, the bitmap starts at a multiple of 8 and has a bit for every entry, both end inside
  the block, the block is at most \<open>isize::MAX\<close> bytes and aligned for both parts.
\<close>

theorem storage_layout_regions:
  assumes "entry_layout_ok ent" and "storage_layout ent n = Inr (lay, off)"
  shows "lay_size ent * unat n \<le> off \<and> 8 dvd off \<and>
    off + 8 * ((unat n + 63) div 64) = lay_size lay \<and> unat n \<le> 64 * ((unat n + 63) div 64) \<and>
    lay_size lay \<le> isize_max \<and> lay_align ent \<le> lay_align lay \<and> 8 \<le> lay_align lay"
proof -
  obtain t b where t: "table_layout ent n = Inr t" and b: "bitmap_layout n = Inr b"
    and ext: "layout_extend t b = Some (lay, off)"
    using assms(2) by (auto simp: storage_layout_def res_simps unwrap_def split: option.splits)
  obtain w where w: "bitmap_words n = Inr w" "unat w = (unat n + 63) div 64"
    using bitmap_words_ok [OF table_layout_small [OF assms(1) t]] by blast
  have t': "t = \<lparr>lay_size = lay_size ent * unat n, lay_align = lay_align ent\<rparr>"
    using t by (auto simp: table_layout_def unwrap_def layout_array_def split: if_splits)
  have b': "b = \<lparr>lay_size = 8 * ((unat n + 63) div 64), lay_align = 8\<rparr>"
    using b w by (auto simp: bitmap_layout_def unwrap_def layout_array_def split: if_splits)
  have off: "off = round_up (lay_size ent * unat n) 8"
    and lay: "lay = \<lparr>lay_size = off + 8 * ((unat n + 63) div 64), lay_align = max (lay_align ent) 8\<rparr>"
    and fits: "lay_size lay \<le> max_size_for_align (lay_align lay)"
    using ext by (auto simp: t' b' layout_extend_def Let_def split: if_splits)
  have "lay_size lay \<le> isize_max"
    using fits by (auto simp: lay max_size_for_align_def)
  moreover have "unat n \<le> 64 * ((unat n + 63) div 64)"
    using div_mult_mod_eq [of "unat n + 63" 64] mod_less_divisor [of 64 "unat n + 63"] by linarith
  moreover have "8 dvd off" by (simp add: off round_up_def)
  ultimately show ?thesis using round_up_ge [of 8 "lay_size ent * unat n"] by (simp add: off lay)
qed

theorem storage_layout_regions_witness:
  "storage_layout \<lparr>lay_size = 24, lay_align = 8\<rparr> 100 = Inr (\<lparr>lay_size = 2416, lay_align = 8\<rparr>, 2400) \<and>
    lay_size \<lparr>lay_size = 24, lay_align = 8\<rparr> * unat (100 :: usize) \<le> 2400"
proof -
  have lay: "storage_layout \<lparr>lay_size = 24, lay_align = 8\<rparr> 100 = Inr (\<lparr>lay_size = 2416, lay_align = 8\<rparr>, 2400)"
    by (simp add: storage_layout_def table_layout_def bitmap_layout_def bitmap_words_def layout_array_def
        layout_extend_def unwrap_def uadd_def usub_def max_size_for_align_def isize_max_def round_up_def Let_def)
  moreover have "entry_layout_ok \<lparr>lay_size = 24, lay_align = 8\<rparr>" by (simp add: entry_layout_ok_def)
  ultimately show ?thesis using storage_layout_regions by blast
qed

section \<open>Iteration and drop\<close>

text \<open>
  C14. An iterator over a slab delivers its visible items, each once and in index order, whatever
  mix of \<open>next\<close> and \<open>next_back\<close> is called: what came from the front, what is left and what
  came from the back (latest first) is the sequence of visible items, and each call shortens
  what is left by one until nothing is.
\<close>

theorem iteration_from_both_ends:
  assumes "storage_wf st"
  shows "\<exists>it it' fs bs. reader_iter st = Inr it \<and>
    calls (iter_next st) (iter_next_back st) it ds = Inr (it', fs, bs) \<and>
    visible_items st = fs @ iter_items st it' @ rev bs \<and>
    length (iter_items st it') = length (visible_items st) - length ds \<and>
    (\<forall>i v. (i, v) \<in> set (visible_items st) \<longleftrightarrow> reader_get st i = Inr (Some v)) \<and>
    distinct (map fst (visible_items st)) \<and> sorted_wrt (<) (map (unat \<circ> fst) (visible_items st))"
  using iter_new_ok [OF assms] iter.calls_split [of st _ ds] visible_items_exact [OF assms]
    get_impl_eq [OF assms]
  by (fastforce simp: reader_iter_def reader_get_def)

theorem iteration_from_both_ends_witness:
  "\<exists>it it' fs bs. reader_iter (storage demo_slab) = Inr it \<and>
    calls (iter_next (storage demo_slab)) (iter_next_back (storage demo_slab)) it [False, True] =
      Inr (it', fs, bs) \<and> fs @ rev bs = [(0, 7)]"
proof -
  have "visible_items (storage demo_slab) = [(0, 7)]"
    by (simp add: visible_items_def flags_between_def demo_slab_def flag_at_def item_of_def slot_at_def
        upt_rec [of 0] upt_rec [of "Suc 0"])
  with iteration_from_both_ends [OF cslab_wf_storage [OF demo_wf], of "[False, True]"]
  show ?thesis by auto
qed

text \<open>
  C24. Dropping the storage returns, and drops exactly the visible items, each once. An item that
  was marked and not finalized is among the occupied slots and is not dropped: it leaks.
\<close>

theorem storage_drop_exact:
  assumes "storage_wf st" and "storage_layout ent (st_size st) = Inr lay"
  shows "storage_drop ent st = Some (Inr (map snd (visible_items st))) \<and>
    (\<forall>i v. (i, v) \<in> set (visible_items st) \<longleftrightarrow> visible_at st (unat i) = Some v) \<and>
    distinct (map fst (visible_items st))"
  using storage_drop_eq [OF assms] visible_items_exact [OF assms(1)] by simp

lemma demo_layout: "storage_layout entry8 2 = Inr (\<lparr>lay_size = 24, lay_align = 8\<rparr>, 16)"
  by (simp add: storage_layout_def table_layout_def bitmap_layout_def bitmap_words_def layout_array_def
        layout_extend_def unwrap_def uadd_def usub_def max_size_for_align_def isize_max_def round_up_def
        Let_def entry8_def)

theorem storage_drop_exact_witness:
  "\<exists>s'. cslab_mark_removed demo_slab 0 = Inr s' \<and> cslab_slot s' 0 = Some 7 \<and>
    storage_drop entry8 (storage s') = Some (Inr [])"
proof -
  obtain s' where s': "cslab_mark_removed demo_slab 0 = Inr s'" "cslab_slot s' 0 = Some 7"
    and bm: "st_bitmap (storage s') = [0]" and sz: "st_size (storage s') = 2"
    by (simp add: cslab_mark_removed_def demo_slab_def load_flags_def store_flags_def flag_of_def
        clear_flag_def usub_def cslab_slot_def slot_at_def)
  have "storage_wf (storage s')" using mark_keeps(1) [OF demo_wf s'(1)] by (rule cslab_wf_storage)
  moreover have "visible_items (storage s') = []"
    by (simp add: visible_items_def flags_between_def bm sz flag_at_def upt_rec [of 0] upt_rec [of "Suc 0"])
  ultimately show ?thesis
    using storage_drop_exact [of "storage s'" entry8] sz demo_layout s' by auto
qed

text \<open>
  \<open>Cslab::iter\<close> announces the right number of items; after one \<open>next\<close> it still announces
  that number, so \<open>len()\<close> of this \<open>ExactSizeIterator\<close> is one too large.
\<close>

theorem excl_iter_len_stale:
  assumes "cslab_wf s"
  shows "\<exists>e. cslab_iter s = Inr e \<and>
    unat (excl_iter_count e) = length (excl_iter_items (storage s) e) \<and>
    (cslab_len s \<noteq> 0 \<longrightarrow> (\<exists>e' x. excl_iter_next (storage s) e = Inr (e', Some x) \<and>
      unat (fst (excl_iter_size_hint e')) = length (excl_iter_items (storage s) e') + 1))"
proof -
  note st = cslab_wf_storage [OF assms]
  obtain it where it: "iter_new (storage s) = Inr it" "iter_ok (storage s) it"
    "iter_items (storage s) it = visible_items (storage s)"
    using iter_new_ok [OF st] by blast
  define e where "e = \<lparr>ex_iter = it, ex_in_use = in_use s\<rparr>"
  have e: "cslab_iter s = Inr e" "excl_iter_items (storage s) e = visible_items (storage s)"
    "excl_iter_ok (storage s) e"
    using it by (simp_all add: cslab_iter_def excl_iter_new_def e_def excl_iter_items_def excl_iter_ok_def)
  note count = visible_items_count [OF assms]
  obtain e' where e': "excl_iter_next (storage s) e =
      Inr (e', case excl_iter_items (storage s) e of [] \<Rightarrow> None | x # _ \<Rightarrow> Some x)"
    "excl_iter_items (storage s) e' = tl (excl_iter_items (storage s) e)"
    using excl_iter.next_front_ok [OF e(3)] by blast
  have "ex_in_use e' = in_use s"
    using e'(1) by (auto simp: excl_iter_next_def res_simps e_def split: prod.splits)
  with count e e' show ?thesis
    by (cases "visible_items (storage s)")
      (auto simp: excl_iter_count_def excl_iter_size_hint_def e_def cslab_len_def word_unat_eq_iff)
qed

theorem excl_iter_len_stale_witness:
  "\<exists>e e' x. cslab_iter demo_slab = Inr e \<and> excl_iter_next (storage demo_slab) e = Inr (e', Some x) \<and>
    unat (fst (excl_iter_size_hint e')) = length (excl_iter_items (storage demo_slab) e') + 1"
proof -
  have "cslab_len demo_slab \<noteq> 0" by code_simp
  with excl_iter_len_stale [OF demo_wf] show ?thesis by blast
qed

end
