(* ===== verification/Rcu_World.thy ===== *)
theory Rcu_World
  imports Rcu_Inv Cslab_Props
begin

text \<open>
  A program that uses one \<open>RcuCslab\<close>: the slab, the read handles it gave out, and the removing
  iterator with its proxies while they borrow the slab. Every call is a step; steps of readers
  interleave with those of the writer. The invariant covers every program, and under it an item a
  handle may have seen stays in its slot for as long as the handle lives.
\<close>

section \<open>Programs\<close>

text \<open>
  A handle is the number of its generation. \<open>iter_mut\<close> borrows the slab exclusively: the slab is usable again when the iterator
  and all proxies are gone.
\<close>

record 'a world =
  w_rcu :: "'a rcu"
  w_readers :: "nat list"
  w_iter :: "rcu_iter_mut option"
  w_entries :: "'a rcu_entry list"

definition slab_free :: "'a world \<Rightarrow> bool" where
  "slab_free w \<longleftrightarrow> rc_owner (w_rcu w) \<and> w_iter w = None \<and> w_entries w = []"

inductive world_step :: "layout \<Rightarrow> 'a world \<Rightarrow> 'a world \<Rightarrow> bool" for ent where
  step_insert: "slab_free w \<Longrightarrow> rcu_insert v (w_rcu w) = (s, Inr r) \<Longrightarrow> world_step ent w (w\<lparr>w_rcu := s\<rparr>)"
| step_mark: "slab_free w \<Longrightarrow> rcu_mark_removed i (w_rcu w) = (s, Inr u) \<Longrightarrow> world_step ent w (w\<lparr>w_rcu := s\<rparr>)"
| step_schedule: "slab_free w \<Longrightarrow> rcu_schedule_finalization (w_rcu w) = (s, Inr g) \<Longrightarrow>
    world_step ent w (w\<lparr>w_rcu := s, w_readers := g # w_readers w\<rparr>)"
| step_reader: "slab_free w \<Longrightarrow> rcu_reader (w_rcu w) = (s, Inr g) \<Longrightarrow>
    world_step ent w (w\<lparr>w_rcu := s, w_readers := g # w_readers w\<rparr>)"
| step_clone: "g \<in> set (w_readers w) \<Longrightarrow> rcu_reader_clone g (w_rcu w) = (s, Inr g') \<Longrightarrow>
    world_step ent w (w\<lparr>w_rcu := s, w_readers := g' # w_readers w\<rparr>)"
| step_reader_drop: "g \<in> set (w_readers w) \<Longrightarrow> rcu_reader_drop ent g (w_rcu w) = (s, Inr u) \<Longrightarrow>
    world_step ent w (w\<lparr>w_rcu := s, w_readers := remove1 g (w_readers w)\<rparr>)"
| step_iter_mut: "slab_free w \<Longrightarrow> rcu_iter_mut_new (w_rcu w) = (s, Inr rim) \<Longrightarrow>
    world_step ent w (w\<lparr>w_rcu := s, w_iter := Some rim\<rparr>)"
| step_next: "w_iter w = Some rim \<Longrightarrow> rim_next rim (w_rcu w) = (s, Inr (rim', x)) \<Longrightarrow>
    world_step ent w (w\<lparr>w_rcu := s, w_iter := Some rim', w_entries := option_list x @ w_entries w\<rparr>)"
| step_next_back: "w_iter w = Some rim \<Longrightarrow> rim_next_back rim (w_rcu w) = (s, Inr (rim', x)) \<Longrightarrow>
    world_step ent w (w\<lparr>w_rcu := s, w_iter := Some rim', w_entries := option_list x @ w_entries w\<rparr>)"
| step_iter_drop: "w_iter w = Some rim \<Longrightarrow> rim_drop (w_rcu w) = (s, Inr u) \<Longrightarrow>
    world_step ent w (w\<lparr>w_rcu := s, w_iter := None\<rparr>)"
| step_entry_remove: "e \<in> set (w_entries w) \<Longrightarrow> entry_remove e (w_rcu w) = (s, Inr u) \<Longrightarrow>
    world_step ent w (w\<lparr>w_rcu := s, w_entries := remove1 e (w_entries w)\<rparr>)"
| step_entry_drop: "e \<in> set (w_entries w) \<Longrightarrow> entry_drop e (w_rcu w) = (s, Inr u) \<Longrightarrow>
    world_step ent w (w\<lparr>w_rcu := s, w_entries := remove1 e (w_entries w)\<rparr>)"
| step_drop: "slab_free w \<Longrightarrow> rcu_drop ent (w_rcu w) = (s, Inr u) \<Longrightarrow> world_step ent w (w\<lparr>w_rcu := s\<rparr>)"

section \<open>The invariant\<close>

definition world_handles :: "'a world \<Rightarrow> nat list" where
  "world_handles w = w_readers w @ map re_gen (w_entries w)"

definition world_refs :: "'a world \<Rightarrow> nat \<Rightarrow> nat" where
  "world_refs w g = count_list (world_handles w) g +
     (if rc_owner (w_rcu w) \<and> g = rc_cur (w_rcu w) then 1 else 0)"

text \<open>
  The borrow: proxies refer to distinct visible items, no handle is newer than a proxy, and what
  the iterator has left is not among the proxies.
\<close>

definition entries_ok :: "'a world \<Rightarrow> bool" where
  "entries_ok w \<longleftrightarrow> distinct (map re_idx (w_entries w)) \<and>
     (\<forall>e \<in> set (w_entries w). rc_owner (w_rcu w) \<and> rvisible (w_rcu w) (re_idx e) = Some (re_value e) \<and>
        (\<forall>r \<in> set (world_handles w). r \<le> re_gen e) \<and> (w_iter w \<noteq> None \<longrightarrow> re_gen e = rc_cur (w_rcu w)))"

definition iter_mut_ok :: "'a world \<Rightarrow> bool" where
  "iter_mut_ok w \<longleftrightarrow> (case w_iter w of
       None \<Rightarrow> True
     | Some rim \<Rightarrow> rc_owner (w_rcu w) \<and> iter_ok (rcu_storage (w_rcu w)) (rim_iter rim) \<and>
         unat (rim_remaining rim) = length (iter_rest (rcu_storage (w_rcu w)) (rim_iter rim)) \<and>
         (\<forall>e \<in> set (w_entries w). unat (re_idx e) \<notin> set (iter_rest (rcu_storage (w_rcu w)) (rim_iter rim))))"

definition layout_known :: "layout \<Rightarrow> 'a rcu \<Rightarrow> bool" where
  "layout_known ent s \<longleftrightarrow> (\<exists>lay. storage_layout ent (cslab_capacity (rc_writer s)) = Inr lay)"

definition world_inv :: "layout \<Rightarrow> 'a world \<Rightarrow> bool" where
  "world_inv ent w \<longleftrightarrow>
     (\<exists>lo. rcu_inv (w_rcu w) (world_refs w) lo) \<and>
     (rc_owner (w_rcu w) \<longrightarrow> Suc (rc_cur (w_rcu w)) = ngens (w_rcu w)) \<and>
     entries_ok w \<and> iter_mut_ok w \<and> layout_known ent (w_rcu w)"

section \<open>Protection\<close>

text \<open>
  What a handle of generation \<open>r\<close> relies on for the item \<open>v\<close> at \<open>i\<close>: the item is in its slot, and
  if it is pending, then in a generation that the handle keeps alive.
\<close>

definition protected :: "'a rcu \<Rightarrow> nat \<Rightarrow> usize \<Rightarrow> 'a \<Rightarrow> bool" where
  "protected s r i v \<longleftrightarrow> rslot s i = Some v \<and>
     (rvisible s i = Some v \<or> (\<exists>p \<ge> r. i \<in> set (pending_of s p)))"

definition keeps :: "'a world \<Rightarrow> 'a world \<Rightarrow> bool" where
  "keeps w w' \<longleftrightarrow> (\<forall>r i v. r \<in> set (world_handles w) \<longrightarrow> r \<in> set (world_handles w') \<longrightarrow>
     protected (w_rcu w) r i v \<longrightarrow> protected (w_rcu w') r i v)"

lemma pending_bounds:
  assumes "rcu_inv s ext lo" and "i \<in> set (pending_of s p)"
  shows "lo \<le> p" and "p < ngens s" and "i \<in> set (pending_in s lo (ngens s))"
proof -
  note gens = gens_wfD [OF rcu_invD(3) [OF assms(1)]]
  have "gen_at s p \<noteq> None" using assms(2) by (cases "gen_at s p") (simp_all add: pending_of_def)
  then have "lo \<le> p \<and> p < ngens s" using gens(3) by (rule contrapos_np)
  then show lo: "lo \<le> p" and n: "p < ngens s" by simp_all
  then show "i \<in> set (pending_in s lo (ngens s))" using assms(2) by (auto simp: set_pending_in)
qed

lemma finalized_protected:
  assumes inv: "rcu_inv s ext lo" and fin: "finalized s s' lo hi" and hi: "lo \<le> hi" "hi \<le> ngens s"
    and r: "hi \<le> r" and prot: "protected s r i v"
  shows "protected s' r i v"
proof -
  have split: "pending_in s lo (ngens s) = pending_in s lo hi @ pending_in s hi (ngens s)"
    by (rule pending_in_split [OF hi])
  have "distinct (pending_in s lo (ngens s))" using rcu_invD(4) [OF inv] by (simp add: pending_wf_def)
  moreover have "set (pending_in s lo (ngens s)) \<subseteq> {i. rvisible s i = None}"
    using rcu_invD(4) [OF inv] by (auto simp: pending_wf_def)
  moreover have "i \<in> set (pending_in s hi (ngens s))" if "p \<ge> r" "i \<in> set (pending_of s p)" for p
    using pending_bounds [OF inv that(2)] that r by (auto simp: set_pending_in)
  ultimately have "i \<notin> set (pending_in s lo hi)"
    using prot unfolding protected_def split by auto
  then show ?thesis using prot fin r by (auto simp: protected_def finalized_def)
qed

lemma count_list_remove1:
  "g \<in> set xs \<Longrightarrow> count_list (remove1 g xs) k = (if k = g then count_list xs k - 1 else count_list xs k)"
proof (induction xs)
  case (Cons x xs)
  then show ?case by (cases "x = g") (auto simp: count_list_0_iff gr0_conv_Suc intro!: Suc_pred)
qed simp

section \<open>The capacity never changes\<close>

abbreviation rcap :: "'a rcu \<Rightarrow> usize" where
  "rcap s \<equiv> cslab_capacity (rc_writer s)"

lemma finalize_list_cap: "cslab_capacity (fst (finalize_list is w)) = cslab_capacity w"
proof (induction "is" arbitrary: w)
  case (Cons i "is")
  have "cslab_capacity w' = cslab_capacity w" if "cslab_finalize_remove w i = Inr (w', v)" for w' v
    using that by (auto simp: cslab_finalize_remove_def Let_def res_simps cslab_capacity_def storage_len_def)
  with Cons show ?case
    by (auto simp: abind_def lift_writer_def split: prod.splits sum.splits) (metis fst_conv)+
qed simp

lemma with_writer_cap:
  assumes "\<And>w. cslab_capacity (fst (f w)) = cslab_capacity w"
  shows "rcap (fst (with_writer f s)) = rcap s"
  using assms [of "rc_writer s"] by (cases "f (rc_writer s)") (simp add: with_writer_def)

lemma set_gen_writer [simp]: "rc_writer (set_gen g x s) = rc_writer s"
  by (simp add: set_gen_def)

lemma gen_drop_cap: "rcap (fst (gen_drop gn s)) = rcap s"
proof -
  have "rcap (fst (with_writer (if g_poisoned gn then \<lambda>w. (w, Inl Panic_poisoned)
      else finalize_list (g_pending gn)) s)) = rcap s"
    by (rule with_writer_cap) (simp add: finalize_list_cap)
  then show ?thesis by (auto simp: gen_drop_def abind_def split: prod.splits sum.splits)
qed

lemma arc_drop_cap: "rcap (fst (arc_drop g s)) = rcap s"
proof (induction g s rule: arc_drop.induct)
  case (1 g s)
  show ?case
  proof (cases "gen_at s g")
    case None
    then show ?thesis by (subst arc_drop.simps) simp
  next
    case (Some gn)
    obtain s1 r where drop: "gen_drop gn s = (s1, r)" by fastforce
    have cap: "rcap s1 = rcap s" using gen_drop_cap [of gn s] drop by simp
    show ?thesis
    proof (cases "g_strong gn > 1 \<or> g_next gn = None")
      case True
      then show ?thesis using Some drop cap by (subst arc_drop.simps) auto
    next
      case False
      then obtain n where n: "g_next gn = Some n" "\<not> g_strong gn > 1" by auto
      then show ?thesis
        using "1" [OF Some n(2) drop [symmetric] n(1)] Some drop cap
        by (subst arc_drop.simps) (auto split: prod.splits)
    qed
  qed
qed

lemma arc_clone_cap: "rcap (fst (arc_clone g s)) = rcap s"
  by (simp add: arc_clone_def split: option.splits)

lemma layout_known_cap: "rcap s' = rcap s \<Longrightarrow> layout_known ent s' = layout_known ent s"
  by (simp add: layout_known_def)

section \<open>Steps keep the invariant and protect items\<close>

lemma ext_handle: "r \<in> set (world_handles w) \<Longrightarrow> 0 < world_refs w r"
  using count_list_0_iff [of "world_handles w" r] by (simp add: world_refs_def)

lemma ext_cur: "rc_owner (w_rcu w) \<Longrightarrow> 0 < world_refs w (rc_cur (w_rcu w))"
  by (simp add: world_refs_def)

lemma keeps_finalized:
  assumes "rcu_inv (w_rcu w) ext lo" and "finalized (w_rcu w) (w_rcu w') lo hi"
    and "lo \<le> hi" and "hi \<le> ngens (w_rcu w)" and "rcu_inv (w_rcu w') (world_refs w') hi"
  shows "keeps w w'"
  unfolding keeps_def
proof (intro allI impI)
  fix r i v
  assume "r \<in> set (world_handles w')" and prot: "protected (w_rcu w) r i v"
  then have "hi \<le> r" using gens_wfD(4) [OF rcu_invD(3) [OF assms(5)] ext_handle] by blast
  then show "protected (w_rcu w') r i v" using finalized_protected [OF assms(1-4)] prot by blast
qed

text \<open>
  A change of the handles by \<open>clone\<close> or by a release. The borrow is untouched as long as the
  visible items are; the iterator also depends on the storage's flags.
\<close>

definition same_view :: "'a rcu \<Rightarrow> 'a rcu \<Rightarrow> bool" where
  "same_view s s' \<longleftrightarrow> rvisible s' = rvisible s \<and>
     (\<forall>it. iter_ok (rcu_storage s) it \<longrightarrow>
        iter_ok (rcu_storage s') it \<and> iter_rest (rcu_storage s') it = iter_rest (rcu_storage s) it)"

lemma iter_rest_visible:
  assumes "cslab_wf (rc_writer s)" and "iter_ok (rcu_storage s) it"
  shows "i \<in> set (iter_rest (rcu_storage s) it) \<longleftrightarrow>
    unat (it_head it) \<le> i \<and> i < unat (it_tail it) \<and> visible_at (rcu_storage s) i \<noteq> None"
  using storage_wf_dests(6) [OF cslab_wf_storage [OF assms(1)], of i]
  by (auto simp: iter_rest_def flags_between_def visible_at_def)

lemma flags_visible:
  assumes "cslab_wf w"
  shows "flag_at (st_bitmap (storage w)) i \<longleftrightarrow> i < 2 ^ 64 \<and> cslab_visible w (word_of_nat i) \<noteq> None"
proof -
  note st = cslab_wf_storage [OF assms]
  have "i < 2 ^ 64" if "flag_at (st_bitmap (storage w)) i"
    using storage_wf_dests(1,7) [OF st] that by fastforce
  moreover have "unat (word_of_nat i :: usize) = i" if "i < 2 ^ 64"
    using unat_of_nat_small [of i, where 'n = 64] that by simp
  ultimately show ?thesis
    using storage_wf_dests(6) [OF st, of i] by (auto simp: cslab_visible_def visible_at_def)
qed

lemma same_viewI:
  assumes "cslab_wf (rc_writer s)" and "cslab_wf (rc_writer s')" and "rvisible s' = rvisible s"
    and "rcap s' = rcap s"
  shows "same_view s s'"
proof -
  have "flag_at (st_bitmap (rcu_storage s')) = flag_at (st_bitmap (rcu_storage s))"
    using flags_visible [OF assms(1)] flags_visible [OF assms(2)] assms(3) by (auto simp: fun_eq_iff)
  then show ?thesis
    using assms cslab_wf_storage [OF assms(2)]
    by (simp add: same_view_def iter_rest_def flags_between_def iter_ok_def cslab_capacity_def storage_len_def)
qed

lemma borrow_same_view:
  assumes "entries_ok w" and "iter_mut_ok w" and view: "same_view (w_rcu w) (w_rcu w')"
    and "rc_cur (w_rcu w') = rc_cur (w_rcu w)" and "rc_owner (w_rcu w') = rc_owner (w_rcu w)"
    and "w_iter w' = w_iter w" and "set (w_entries w') \<subseteq> set (w_entries w)"
    and "distinct (map re_idx (w_entries w'))"
    and "set (world_handles w') \<subseteq> set (world_handles w)"
  shows "entries_ok w'" and "iter_mut_ok w'"
proof -
  show "entries_ok w'"
    using assms unfolding entries_ok_def same_view_def by (metis in_mono)
  show "iter_mut_ok w'"
    using assms unfolding iter_mut_ok_def same_view_def
    by (cases "w_iter w") auto
qed

text \<open>A release of one handle, with the part of the storage's drop that may follow.\<close>

lemma release_handle:
  assumes inv: "world_inv ent w" and g: "g \<in> set (world_handles w)"
  shows "\<exists>s'. arc_drop g (w_rcu w) = (s', Inr ()) \<and> same_view (w_rcu w) s' \<and>
    rc_owner s' = rc_owner (w_rcu w) \<and> rc_cur s' = rc_cur (w_rcu w) \<and>
    (\<forall>w'. w_rcu w' = s' \<longrightarrow> world_refs w' = (world_refs w)(g := world_refs w g - 1) \<longrightarrow>
       entries_ok w' \<longrightarrow> iter_mut_ok w' \<longrightarrow> world_inv ent w' \<and> keeps w w')"
proof -
  obtain lo where rcu: "rcu_inv (w_rcu w) (world_refs w) lo"
    and cur: "rc_owner (w_rcu w) \<Longrightarrow> Suc (rc_cur (w_rcu w)) = ngens (w_rcu w)"
    and lay: "layout_known ent (w_rcu w)"
    using inv by (auto simp: world_inv_def)
  obtain s' hi where s': "arc_drop g (w_rcu w) = (s', Inr ())" "lo \<le> hi"
    "rcu_inv s' ((world_refs w)(g := world_refs w g - 1)) hi" "freed (w_rcu w) s' lo hi"
    using arc_drop_ok [OF rcu ext_handle [OF g]] by blast
  have frame: "ngens s' = ngens (w_rcu w)" "rc_cur s' = rc_cur (w_rcu w)" "finalized (w_rcu w) s' lo hi"
    using s'(4) by (simp_all add: freed_def)
  have cap: "rcap s' = rcap (w_rcu w)" using arc_drop_cap [of g "w_rcu w"] s'(1) by simp
  have owner: "rc_owner s' = rc_owner (w_rcu w)" using frame(3) by (simp add: finalized_def)
  have "same_view (w_rcu w) s'"
    using rcu_invD(1) [OF rcu] rcu_invD(1) [OF s'(3)] frame(3) cap
    by (intro same_viewI) (simp_all add: finalized_def)
  moreover have "world_inv ent w' \<and> keeps w w'"
    if "w_rcu w' = s'" "world_refs w' = (world_refs w)(g := world_refs w g - 1)" "entries_ok w'" "iter_mut_ok w'"
    for w'
  proof
    have rcu': "rcu_inv (w_rcu w') (world_refs w') hi" using that s'(3) by simp
    then show "world_inv ent w'"
      using that cur owner frame lay layout_known_cap [OF cap] by (auto simp: world_inv_def)
    show "keeps w w'"
      using gens_wfD(1) [OF rcu_invD(3) [OF s'(3)]] frame s'(2) that rcu'
      by (intro keeps_finalized [OF rcu]) simp_all
  qed
  ultimately show ?thesis using s'(1) owner frame by blast
qed

lemma clone_handle:
  assumes inv: "world_inv ent w" and g: "0 < world_refs w g"
  shows "\<exists>s'. arc_clone g (w_rcu w) = (s', Inr ()) \<and> rc_writer s' = rc_writer (w_rcu w) \<and>
    rc_owner s' = rc_owner (w_rcu w) \<and> rc_cur s' = rc_cur (w_rcu w) \<and>
    (\<forall>w'. w_rcu w' = s' \<longrightarrow> world_refs w' = (world_refs w)(g := Suc (world_refs w g)) \<longrightarrow>
       entries_ok w' \<longrightarrow> iter_mut_ok w' \<longrightarrow> world_inv ent w' \<and> keeps w w')"
proof -
  obtain lo where rcu: "rcu_inv (w_rcu w) (world_refs w) lo"
    and cur: "rc_owner (w_rcu w) \<Longrightarrow> Suc (rc_cur (w_rcu w)) = ngens (w_rcu w)"
    and lay: "layout_known ent (w_rcu w)"
    using inv by (auto simp: world_inv_def)
  obtain s' where s': "arc_clone g (w_rcu w) = (s', Inr ())"
    "rcu_inv s' ((world_refs w)(g := Suc (world_refs w g))) lo" "freed (w_rcu w) s' lo lo"
    using arc_clone_ok [OF rcu g] by blast
  have frame: "ngens s' = ngens (w_rcu w)" "rc_cur s' = rc_cur (w_rcu w)" "finalized (w_rcu w) s' lo lo"
    using s'(3) by (simp_all add: freed_def)
  have writer: "rc_writer s' = rc_writer (w_rcu w)"
    using s'(1) by (auto simp: arc_clone_def split: option.splits)
  have owner: "rc_owner s' = rc_owner (w_rcu w)" using frame(3) by (simp add: finalized_def)
  have "world_inv ent w' \<and> keeps w w'"
    if "w_rcu w' = s'" "world_refs w' = (world_refs w)(g := Suc (world_refs w g))" "entries_ok w'" "iter_mut_ok w'"
    for w'
  proof
    have rcu': "rcu_inv (w_rcu w') (world_refs w') lo" using that s'(2) by simp
    then show "world_inv ent w'"
      using that cur owner frame lay writer by (auto simp: world_inv_def layout_known_def)
    show "keeps w w'"
      using gens_wfD(1) [OF rcu_invD(3) [OF s'(2)]] frame that rcu'
      by (intro keeps_finalized [OF rcu]) simp_all
  qed
  then show ?thesis using s'(1) owner frame writer by blast
qed

text \<open>Readers: \<open>clone\<close> and drop.\<close>

lemma step_clone_ok:
  assumes inv: "world_inv ent w" and g: "g \<in> set (w_readers w)"
  shows "\<exists>s'. rcu_reader_clone g (w_rcu w) = (s', Inr g) \<and>
    world_inv ent (w\<lparr>w_rcu := s', w_readers := g # w_readers w\<rparr>) \<and>
    keeps w (w\<lparr>w_rcu := s', w_readers := g # w_readers w\<rparr>)"
proof -
  have h: "g \<in> set (world_handles w)" using g by (simp add: world_handles_def)
  obtain s' where s': "arc_clone g (w_rcu w) = (s', Inr ())" "rc_writer s' = rc_writer (w_rcu w)"
    "rc_owner s' = rc_owner (w_rcu w)" "rc_cur s' = rc_cur (w_rcu w)"
    and next_w: "\<And>w'. w_rcu w' = s' \<Longrightarrow> world_refs w' = (world_refs w)(g := Suc (world_refs w g)) \<Longrightarrow>
       entries_ok w' \<Longrightarrow> iter_mut_ok w' \<Longrightarrow> world_inv ent w' \<and> keeps w w'"
    using clone_handle [OF inv ext_handle [OF h]] by blast
  let ?w = "w\<lparr>w_rcu := s', w_readers := g # w_readers w\<rparr>"
  have "entries_ok w" "iter_mut_ok w" using inv by (auto simp: world_inv_def)
  then have "entries_ok ?w" "iter_mut_ok ?w"
    using g s' by (auto simp: entries_ok_def iter_mut_ok_def world_handles_def split: option.splits)
  moreover have "world_refs ?w = (world_refs w)(g := Suc (world_refs w g))"
    using s' by (auto simp: world_refs_def world_handles_def fun_eq_iff)
  ultimately show ?thesis
    using next_w [of ?w] s'(1) by (auto simp: rcu_reader_clone_def abind_def)
qed

text \<open>The log of dropped items plays no part in the invariant.\<close>

lemma gen_at_dropped [simp]: "gen_at (s\<lparr>rc_dropped := d\<rparr>) = gen_at s"
  by (simp add: gen_at_def fun_eq_iff)

lemma pending_of_dropped [simp]: "pending_of (s\<lparr>rc_dropped := d\<rparr>) = pending_of s"
  by (simp add: pending_of_def fun_eq_iff)

lemma pending_in_dropped [simp]: "pending_in (s\<lparr>rc_dropped := d\<rparr>) a b = pending_in s a b"
  by (simp add: pending_in_def)

lemma rcu_inv_dropped [simp]: "rcu_inv (s\<lparr>rc_dropped := d\<rparr>) ext lo = rcu_inv s ext lo"
  by (simp add: rcu_inv_def gens_wf_def gen_cell_def pending_wf_def)

lemma protected_dropped [simp]: "protected (s\<lparr>rc_dropped := d\<rparr>) = protected s"
  by (simp add: protected_def fun_eq_iff)

lemma world_inv_log:
  assumes "w_rcu w' = w_rcu w\<lparr>rc_dropped := d\<rparr>" and "w_readers w' = w_readers w"
    and "w_entries w' = w_entries w" and "w_iter w' = w_iter w"
  shows "world_inv ent w' = world_inv ent w"
proof -
  have "world_refs w' = world_refs w"
    by (simp add: world_refs_def world_handles_def fun_eq_iff assms)
  moreover have "entries_ok w' = entries_ok w" and "iter_mut_ok w' = iter_mut_ok w"
    by (simp_all add: entries_ok_def iter_mut_ok_def world_handles_def assms split: option.splits)
  ultimately show ?thesis by (simp add: world_inv_def layout_known_def assms)
qed

lemma writer_release_ok:
  assumes "rcu_inv s ext lo" and "layout_known ent s"
  shows "writer_release ent s = (s\<lparr>rc_dropped := rc_dropped s @
    (if rc_owner s \<or> lo < ngens s then [] else map snd (visible_items (rcu_storage s)))\<rparr>, Inr ())"
proof -
  note gens = gens_wfD [OF rcu_invD(3) [OF assms(1)]]
  have live: "list_ex (\<lambda>x. x \<noteq> None) (rc_gens s) \<longleftrightarrow> lo < ngens s"
  proof
    assume "list_ex (\<lambda>x. x \<noteq> None) (rc_gens s)"
    then obtain g where g: "g < ngens s" "gen_at s g \<noteq> None"
      by (auto simp: list_ex_length gen_at_def)
    from g(2) gens(3) have "lo \<le> g \<and> g < ngens s" by (rule contrapos_np)
    then show "lo < ngens s" by simp
  next
    assume "lo < ngens s"
    with gens(2) [of lo] show "list_ex (\<lambda>x. x \<noteq> None) (rc_gens s)"
      by (auto simp: list_ex_length gen_at_def)
  qed
  obtain lay where "storage_layout ent (st_size (rcu_storage s)) = Inr lay"
    using assms(2) by (auto simp: layout_known_def cslab_capacity_def storage_len_def)
  then have "storage_drop ent (rcu_storage s) = Some (Inr (map snd (visible_items (rcu_storage s))))"
    by (rule storage_drop_eq [OF cslab_wf_storage [OF rcu_invD(1) [OF assms(1)]]])
  with live show ?thesis by (auto simp: writer_release_def)
qed

lemma step_reader_drop_ok:
  assumes inv: "world_inv ent w" and g: "g \<in> set (w_readers w)"
  shows "\<exists>s'. rcu_reader_drop ent g (w_rcu w) = (s', Inr ()) \<and>
    world_inv ent (w\<lparr>w_rcu := s', w_readers := remove1 g (w_readers w)\<rparr>) \<and>
    keeps w (w\<lparr>w_rcu := s', w_readers := remove1 g (w_readers w)\<rparr>)"
proof -
  have h: "g \<in> set (world_handles w)" using g by (simp add: world_handles_def)
  obtain s' where s': "arc_drop g (w_rcu w) = (s', Inr ())" "same_view (w_rcu w) s'"
    "rc_owner s' = rc_owner (w_rcu w)" "rc_cur s' = rc_cur (w_rcu w)"
    and next_w: "\<And>w'. w_rcu w' = s' \<Longrightarrow> world_refs w' = (world_refs w)(g := world_refs w g - 1) \<Longrightarrow>
       entries_ok w' \<Longrightarrow> iter_mut_ok w' \<Longrightarrow> world_inv ent w' \<and> keeps w w'"
    using release_handle [OF inv h] by blast
  let ?w = "w\<lparr>w_readers := remove1 g (w_readers w), w_rcu := s'\<rparr>"
  have old: "entries_ok w" "iter_mut_ok w" "distinct (map re_idx (w_entries w))"
    using inv by (auto simp: world_inv_def entries_ok_def)
  have "entries_ok ?w" "iter_mut_ok ?w"
    by (rule borrow_same_view [OF old(1,2)];
        use s' old(3) set_remove1_subset [of g "w_readers w"] in \<open>auto simp: world_handles_def\<close>)+
  moreover have "0 < count_list (w_readers w) g" using g count_list_0_iff [of "w_readers w" g] by simp
  then have "world_refs ?w = (world_refs w)(g := world_refs w g - 1)"
    using s' g by (auto simp: world_refs_def world_handles_def fun_eq_iff count_list_remove1)
  ultimately have ok: "world_inv ent ?w" "keeps w ?w" using next_w [of ?w] by simp_all
  then obtain lo where "rcu_inv s' (world_refs ?w) lo" and "layout_known ent s'"
    by (auto simp: world_inv_def)
  then obtain d where "writer_release ent s' = (s'\<lparr>rc_dropped := d\<rparr>, Inr ())"
    using writer_release_ok by blast
  then have "rcu_reader_drop ent g (w_rcu w) = (s'\<lparr>rc_dropped := d\<rparr>, Inr ())"
    using s'(1) by (simp add: rcu_reader_drop_def)
  moreover have "keeps w (w\<lparr>w_rcu := s'\<lparr>rc_dropped := d\<rparr>, w_readers := remove1 g (w_readers w)\<rparr>)"
    using ok(2) by (simp add: keeps_def world_handles_def)
  moreover have "world_inv ent (w\<lparr>w_rcu := s'\<lparr>rc_dropped := d\<rparr>, w_readers := remove1 g (w_readers w)\<rparr>)"
    using ok(1) by (subst world_inv_log [where w = ?w]) simp_all
  ultimately show ?thesis by blast
qed

text \<open>The writer's own steps.\<close>

lemma free_borrow_ok: "w_iter w = None \<Longrightarrow> w_entries w = [] \<Longrightarrow> entries_ok w \<and> iter_mut_ok w"
  by (simp add: entries_ok_def iter_mut_ok_def)

lemma step_insert_ok:
  assumes inv: "world_inv ent w" and free: "slab_free w"
  shows "\<exists>s r. rcu_insert v (w_rcu w) = (s, Inr r) \<and> world_inv ent (w\<lparr>w_rcu := s\<rparr>) \<and> keeps w (w\<lparr>w_rcu := s\<rparr>)"
proof -
  obtain lo where rcu: "rcu_inv (w_rcu w) (world_refs w) lo" using inv by (auto simp: world_inv_def)
  obtain x r where x: "rcu_insert v (w_rcu w) = (w_rcu w\<lparr>rc_writer := x\<rparr>, Inr r)"
    "rcu_inv (w_rcu w\<lparr>rc_writer := x\<rparr>) (world_refs w) lo"
    and views: "case r of Inl _ \<Rightarrow> x = rc_writer (w_rcu w) \<and> cslab_vacant_key (rc_writer (w_rcu w)) = Inl ()
     | Inr i \<Rightarrow> rslot (w_rcu w) i = None \<and> cslab_slot x = (rslot (w_rcu w))(i \<mapsto> v) \<and>
         cslab_visible x = (rvisible (w_rcu w))(i \<mapsto> v)"
    using rcu_insert_ok [OF rcu] by blast
  let ?s = "w_rcu w\<lparr>rc_writer := x\<rparr>"
  have "cslab_insert (rc_writer (w_rcu w)) v = Inr (x, r)"
    using x(1) rcu_invD(2) [OF rcu]
    by (auto simp: rcu_insert_def with_writer_def lift_writer_def dest: arg_cong [where f = rc_writer]
        split: sum.splits prod.splits)
  then have cap: "rcap ?s = rcap (w_rcu w)"
    using insert_keeps(2) [OF rcu_invD(1) [OF rcu]] by simp
  have pend: "pending_of ?s = pending_of (w_rcu w)" by (simp add: pending_of_def fun_eq_iff)
  have "keeps w (w\<lparr>w_rcu := ?s\<rparr>)"
    using views by (cases r) (auto simp: keeps_def protected_def pend)
  moreover have "world_inv ent (w\<lparr>w_rcu := ?s\<rparr>)"
    using inv x(2) free layout_known_cap [OF cap, of ent] free_borrow_ok [of "w\<lparr>w_rcu := ?s\<rparr>"]
    by (auto simp: world_inv_def slab_free_def world_refs_def [abs_def] world_handles_def)
  ultimately show ?thesis using x(1) by blast
qed

lemma mark_protected:
  assumes "rslot s' = rslot s" and "rvisible s' = (rvisible s)(i := None)"
    and "\<forall>k. pending_of s' k = (if k = g then pending_of s g @ [i] else pending_of s k)"
    and "r \<le> g" and "protected s r j v"
  shows "protected s' r j v"
  using assms by (auto simp: protected_def)

lemma hide_slot_cap: "cslab_mark_removed x i = Inr y \<Longrightarrow> cslab_capacity y = cslab_capacity x"
  by (auto simp: cslab_mark_removed_def res_simps store_flags_def cslab_capacity_def storage_len_def)

lemma with_inner_writer: "rc_writer (fst (with_inner g f s)) = rc_writer s"
  by (simp add: with_inner_def split: option.splits sum.splits)

lemma gen_mark_cap: "rcap (fst (gen_mark_removed g i s)) = rcap s"
proof -
  let ?f = "lift_writer (\<lambda>w. rbind (cslab_mark_removed w i) (\<lambda>w'. Inr (w', ())))"
  have "cslab_capacity (fst (?f w)) = cslab_capacity w" for w
    using hide_slot_cap [of w i] by (cases "cslab_mark_removed w i") (simp_all add: lift_writer_def)
  then have "rcap (fst (with_writer ?f s)) = rcap s" by (rule with_writer_cap)
  then show ?thesis
    by (cases "with_writer ?f s") (auto simp: gen_mark_removed_def abind_def with_inner_writer split: sum.splits)
qed

lemma handles_upto_cur:
  assumes "world_inv ent w" and "rc_owner (w_rcu w)" and "r \<in> set (world_handles w)"
  shows "r \<le> rc_cur (w_rcu w)"
proof -
  obtain lo where rcu: "rcu_inv (w_rcu w) (world_refs w) lo" and cur: "Suc (rc_cur (w_rcu w)) = ngens (w_rcu w)"
    using assms by (auto simp: world_inv_def)
  show ?thesis
    using gens_wfD(5) [OF rcu_invD(3) [OF rcu] ext_handle [OF assms(3)]] cur by simp
qed

lemma step_mark_ok:
  assumes inv: "world_inv ent w" and free: "slab_free w" and vis: "rvisible (w_rcu w) i = Some v"
  shows "\<exists>s. rcu_mark_removed i (w_rcu w) = (s, Inr ()) \<and> rc_owner s \<and>
    rvisible s = (rvisible (w_rcu w))(i := None) \<and> world_inv ent (w\<lparr>w_rcu := s\<rparr>) \<and>
    keeps w (w\<lparr>w_rcu := s\<rparr>)"
proof -
  let ?g = "rc_cur (w_rcu w)"
  have owner: "rc_owner (w_rcu w)" using free by (simp add: slab_free_def)
  obtain lo where rcu: "rcu_inv (w_rcu w) (world_refs w) lo" and cur: "Suc ?g = ngens (w_rcu w)"
    using inv owner by (auto simp: world_inv_def)
  have g: "lo \<le> ?g" "?g < ngens (w_rcu w)"
    using gens_wfD(4) [OF rcu_invD(3) [OF rcu] ext_cur [OF owner]] cur by simp_all
  obtain s where s: "gen_mark_removed ?g i (w_rcu w) = (s, Inr ())" "rcu_inv s (world_refs w) lo"
    "rslot s = rslot (w_rcu w)" "rvisible s = (rvisible (w_rcu w))(i := None)"
    "\<forall>k. pending_of s k = (if k = ?g then pending_of (w_rcu w) ?g @ [i] else pending_of (w_rcu w) k)"
    "ngens s = ngens (w_rcu w)" "rc_cur s = ?g" "rc_owner s = rc_owner (w_rcu w)"
    using gen_mark_ok [OF rcu g vis] by blast
  have "keeps w (w\<lparr>w_rcu := s\<rparr>)"
    using mark_protected [OF s(3-5)] handles_upto_cur [OF inv owner]
    by (simp add: keeps_def)
  moreover have "world_inv ent (w\<lparr>w_rcu := s\<rparr>)"
    using inv s free layout_known_cap [of s "w_rcu w" ent] gen_mark_cap [of ?g i "w_rcu w"] free_borrow_ok [of "w\<lparr>w_rcu := s\<rparr>"]
    by (auto simp: world_inv_def slab_free_def world_refs_def [abs_def] world_handles_def)
  ultimately show ?thesis using s(1,4,8) owner by (auto simp: rcu_mark_removed_def)
qed

lemma rcu_reader_frame:
  assumes "rcu_reader s = (s', Inr g)"
  shows "pending_of s' = pending_of s" and "rc_owner s' = rc_owner s"
proof -
  obtain gn where gn: "gen_at s (rc_cur s) = Some gn"
    and s': "s' = set_gen (rc_cur s) (Some (gn\<lparr>g_strong := g_strong gn + 1\<rparr>)) s"
    using assms by (cases "gen_at s (rc_cur s)") (auto simp: rcu_reader_def abind_def arc_clone_def)
  show "pending_of s' = pending_of s"
    using gn by (auto simp: s' pending_of_def gen_at_set_gen fun_eq_iff)
  show "rc_owner s' = rc_owner s" by (simp add: s' set_gen_def)
qed

lemma step_reader_ok:
  assumes inv: "world_inv ent w" and free: "slab_free w"
  shows "\<exists>s g. rcu_reader (w_rcu w) = (s, Inr g) \<and> g = rc_cur (w_rcu w) \<and> rc_cur s = g \<and>
    rc_writer s = rc_writer (w_rcu w) \<and>
    world_inv ent (w\<lparr>w_rcu := s, w_readers := g # w_readers w\<rparr>) \<and>
    keeps w (w\<lparr>w_rcu := s, w_readers := g # w_readers w\<rparr>)"
proof -
  let ?g = "rc_cur (w_rcu w)"
  have owner: "rc_owner (w_rcu w)" using free by (simp add: slab_free_def)
  obtain s' where s': "arc_clone ?g (w_rcu w) = (s', Inr ())" "rc_owner s' = rc_owner (w_rcu w)" "rc_cur s' = ?g"
    "rc_writer s' = rc_writer (w_rcu w)"
    and next_w: "\<And>w'. w_rcu w' = s' \<Longrightarrow> world_refs w' = (world_refs w)(?g := Suc (world_refs w ?g)) \<Longrightarrow>
       entries_ok w' \<Longrightarrow> iter_mut_ok w' \<Longrightarrow> world_inv ent w' \<and> keeps w w'"
    using clone_handle [OF inv ext_cur [OF owner]] by blast
  let ?w = "w\<lparr>w_rcu := s', w_readers := ?g # w_readers w\<rparr>"
  have "world_refs ?w = (world_refs w)(?g := Suc (world_refs w ?g))"
    using s' by (auto simp: world_refs_def world_handles_def fun_eq_iff)
  then show ?thesis
    using next_w [of ?w] s' free_borrow_ok [of ?w] free
    by (auto simp: rcu_reader_def abind_def slab_free_def)
qed

lemma keeps_trans:
  assumes "keeps w w1" and "keeps w1 w2"
    and "set (world_handles w) \<inter> set (world_handles w2) \<subseteq> set (world_handles w1)"
  shows "keeps w w2"
  using assms unfolding keeps_def by blast

lemma advance_generation_cap: "rcap (fst (advance_generation s)) = rcap s"
proof -
  let ?s1 = "s\<lparr>rc_gens := rc_gens s @ [Some new_gen]\<rparr>"
  obtain s2 r where link: "with_inner (rc_cur s) (link_next (ngens s)) ?s1 = (s2, r)" by fastforce
  then have s2: "rc_writer s2 = rc_writer s"
    using with_inner_writer [of "rc_cur s" "link_next (ngens s)" ?s1] by simp
  obtain s3 r3 where clone: "arc_clone (ngens s) s2 = (s3, r3)" by fastforce
  then have s3: "rcap s3 = rcap s" using arc_clone_cap [of "ngens s" s2] s2 by simp
  show ?thesis
    using link clone s2 s3 arc_drop_cap [of "ngens s" s2] arc_drop_cap [of "rc_cur s" "s3\<lparr>rc_cur := ngens s\<rparr>"]
    by (cases r; cases r3) (auto simp: advance_generation_def Let_def abind_def split: prod.splits)
qed

text \<open>Starting a new generation, at the end of a borrow or without one.\<close>

lemma step_advance_ok:
  assumes inv: "world_inv ent w" and owner: "rc_owner (w_rcu w)"
  shows "\<exists>s. advance_generation (w_rcu w) = (s, Inr ()) \<and> rc_owner s \<and>
    rc_cur s = ngens (w_rcu w) \<and> rvisible s = rvisible (w_rcu w) \<and> pending_of s (rc_cur s) = [] \<and>
    world_inv ent (w\<lparr>w_rcu := s, w_iter := None\<rparr>) \<and> keeps w (w\<lparr>w_rcu := s, w_iter := None\<rparr>)"
proof -
  let ?s = "w_rcu w" and ?c = "rc_cur (w_rcu w)" and ?n = "ngens (w_rcu w)"
  obtain lo where rcu: "rcu_inv ?s (world_refs w) lo" and cur: "Suc ?c = ?n" and lay: "layout_known ent ?s"
    and entries: "entries_ok w"
    using inv owner by (auto simp: world_inv_def)
  obtain s hi where s: "advance_generation ?s = (s, Inr ())" "lo \<le> hi"
    "rcu_inv s ((world_refs w)(?n := 1, ?c := world_refs w ?c - 1)) hi" "finalized ?s s lo hi"
    "ngens s = Suc ?n" "rc_cur s = ?n"
    using advance_ok [OF rcu cur ext_cur [OF owner]] by blast
  let ?w = "w\<lparr>w_rcu := s, w_iter := None\<rparr>"
  have views: "rc_owner s = rc_owner ?s" "rvisible s = rvisible ?s" using s(4) by (simp_all add: finalized_def)
  have "count_list (world_handles w) ?n = 0"
    using gens_wfD(5) [OF rcu_invD(3) [OF rcu] ext_handle, of ?n] by (auto simp: count_list_0_iff)
  then have refs: "world_refs ?w = (world_refs w)(?n := 1, ?c := world_refs w ?c - 1)"
    using owner views(1) s(6) cur by (auto simp: world_refs_def world_handles_def fun_eq_iff)
  have cap: "rcap s = rcap ?s"
    using advance_generation_cap [of ?s] s(1) by simp
  have "hi \<le> ?n"
    using gens_wfD(4) [OF rcu_invD(3) [OF s(3)], of ?n] cur by simp
  then have "keeps w ?w"
    using s(2-4) refs by (intro keeps_finalized [OF rcu, of _ hi]) simp_all
  moreover have "pending_of s (rc_cur s) = []"
    using s(4,6) \<open>hi \<le> ?n\<close> pending_of_none [of ?s ?n] by (simp add: finalized_def gen_at_def)
  moreover have "entries_ok ?w" "iter_mut_ok ?w"
    using entries views by (auto simp: entries_ok_def iter_mut_ok_def world_handles_def)
  ultimately show ?thesis
    using s refs views owner cur lay layout_known_cap [OF cap] by (auto simp: world_inv_def)
qed

lemma step_schedule_ok:
  assumes inv: "world_inv ent w" and free: "slab_free w"
  shows "\<exists>s g. rcu_schedule_finalization (w_rcu w) = (s, Inr g) \<and> g = rc_cur s \<and> rc_owner s \<and>
    pending_of s g = [] \<and> rvisible s = rvisible (w_rcu w) \<and>
    world_inv ent (w\<lparr>w_rcu := s, w_readers := g # w_readers w\<rparr>) \<and>
    keeps w (w\<lparr>w_rcu := s, w_readers := g # w_readers w\<rparr>)"
proof -
  have owner: "rc_owner (w_rcu w)" and borrow: "w_iter w = None" "w_entries w = []"
    using free by (simp_all add: slab_free_def)
  obtain s1 where s1: "advance_generation (w_rcu w) = (s1, Inr ())" "rc_owner s1"
    "world_inv ent (w\<lparr>w_rcu := s1, w_iter := None\<rparr>)" "keeps w (w\<lparr>w_rcu := s1, w_iter := None\<rparr>)"
    "rvisible s1 = rvisible (w_rcu w)" "pending_of s1 (rc_cur s1) = []"
    using step_advance_ok [OF inv owner] by blast
  let ?w1 = "w\<lparr>w_rcu := s1, w_iter := None\<rparr>"
  have "slab_free ?w1" using s1(2) borrow by (simp add: slab_free_def)
  then obtain s2 g where s2: "rcu_reader s1 = (s2, Inr g)"
    "world_inv ent (?w1\<lparr>w_rcu := s2, w_readers := g # w_readers ?w1\<rparr>)"
    "keeps ?w1 (?w1\<lparr>w_rcu := s2, w_readers := g # w_readers ?w1\<rparr>)"
    "g = rc_cur s1" "rc_cur s2 = g" "rc_writer s2 = rc_writer s1"
    using step_reader_ok [OF s1(3)] by auto
  have eq: "?w1\<lparr>w_rcu := s2, w_readers := g # w_readers ?w1\<rparr> = w\<lparr>w_rcu := s2, w_readers := g # w_readers w\<rparr>"
    using borrow by (cases w) simp
  have "keeps w (w\<lparr>w_rcu := s2, w_readers := g # w_readers w\<rparr>)"
    using keeps_trans [OF s1(4) s2(3)] unfolding eq by (simp add: world_handles_def)
  moreover have "pending_of s2 g = []" "rc_owner s2"
    using rcu_reader_frame [OF s2(1)] s1(2,6) s2(4) by simp_all
  ultimately show ?thesis
    using s1(1,5) s2 eq by (intro exI [of _ s2] exI [of _ g]) (simp add: rcu_schedule_finalization_def)
qed

lemma step_iter_mut_ok:
  assumes inv: "world_inv ent w" and free: "slab_free w"
  shows "\<exists>rim. rcu_iter_mut_new (w_rcu w) = (w_rcu w, Inr rim) \<and>
    iter_items (rcu_storage (w_rcu w)) (rim_iter rim) = visible_items (rcu_storage (w_rcu w)) \<and>
    world_inv ent (w\<lparr>w_rcu := w_rcu w, w_iter := Some rim\<rparr>) \<and>
    keeps w (w\<lparr>w_rcu := w_rcu w, w_iter := Some rim\<rparr>)"
proof -
  let ?s = "w_rcu w"
  obtain lo where rcu: "rcu_inv ?s (world_refs w) lo" using inv by (auto simp: world_inv_def)
  note wf = rcu_invD(1) [OF rcu]
  obtain it where it: "iter_new (rcu_storage ?s) = Inr it" "iter_ok (rcu_storage ?s) it"
    "iter_items (rcu_storage ?s) it = visible_items (rcu_storage ?s)"
    using iter_new_ok [OF cslab_wf_storage [OF wf]] by blast
  let ?rim = "\<lparr>rim_iter = it, rim_remaining = cslab_len (rc_writer ?s)\<rparr>"
  have "rcu_len ?s = (?s, Inr (cslab_len (rc_writer ?s)))"
    using rcu_invD(2) [OF rcu] by (simp add: rcu_len_def with_writer_def)
  then have run: "rcu_iter_mut_new ?s = (?s, Inr ?rim)"
    using it(1) by (simp add: rcu_iter_mut_new_def)
  have "unat (cslab_len (rc_writer ?s)) = length (iter_rest (rcu_storage ?s) it)"
    using visible_items_count [OF wf] arg_cong [OF it(3), of length] by (simp add: iter_items_def cslab_len_def)
  moreover have "world_refs (w\<lparr>w_iter := Some ?rim\<rparr>) = world_refs w"
    by (simp add: world_refs_def world_handles_def fun_eq_iff)
  ultimately have "world_inv ent (w\<lparr>w_iter := Some ?rim\<rparr>)"
    using inv it(2) free by (auto simp: world_inv_def entries_ok_def iter_mut_ok_def slab_free_def)
  then show ?thesis using run it(3) by (intro exI [of _ ?rim]) (simp add: keeps_def world_handles_def)
qed

definition proxy :: "'a rcu \<Rightarrow> nat \<Rightarrow> 'a rcu_entry" where
  "proxy s i = \<lparr>re_idx = word_of_nat i, re_value = the (slot_at (rcu_storage s) i), re_gen = rc_cur s\<rparr>"

text \<open>The removing iterator. \<open>j\<close> is the index the inner iterator delivered, if any.\<close>

lemma step_wrap_ok:
  assumes inv: "world_inv ent w" and iter: "w_iter w = Some rim"
    and x: "x = Inr (it, map_option (item_of (rcu_storage (w_rcu w))) j)"
    and it: "iter_ok (rcu_storage (w_rcu w)) it"
    and rest: "case j of None \<Rightarrow> iter_rest (rcu_storage (w_rcu w)) it = iter_rest (rcu_storage (w_rcu w)) (rim_iter rim)
      | Some i \<Rightarrow> i \<in> set (iter_rest (rcu_storage (w_rcu w)) (rim_iter rim)) \<and>
          set (iter_rest (rcu_storage (w_rcu w)) it) = set (iter_rest (rcu_storage (w_rcu w)) (rim_iter rim)) - {i} \<and>
          length (iter_rest (rcu_storage (w_rcu w)) (rim_iter rim)) = Suc (length (iter_rest (rcu_storage (w_rcu w)) it))"
  shows "\<exists>s rim' y. rim_wrap rim x (w_rcu w) = (s, Inr (rim', y)) \<and> rim_iter rim' = it \<and>
    rc_writer s = rc_writer (w_rcu w) \<and> rc_cur s = rc_cur (w_rcu w) \<and> y = map_option (proxy (w_rcu w)) j \<and>
    world_inv ent (w\<lparr>w_rcu := s, w_iter := Some rim', w_entries := option_list y @ w_entries w\<rparr>) \<and>
    keeps w (w\<lparr>w_rcu := s, w_iter := Some rim', w_entries := option_list y @ w_entries w\<rparr>)"
proof -
  let ?s = "w_rcu w" and ?st = "rcu_storage (w_rcu w)" and ?c = "rc_cur (w_rcu w)"
  obtain lo where rcu: "rcu_inv ?s (world_refs w) lo" and entries: "entries_ok w"
    and im: "rc_owner ?s" "unat (rim_remaining rim) = length (iter_rest ?st (rim_iter rim))"
      "\<forall>e \<in> set (w_entries w). unat (re_idx e) \<notin> set (iter_rest ?st (rim_iter rim))"
    and iok: "iter_ok ?st (rim_iter rim)"
    using inv iter by (auto simp: world_inv_def iter_mut_ok_def)
  show ?thesis
  proof (cases j)
    case None
    let ?rim = "rim\<lparr>rim_iter := it\<rparr>"
    have "world_refs (w\<lparr>w_iter := Some ?rim\<rparr>) = world_refs w"
      by (simp add: world_refs_def world_handles_def fun_eq_iff)
    then have "world_inv ent (w\<lparr>w_iter := Some ?rim\<rparr>)"
      using inv iter it rest None by (auto simp: world_inv_def iter_mut_ok_def entries_ok_def world_handles_def)
    then show ?thesis
      using None x by (intro exI [of _ ?s] exI [of _ ?rim] exI [of _ None])
        (simp add: rim_wrap_def keeps_def world_handles_def)
  next
    case (Some i)
    have i: "i \<in> set (iter_rest ?st (rim_iter rim))" "set (iter_rest ?st it) = set (iter_rest ?st (rim_iter rim)) - {i}"
      "length (iter_rest ?st (rim_iter rim)) = Suc (length (iter_rest ?st it))"
      using rest Some by simp_all
    obtain s where s: "arc_clone ?c ?s = (s, Inr ())" "rc_writer s = rc_writer ?s" "rc_owner s = rc_owner ?s"
      "rc_cur s = ?c"
      and next_w: "\<And>w'. w_rcu w' = s \<Longrightarrow> world_refs w' = (world_refs w)(?c := Suc (world_refs w ?c)) \<Longrightarrow>
       entries_ok w' \<Longrightarrow> iter_mut_ok w' \<Longrightarrow> world_inv ent w' \<and> keeps w w'"
      using clone_handle [OF inv ext_cur [OF im(1)]] by blast
    let ?e = "\<lparr>re_idx = word_of_nat i, re_value = the (slot_at ?st i), re_gen = ?c\<rparr>"
    let ?rim = "\<lparr>rim_iter = it, rim_remaining = rim_remaining rim - 1\<rparr>"
    let ?w = "w\<lparr>w_rcu := s, w_iter := Some ?rim, w_entries := ?e # w_entries w\<rparr>"
    have rem: "usub (rim_remaining rim) 1 = Inr (rim_remaining rim - 1)"
      "unat (rim_remaining rim - 1) = length (iter_rest ?st it)"
      using im(2) i(3) by (simp_all add: usub_ok unat_sub_no_wrap)
    have flag: "flag_at (st_bitmap ?st) i" and bound: "i < unat (it_tail (rim_iter rim))"
      using i(1) by (auto simp: iter_rest_def flags_between_def)
    note idx = word_of_index(1) [OF iok bound]
    have vis: "rvisible ?s (word_of_nat i) = Some (the (slot_at ?st i))"
      using storage_wf_dests(6) [OF cslab_wf_storage [OF rcu_invD(1) [OF rcu]] flag] flag idx
      by (auto simp: cslab_visible_def visible_at_def)
    have "entries_ok ?w"
      using entries s vis im(1,3) i(1) idx iter handles_upto_cur [OF inv im(1)]
      by (auto simp: entries_ok_def world_handles_def)
    moreover have "iter_mut_ok ?w"
      using im i idx it rem s(2,3) by (auto simp: iter_mut_ok_def)
    moreover have "world_refs ?w = (world_refs w)(?c := Suc (world_refs w ?c))"
      using s by (auto simp: world_refs_def world_handles_def fun_eq_iff)
    ultimately have "world_inv ent ?w \<and> keeps w ?w" using next_w [of ?w] by simp
    moreover have "rim_wrap rim x ?s = (s, Inr (?rim, Some ?e))"
      using x Some rem(1) s(1) by (simp add: rim_wrap_def item_of_def)
    ultimately show ?thesis
      using Some s(2,4) by (intro exI [of _ s] exI [of _ ?rim] exI [of _ "Some ?e"]) (simp add: proxy_def)
  qed
qed

lemma step_next_ok:
  assumes inv: "world_inv ent w" and iter: "w_iter w = Some rim"
  shows "\<exists>s rim' y. rim_next rim (w_rcu w) = (s, Inr (rim', y)) \<and>
    rc_writer s = rc_writer (w_rcu w) \<and> rc_cur s = rc_cur (w_rcu w) \<and>
    iter_rest (rcu_storage (w_rcu w)) (rim_iter rim') = tl (iter_rest (rcu_storage (w_rcu w)) (rim_iter rim)) \<and>
    y = (case iter_rest (rcu_storage (w_rcu w)) (rim_iter rim) of [] \<Rightarrow> None | i # _ \<Rightarrow> Some (proxy (w_rcu w) i)) \<and>
    world_inv ent (w\<lparr>w_rcu := s, w_iter := Some rim', w_entries := option_list y @ w_entries w\<rparr>) \<and>
    keeps w (w\<lparr>w_rcu := s, w_iter := Some rim', w_entries := option_list y @ w_entries w\<rparr>)"
proof -
  let ?st = "rcu_storage (w_rcu w)" and ?r = "iter_rest (rcu_storage (w_rcu w)) (rim_iter rim)"
  have iok: "iter_ok ?st (rim_iter rim)" using inv iter by (auto simp: world_inv_def iter_mut_ok_def)
  obtain it where it: "iter_next ?st (rim_iter rim) =
      Inr (it, case ?r of [] \<Rightarrow> None | i # _ \<Rightarrow> Some (item_of ?st i))"
    "iter_ok ?st it" "iter_rest ?st it = tl ?r"
    using iter_next_rest [OF iok] by blast
  define j where "j = (case ?r of [] \<Rightarrow> None | i # _ \<Rightarrow> Some i)"
  have "distinct ?r" by (simp add: iter_rest_def flags_between_def)
  then have rest: "case j of None \<Rightarrow> iter_rest ?st it = ?r
      | Some i \<Rightarrow> i \<in> set ?r \<and> set (iter_rest ?st it) = set ?r - {i} \<and> length ?r = Suc (length (iter_rest ?st it))"
    using it(3) by (cases ?r) (auto simp: j_def)
  have "iter_next ?st (rim_iter rim) = Inr (it, map_option (item_of ?st) j)" and "map_option (proxy (w_rcu w)) j = (case ?r of [] \<Rightarrow> None | i # _ \<Rightarrow> Some (proxy (w_rcu w) i))"
    using it(1) by (auto simp: j_def split: list.splits)
  with step_wrap_ok [OF inv iter _ it(2) rest] it(3) show ?thesis
    unfolding rim_next_def by metis
qed

lemma step_next_back_ok:
  assumes inv: "world_inv ent w" and iter: "w_iter w = Some rim"
  shows "\<exists>s rim' y. rim_next_back rim (w_rcu w) = (s, Inr (rim', y)) \<and>
    rc_writer s = rc_writer (w_rcu w) \<and> rc_cur s = rc_cur (w_rcu w) \<and>
    iter_rest (rcu_storage (w_rcu w)) (rim_iter rim') = butlast (iter_rest (rcu_storage (w_rcu w)) (rim_iter rim)) \<and>
    y = (if iter_rest (rcu_storage (w_rcu w)) (rim_iter rim) = [] then None
      else Some (proxy (w_rcu w) (last (iter_rest (rcu_storage (w_rcu w)) (rim_iter rim))))) \<and>
    world_inv ent (w\<lparr>w_rcu := s, w_iter := Some rim', w_entries := option_list y @ w_entries w\<rparr>) \<and>
    keeps w (w\<lparr>w_rcu := s, w_iter := Some rim', w_entries := option_list y @ w_entries w\<rparr>)"
proof -
  let ?st = "rcu_storage (w_rcu w)" and ?r = "iter_rest (rcu_storage (w_rcu w)) (rim_iter rim)"
  have iok: "iter_ok ?st (rim_iter rim)" using inv iter by (auto simp: world_inv_def iter_mut_ok_def)
  obtain it where it: "iter_next_back ?st (rim_iter rim) =
      Inr (it, if ?r = [] then None else Some (item_of ?st (last ?r)))"
    "iter_ok ?st it" "iter_rest ?st it = butlast ?r"
    using iter_next_back_rest [OF iok] by blast
  define j where "j = (if ?r = [] then None else Some (last ?r))"
  have dist: "distinct ?r" by (simp add: iter_rest_def flags_between_def)
  have "set (butlast ?r) = set ?r - {last ?r}" if "?r \<noteq> []"
    using dist that by (rule set_butlast_distinct)
  then have rest: "case j of None \<Rightarrow> iter_rest ?st it = ?r
      | Some i \<Rightarrow> i \<in> set ?r \<and> set (iter_rest ?st it) = set ?r - {i} \<and> length ?r = Suc (length (iter_rest ?st it))"
    using it(3) by (simp add: j_def)
  have "iter_next_back ?st (rim_iter rim) = Inr (it, map_option (item_of ?st) j)"
    and "map_option (proxy (w_rcu w)) j = (if ?r = [] then None else Some (proxy (w_rcu w) (last ?r)))"
    using it(1) by (simp_all add: j_def)
  with step_wrap_ok [OF inv iter _ it(2) rest] it(3) show ?thesis
    unfolding rim_next_back_def by metis
qed

text \<open>Proxies: \<open>remove\<close> and drop, and the drop of the slab.\<close>

lemma iter_rest_hide:
  assumes st: "storage_wf st" and i: "unat i < unat (st_size st)" and "iter_ok st it"
    and "unat i \<notin> set (iter_rest st it)"
  shows "iter_ok (hide_slot st i) it" and "iter_rest (hide_slot st i) it = iter_rest st it"
proof -
  have "st_size (hide_slot st i) = st_size st" by (simp add: hide_slot_def)
  then show "iter_ok (hide_slot st i) it"
    using assms(3) hide_slot_wf [OF st i] by (simp add: iter_ok_def)
  have "flag_at (st_bitmap (hide_slot st i)) k = flag_at (st_bitmap st) k"
    if "k \<in> set [unat (it_head it)..<unat (it_tail it)]" for k
    using that assms(4) hide_slot_views(2) [OF st i, of k]
    by (cases "k = unat i") (simp_all add: iter_rest_def flags_between_def)
  then show "iter_rest (hide_slot st i) it = iter_rest st it"
    unfolding iter_rest_def flags_between_def by (rule filter_cong [OF refl])
qed

lemma distinct_idx_remove1: "distinct (map re_idx es) \<Longrightarrow> distinct (map re_idx (remove1 e es))"
  by (induction es) (auto dest: notin_set_remove1 simp: image_iff)

lemma remove1_other_idx:
  "distinct (map re_idx es) \<Longrightarrow> e \<in> set es \<Longrightarrow> e' \<in> set (remove1 e es) \<Longrightarrow> re_idx e' \<noteq> re_idx e"
  by (induction es) (auto simp: image_iff split: if_splits dest: sym)

lemma count_entries_remove1:
  "e \<in> set es \<Longrightarrow> count_list (map re_gen (remove1 e es)) k =
    (if k = re_gen e then count_list (map re_gen es) k - 1 else count_list (map re_gen es) k)"
proof (induction es)
  case (Cons x es)
  have "0 < count_list (map re_gen es) (re_gen e)" if "e \<in> set es"
    using that count_list_0_iff [of "map re_gen es" "re_gen e"] by auto
  with Cons show ?case by (cases "x = e") auto
qed simp

lemma refs_entry_remove1:
  assumes "e \<in> set (w_entries w)" and "rc_owner s = rc_owner (w_rcu w)" and "rc_cur s = rc_cur (w_rcu w)"
  shows "world_refs (w\<lparr>w_rcu := s, w_entries := remove1 e (w_entries w)\<rparr>) =
    (world_refs w)(re_gen e := world_refs w (re_gen e) - 1)"
proof -
  have "0 < count_list (map re_gen (w_entries w)) (re_gen e)"
    using assms(1) count_list_0_iff [of "map re_gen (w_entries w)" "re_gen e"] by auto
  then show ?thesis
    using assms by (auto simp: world_refs_def world_handles_def fun_eq_iff count_entries_remove1)
qed

lemma step_entry_drop_ok:
  assumes inv: "world_inv ent w" and e: "e \<in> set (w_entries w)"
  shows "\<exists>s. entry_drop e (w_rcu w) = (s, Inr ()) \<and>
    world_inv ent (w\<lparr>w_rcu := s, w_entries := remove1 e (w_entries w)\<rparr>) \<and>
    keeps w (w\<lparr>w_rcu := s, w_entries := remove1 e (w_entries w)\<rparr>)"
proof -
  have h: "re_gen e \<in> set (world_handles w)" using e by (simp add: world_handles_def)
  obtain s where s: "arc_drop (re_gen e) (w_rcu w) = (s, Inr ())" "same_view (w_rcu w) s"
    "rc_owner s = rc_owner (w_rcu w)" "rc_cur s = rc_cur (w_rcu w)"
    and next_w: "\<And>w'. w_rcu w' = s \<Longrightarrow> world_refs w' = (world_refs w)(re_gen e := world_refs w (re_gen e) - 1) \<Longrightarrow>
       entries_ok w' \<Longrightarrow> iter_mut_ok w' \<Longrightarrow> world_inv ent w' \<and> keeps w w'"
    using release_handle [OF inv h] by blast
  let ?w = "w\<lparr>w_rcu := s, w_entries := remove1 e (w_entries w)\<rparr>"
  have old: "entries_ok w" "iter_mut_ok w" "distinct (map re_idx (w_entries w))"
    using inv by (auto simp: world_inv_def entries_ok_def)
  have sub: "set (remove1 e (w_entries w)) \<subseteq> set (w_entries w)" by (rule set_remove1_subset)
  have "entries_ok ?w" "iter_mut_ok ?w"
    by (rule borrow_same_view [OF old(1,2)];
        use s sub distinct_idx_remove1 [OF old(3)] in \<open>auto simp: world_handles_def\<close>)+
  then show ?thesis
    using next_w [of ?w] refs_entry_remove1 [OF e s(3,4)] s(1) by (simp add: entry_drop_def)
qed

lemma step_entry_remove_ok:
  assumes inv: "world_inv ent w" and e: "e \<in> set (w_entries w)"
  shows "\<exists>s. entry_remove e (w_rcu w) = (s, Inr ()) \<and> rc_cur s = rc_cur (w_rcu w) \<and> rvisible s = (rvisible (w_rcu w))(re_idx e := None) \<and>
    (\<forall>it. iter_ok (rcu_storage (w_rcu w)) it \<longrightarrow> unat (re_idx e) \<notin> set (iter_rest (rcu_storage (w_rcu w)) it) \<longrightarrow>
       iter_rest (rcu_storage s) it = iter_rest (rcu_storage (w_rcu w)) it) \<and>
    world_inv ent (w\<lparr>w_rcu := s, w_entries := remove1 e (w_entries w)\<rparr>) \<and>
    keeps w (w\<lparr>w_rcu := s, w_entries := remove1 e (w_entries w)\<rparr>)"
proof -
  let ?s = "w_rcu w" and ?g = "re_gen e" and ?i = "re_idx e"
  have h: "?g \<in> set (world_handles w)" using e by (simp add: world_handles_def)
  obtain lo where rcu: "rcu_inv ?s (world_refs w) lo" and cur: "rc_owner ?s \<Longrightarrow> Suc (rc_cur ?s) = ngens ?s"
    and entries: "entries_ok w" and im: "iter_mut_ok w" and lay: "layout_known ent ?s"
    using inv by (auto simp: world_inv_def)
  have vis: "rvisible ?s ?i = Some (re_value e)" and upper: "\<forall>r \<in> set (world_handles w). r \<le> ?g"
    using entries e by (auto simp: entries_ok_def)
  have g: "lo \<le> ?g" "?g < ngens ?s" using gens_wfD(4,5) [OF rcu_invD(3) [OF rcu] ext_handle [OF h]] by auto
  obtain s1 where s1: "gen_mark_removed ?g ?i ?s = (s1, Inr ())" "rcu_inv s1 (world_refs w) lo"
    "rcu_storage s1 = hide_slot (rcu_storage ?s) ?i"
    "rslot s1 = rslot ?s" "rvisible s1 = (rvisible ?s)(?i := None)"
    "\<forall>k. pending_of s1 k = (if k = ?g then pending_of ?s ?g @ [?i] else pending_of ?s k)"
    "ngens s1 = ngens ?s" "rc_cur s1 = rc_cur ?s" "rc_owner s1 = rc_owner ?s"
    using gen_mark_ok [OF rcu g vis] by blast
  obtain s hi where s: "arc_drop ?g s1 = (s, Inr ())" "lo \<le> hi"
    "rcu_inv s ((world_refs w)(?g := world_refs w ?g - 1)) hi" "freed s1 s lo hi"
    using arc_drop_ok [OF s1(2) ext_handle [OF h]] by blast
  let ?w = "w\<lparr>w_rcu := s, w_entries := remove1 e (w_entries w)\<rparr>"
  have frame: "ngens s = ngens ?s" "rc_cur s = rc_cur ?s" "rc_owner s = rc_owner ?s" "finalized s1 s lo hi"
    "rvisible s = (rvisible ?s)(?i := None)"
    using s(4) s1(5,7-9) by (auto simp: freed_def finalized_def)
  have cap1: "rcap s1 = rcap ?s" using gen_mark_cap [of ?g ?i ?s] s1(1) by simp
  then have cap: "rcap s = rcap ?s" using arc_drop_cap [of ?g s1] s(1) by simp
  have view: "same_view s1 s"
    using rcu_invD(1) [OF s1(2)] rcu_invD(1) [OF s(3)] frame(4) cap cap1
    by (intro same_viewI) (simp_all add: finalized_def)
  have st: "storage_wf (rcu_storage ?s)" by (rule cslab_wf_storage [OF rcu_invD(1) [OF rcu]])
  have size: "unat ?i < unat (st_size (rcu_storage ?s))"
    using vis storage_wf_dests(7) [OF st] by (simp add: slot_views split: if_splits)
  have rest: "iter_ok (rcu_storage s) it \<and> iter_rest (rcu_storage s) it = iter_rest (rcu_storage ?s) it"
    if "iter_ok (rcu_storage ?s) it" "unat ?i \<notin> set (iter_rest (rcu_storage ?s) it)" for it
    using iter_rest_hide [OF st size that] view by (simp add: same_view_def s1(3))
  have refs: "world_refs ?w = (world_refs w)(?g := world_refs w ?g - 1)"
    by (rule refs_entry_remove1 [OF e frame(3,2)])
  have dist: "distinct (map re_idx (w_entries w))" using entries by (simp add: entries_ok_def)
  have other: "re_idx e' \<noteq> ?i" if "e' \<in> set (remove1 e (w_entries w))" for e'
    by (rule remove1_other_idx [OF dist e that])
  have sub: "set (remove1 e (w_entries w)) \<subseteq> set (w_entries w)" by (rule set_remove1_subset)
  have "entries_ok ?w"
    using entries other sub distinct_idx_remove1 [OF dist] frame
    unfolding entries_ok_def world_handles_def by fastforce
  moreover have "iter_mut_ok ?w"
    using im e rest sub frame(3) by (auto simp: iter_mut_ok_def split: option.splits)
  ultimately have "world_inv ent ?w"
    using s(3) refs frame cur lay layout_known_cap [OF cap] by (auto simp: world_inv_def)
  moreover have "keeps w ?w"
    unfolding keeps_def
  proof (intro allI impI)
    fix r j v
    assume r: "r \<in> set (world_handles w)" "r \<in> set (world_handles ?w)" and prot: "protected ?s r j v"
    have "protected s1 r j v" using mark_protected [OF s1(4-6) _ prot] upper r(1) by blast
    moreover have "hi \<le> r"
      using gens_wfD(4) [OF rcu_invD(3) [OF s(3)], of r] ext_handle [OF r(2)] refs by simp
    moreover have "hi \<le> ngens s1"
      using gens_wfD(1) [OF rcu_invD(3) [OF s(3)]] frame(1) s1(7) by simp
    ultimately show "protected (w_rcu ?w) r j v"
      using finalized_protected [OF s1(2) frame(4) s(2)] by simp
  qed
  moreover have "entry_remove e ?s = (s, Inr ())"
    using s1(1) s(1) by (simp add: entry_remove_def entry_drop_def)
  ultimately show ?thesis using frame(2,5) rest by (intro exI [of _ s]) simp
qed

lemma gen_at_owner [simp]: "gen_at (s\<lparr>rc_owner := b\<rparr>) = gen_at s"
  by (simp add: gen_at_def fun_eq_iff)

lemma pending_of_owner [simp]: "pending_of (s\<lparr>rc_owner := b\<rparr>) = pending_of s"
  by (simp add: pending_of_def fun_eq_iff)

lemma pending_in_owner [simp]: "pending_in (s\<lparr>rc_owner := b\<rparr>) x y = pending_in s x y"
  by (simp add: pending_in_def)

lemma rcu_inv_owner [simp]: "rcu_inv (s\<lparr>rc_owner := b\<rparr>) ext lo = rcu_inv s ext lo"
  by (simp add: rcu_inv_def gens_wf_def gen_cell_def pending_wf_def)

lemma step_drop_ok:
  assumes inv: "world_inv ent w" and free: "slab_free w"
  shows "\<exists>s. rcu_drop ent (w_rcu w) = (s, Inr ()) \<and> world_inv ent (w\<lparr>w_rcu := s\<rparr>) \<and> keeps w (w\<lparr>w_rcu := s\<rparr>)"
proof -
  let ?s0 = "w_rcu w\<lparr>rc_owner := False\<rparr>" and ?c = "rc_cur (w_rcu w)"
  have owner: "rc_owner (w_rcu w)" and borrow: "w_iter w = None" "w_entries w = []"
    using free by (simp_all add: slab_free_def)
  obtain lo where rcu: "rcu_inv (w_rcu w) (world_refs w) lo" and lay: "layout_known ent (w_rcu w)"
    using inv by (auto simp: world_inv_def)
  have rcu0: "rcu_inv ?s0 (world_refs w) lo" using rcu by simp
  obtain s hi where s: "arc_drop ?c ?s0 = (s, Inr ())" "lo \<le> hi"
    "rcu_inv s ((world_refs w)(?c := world_refs w ?c - 1)) hi" "freed ?s0 s lo hi"
    using arc_drop_ok [OF rcu0 ext_cur [OF owner]] by blast
  have views: "rc_owner s = False" "rc_cur s = ?c" "ngens s = ngens (w_rcu w)"
    using s(4) by (simp_all add: freed_def finalized_def)
  have cap: "rcap s = rcap (w_rcu w)" using arc_drop_cap [of ?c ?s0] s(1) by simp
  have refs: "world_refs (w\<lparr>w_rcu := s\<rparr>) = (world_refs w)(?c := world_refs w ?c - 1)"
    using views owner by (auto simp: world_refs_def world_handles_def fun_eq_iff)
  have inv1: "world_inv ent (w\<lparr>w_rcu := s\<rparr>)"
    using s(3) refs views lay layout_known_cap [OF cap] free_borrow_ok [of "w\<lparr>w_rcu := s\<rparr>"] borrow
    by (auto simp: world_inv_def)
  have "hi \<le> ngens ?s0" using gens_wfD(1) [OF rcu_invD(3) [OF s(3)]] views by simp
  then have "keeps (w\<lparr>w_rcu := ?s0\<rparr>) (w\<lparr>w_rcu := s\<rparr>)"
    using s(2-4) refs
    by (intro keeps_finalized [of _ "world_refs w" lo _ hi]) (simp_all add: rcu freed_def)
  then have keeps1: "keeps w (w\<lparr>w_rcu := s\<rparr>)"
    by (simp add: keeps_def world_handles_def protected_def)
  obtain d where "writer_release ent s = (s\<lparr>rc_dropped := d\<rparr>, Inr ())"
    using writer_release_ok [OF s(3)] lay layout_known_cap [OF cap] by blast
  then have "rcu_drop ent (w_rcu w) = (s\<lparr>rc_dropped := d\<rparr>, Inr ())"
    using s(1) by (simp add: rcu_drop_def)
  moreover have "world_inv ent (w\<lparr>w_rcu := s\<lparr>rc_dropped := d\<rparr>\<rparr>)"
    using inv1 by (subst world_inv_log [where w = "w\<lparr>w_rcu := s\<rparr>"]) simp_all
  moreover have "keeps w (w\<lparr>w_rcu := s\<lparr>rc_dropped := d\<rparr>\<rparr>)"
    using keeps1 by (simp add: keeps_def world_handles_def)
  ultimately show ?thesis by blast
qed

section \<open>All steps\<close>

lemma mark_absent_faults:
  assumes "rcu_inv s ext lo" and "rvisible s i = None"
  shows "\<exists>e \<in> {Panic_assert, Panic_index}. gen_mark_removed g i s = (s\<lparr>rc_poisoned := True\<rparr>, Inl e)"
proof -
  obtain e where "cslab_mark_removed (rc_writer s) i = Inl e" "e \<in> {Panic_assert, Panic_index}"
    using cslab.mark_absent [OF rcu_invD(1) [OF assms(1)] assms(2)] by blast
  then show ?thesis
    using rcu_invD(2) [OF assms(1)] by (auto simp: gen_mark_removed_def with_writer_def lift_writer_def)
qed

lemma world_step_ok:
  assumes "world_step ent w w'" and inv: "world_inv ent w"
  shows "world_inv ent w' \<and> keeps w w'"
  using assms(1)
proof cases
  case (step_mark i s u)
  have "rvisible (w_rcu w) i \<noteq> None"
  proof
    assume none: "rvisible (w_rcu w) i = None"
    obtain lo where "rcu_inv (w_rcu w) (world_refs w) lo" using inv by (auto simp: world_inv_def)
    from mark_absent_faults [OF this none, of "rc_cur (w_rcu w)"] step_mark(3) show False
      by (auto simp: rcu_mark_removed_def)
  qed
  with step_mark step_mark_ok [OF inv, of i] show ?thesis by force
next
  case (step_iter_drop rim s u)
  have "rc_owner (w_rcu w)" using inv step_iter_drop(2) by (auto simp: world_inv_def iter_mut_ok_def)
  with step_iter_drop step_advance_ok [OF inv] show ?thesis by (force simp: rim_drop_def)
next
  case (step_insert v s r)
  with step_insert_ok [OF inv step_insert(2), of v] show ?thesis by auto
next
  case (step_schedule s g)
  with step_schedule_ok [OF inv step_schedule(2)] show ?thesis by auto
next
  case (step_reader s g)
  with step_reader_ok [OF inv step_reader(2)] show ?thesis by auto
next
  case (step_clone g s g')
  with step_clone_ok [OF inv step_clone(2)] show ?thesis by auto
next
  case (step_reader_drop g s u)
  with step_reader_drop_ok [OF inv step_reader_drop(2)] show ?thesis by auto
next
  case (step_iter_mut s rim)
  with step_iter_mut_ok [OF inv step_iter_mut(2)] show ?thesis by auto
next
  case (step_next rim s rim' x)
  with step_next_ok [OF inv step_next(2)] show ?thesis by auto
next
  case (step_next_back rim s rim' x)
  with step_next_back_ok [OF inv step_next_back(2)] show ?thesis by auto
next
  case (step_entry_remove e s u)
  with step_entry_remove_ok [OF inv step_entry_remove(2)] show ?thesis by auto
next
  case (step_entry_drop e s u)
  with step_entry_drop_ok [OF inv step_entry_drop(2)] show ?thesis by auto
next
  case (step_drop s u)
  with step_drop_ok [OF inv step_drop(2)] show ?thesis by auto
qed

end
