(* ===== verification/Rcu_Props.thy ===== *)
theory Rcu_Props
  imports Rcu_World
begin

text \<open>
  What \<open>RcuCslab\<close> promises: the references of its generations are exact, a reader's items stay
  in place while it lives, removals are finalized in order as soon as no older handle is left,
  no call faults but the removal of an absent item, and \<open>clear\<close> removes everything.
\<close>

section \<open>Reachable programs\<close>

definition world_start :: "'a rcu \<Rightarrow> 'a world" where
  "world_start s = \<lparr>w_rcu = s, w_readers = [], w_iter = None, w_entries = []\<rparr>"

inductive world_reach :: "layout \<Rightarrow> usize \<Rightarrow> 'a world \<Rightarrow> bool" for ent n where
  reach_start: "rcu_with_fixed_capacity ent n = Inr s \<Longrightarrow> world_reach ent n (world_start s)"
| reach_step: "world_reach ent n w \<Longrightarrow> world_step ent w w' \<Longrightarrow> world_reach ent n w'"

text \<open>Runs during which a handle of generation \<open>r\<close> is alive throughout.\<close>

inductive run_holding :: "layout \<Rightarrow> nat \<Rightarrow> 'a world \<Rightarrow> 'a world \<Rightarrow> bool" for ent r w where
  hold_start: "r \<in> set (world_handles w) \<Longrightarrow> run_holding ent r w w"
| hold_step: "run_holding ent r w w1 \<Longrightarrow> world_step ent w1 w2 \<Longrightarrow> r \<in> set (world_handles w2) \<Longrightarrow>
    run_holding ent r w w2"

lemma world_start_ok:
  assumes ent: "entry_layout_ok ent" and new: "rcu_with_fixed_capacity ent n = Inr s"
  shows "world_inv ent (world_start s)"
proof -
  obtain x where x: "cslab_with_fixed_capacity ent n = Inr x"
    and s: "s = \<lparr>rc_capacity = n, rc_writer = x, rc_poisoned = False, rc_gens = [Some new_gen],
          rc_cur = 0, rc_owner = True, rc_dropped = []\<rparr>"
    using new by (auto simp: rcu_with_fixed_capacity_def res_simps)
  note slab = cslab_new_ok [OF ent x]
  have lay: "\<exists>lay. storage_layout ent n = Inr lay"
    using x by (auto simp: cslab_with_fixed_capacity_def storage_with_fixed_capacity_def res_simps)
  have at: "gen_at s g = (if g = 0 then Some new_gen else None)" for g
    by (simp add: s gen_at_def)
  have pend: "pending_of s g = []" for g
    by (simp add: pending_of_def at new_gen_def)
  have one: "ngens s = 1" and writer: "rc_writer s = x" by (simp_all add: s)
  have refs: "world_refs (world_start s) = (\<lambda>g. if g = 0 then 1 else 0)"
    by (auto simp: world_refs_def world_handles_def world_start_def s fun_eq_iff)
  have "gens_wf s (\<lambda>g. if g = 0 then 1 else 0) 0"
    by (rule gens_wfI) (auto simp: at pend gen_cell_def new_gen_def one split: if_splits)
  moreover have "pending_wf s 0"
    using slab(2) by (simp add: pending_wf_def pending_in_def pend cslab_slot_def writer one)
  ultimately have "rcu_inv s (\<lambda>g. if g = 0 then 1 else 0) 0"
    using slab(1) by (simp add: rcu_inv_def s)
  then show ?thesis
    unfolding world_inv_def refs using lay slab(3)
    by (auto simp: world_start_def s entries_ok_def iter_mut_ok_def layout_known_def cslab_capacity_def
        storage_len_def)
qed

lemma world_reach_inv:
  assumes "world_reach ent n w" and "entry_layout_ok ent"
  shows "world_inv ent w"
  using assms(1) by induction (use world_start_ok [OF assms(2)] world_step_ok in blast)+

lemma run_holding_protects:
  assumes "run_holding ent r w w'" and "world_inv ent w" and "protected (w_rcu w) r i v"
  shows "world_inv ent w' \<and> protected (w_rcu w') r i v \<and> r \<in> set (world_handles w')"
  using assms(1)
proof induction
  case hold_start
  with assms show ?case by simp
next
  case (hold_step w1 w2)
  with world_step_ok [OF hold_step.hyps(2)] show ?case by (auto simp: keeps_def)
qed

lemma get_protected:
  assumes "world_inv ent w" and "rcu_reader_get (w_rcu w) r i = Inr (Some v)"
  shows "protected (w_rcu w) r i v"
proof -
  have wf: "cslab_wf (rc_writer (w_rcu w))" using assms(1) by (auto simp: world_inv_def rcu_inv_def)
  have "rvisible (w_rcu w) i = Some v"
    using assms(2) get_impl_eq [OF cslab_wf_storage [OF wf]]
    by (simp add: rcu_reader_get_def reader_get_def cslab_visible_def)
  then show ?thesis using cslab.visible_slot [OF wf] by (simp add: protected_def)
qed

lemma protected_read: "protected (w_rcu w) r i v \<Longrightarrow> rcu_reader_get_unchecked (w_rcu w) r' i = Inr v"
  by (simp add: protected_def rcu_reader_get_unchecked_def reader_get_unchecked_def cslab_slot_def get_unchecked_impl_eq)

text \<open>
  C2. While a handle lives, an item it has seen stays where it is: if a lookup through a handle of
  generation \<open>r\<close> returned the item \<open>v\<close> at \<open>i\<close>, then whatever the writer and the other readers do,
  for as long as a handle of that generation lives \<open>get_unchecked(i)\<close> is defined and still
  returns \<open>v\<close>: the slot is neither freed nor used for another item.
\<close>

theorem reader_items_stay:
  assumes "entry_layout_ok ent" and "world_reach ent n w"
    and "rcu_reader_get (w_rcu w) r i = Inr (Some v)" and "run_holding ent r w w'"
  shows "rcu_reader_get_unchecked (w_rcu w') r i = Inr v"
proof -
  have inv: "world_inv ent w" by (rule world_reach_inv [OF assms(2,1)])
  then have "protected (w_rcu w') r i v"
    using run_holding_protects [OF assms(4) inv] get_protected [OF inv assms(3)] by blast
  then show ?thesis by (rule protected_read)
qed

text \<open>A program for the concrete instances: a slab of two slots with the item 7, and a reader of it.\<close>

definition demo_rcu :: "nat rcu" where
  "demo_rcu = \<lparr>rc_capacity = 2, rc_writer = demo_slab, rc_poisoned = False,
     rc_gens = [Some (new_gen\<lparr>g_strong := 2\<rparr>)], rc_cur = 0, rc_owner = True, rc_dropped = []\<rparr>"

definition demo_world :: "nat world" where
  "demo_world = \<lparr>w_rcu = demo_rcu, w_readers = [0], w_iter = None, w_entries = []\<rparr>"

definition demo_hidden :: "nat cslab" where
  "demo_hidden = demo_slab\<lparr>in_use := 0, storage := storage demo_slab\<lparr>st_bitmap := [0]\<rparr>\<rparr>"

lemma demo_world_reach: "world_reach entry8 2 demo_world"
proof -
  define s0 :: "nat rcu" where "s0 = \<lparr>rc_capacity = 2, rc_writer =
    \<lparr>first_free = 0, in_use = 0, allocated = 0, storage =
       \<lparr>st_size = 2, st_frontier = 0, st_table = [Next_free 0, Next_free 0], st_bitmap = [0]\<rparr>\<rparr>,
     rc_poisoned = False, rc_gens = [Some new_gen], rc_cur = 0, rc_owner = True, rc_dropped = []\<rparr>"
  have "rcu_with_fixed_capacity entry8 2 = Inr s0"
    by (simp add: rcu_with_fixed_capacity_def demo_new s0_def)
  then have r0: "world_reach entry8 2 (world_start s0)" by (rule reach_start)
  have ins: "rcu_insert 7 (w_rcu (world_start s0)) = (s0\<lparr>rc_writer := demo_slab\<rparr>, Inr (Inr 0))"
    by (simp add: rcu_insert_def with_writer_def lift_writer_def world_start_def s0_def demo_insert)
  have "slab_free (world_start s0)" by (simp add: slab_free_def world_start_def s0_def)
  from reach_step [OF r0 step_insert [OF this ins]]
  have r1: "world_reach entry8 2 (world_start s0\<lparr>w_rcu := s0\<lparr>rc_writer := demo_slab\<rparr>\<rparr>)" (is "world_reach _ _ ?w1") .
  have rd: "rcu_reader (w_rcu ?w1) = (demo_rcu, Inr 0)"
    by (simp add: rcu_reader_def abind_def arc_clone_def gen_at_def set_gen_def s0_def demo_rcu_def new_gen_def)
  have "slab_free ?w1" by (simp add: slab_free_def world_start_def s0_def)
  from reach_step [OF r1 step_reader [OF this rd]] show ?thesis
    by (simp add: world_start_def demo_world_def)
qed

lemma demo_mark: "rcu_mark_removed 0 demo_rcu =
    (demo_rcu\<lparr>rc_writer := demo_hidden, rc_gens := [Some (new_gen\<lparr>g_strong := 2, g_pending := [0]\<rparr>)]\<rparr>, Inr ())"
  by (simp add: rcu_mark_removed_def gen_mark_removed_def abind_def with_writer_def lift_writer_def with_inner_def
      gen_at_def set_gen_def demo_rcu_def demo_hidden_def demo_slab_def new_gen_def cslab_mark_removed_def
      load_flags_def store_flags_def flag_of_def clear_flag_def usub_def)

lemma demo_world_free: "slab_free demo_world"
  by (simp add: slab_free_def demo_world_def demo_rcu_def)

lemma demo_get: "rcu_reader_get demo_rcu 0 0 = Inr (Some 7)"
proof -
  have "cslab_visible demo_slab 0 = Some 7" by code_simp
  then show ?thesis
    using get_impl_eq [OF cslab_wf_storage [OF demo_wf]]
    by (simp add: rcu_reader_get_def reader_get_def demo_rcu_def cslab_visible_def)
qed

theorem reader_items_stay_witness:
  "\<exists>w'. world_reach entry8 2 demo_world \<and> run_holding entry8 0 demo_world w' \<and>
    rcu_reader_get (w_rcu demo_world) 0 0 = Inr (Some 7) \<and> w_rcu w' \<noteq> w_rcu demo_world \<and>
    rcu_reader_get_unchecked (w_rcu w') 0 0 = Inr 7"
proof -
  let ?s = "demo_rcu\<lparr>rc_writer := demo_hidden, rc_gens := [Some (new_gen\<lparr>g_strong := 2, g_pending := [0]\<rparr>)]\<rparr>"
  let ?w = "demo_world\<lparr>w_rcu := ?s\<rparr>"
  have rcu: "w_rcu demo_world = demo_rcu" by (simp add: demo_world_def)
  have "world_step entry8 demo_world ?w"
    by (rule step_mark [OF demo_world_free, of 0 _ "()"]) (simp add: rcu demo_mark)
  then have run: "run_holding entry8 0 demo_world ?w"
    by (intro hold_step [OF hold_start]) (simp_all add: world_handles_def demo_world_def)
  have "rc_poisoned ?s = rc_poisoned demo_rcu" by simp
  moreover have "?s \<noteq> demo_rcu"
    by (rule notI, drule arg_cong [where f = rc_gens]) (simp add: demo_rcu_def new_gen_def)
  ultimately show ?thesis
    using reader_items_stay [OF entry8_ok demo_world_reach _ run, of 0 7] demo_get run demo_world_reach
    by (intro exI [of _ ?w]) (simp add: rcu)
qed

section \<open>Generations\<close>

text \<open>
  C10. In every reachable program the generations that are not freed are the latest ones without a
  gap; the strong count of each is the number of its read handles and proxies, plus one for the
  slab if it is the current one, plus one for the previous generation if that is not freed; each
  refers to the next one; and their pending lists, in creation order, list each occupied slot
  that is not visible exactly once.
\<close>

theorem generations_exact:
  assumes "entry_layout_ok ent" and "world_reach ent n w"
  shows "\<exists>lo. (\<forall>g. case gen_at (w_rcu w) g of
        None \<Rightarrow> g < lo \<or> ngens (w_rcu w) \<le> g
      | Some gn \<Rightarrow> lo \<le> g \<and> g < ngens (w_rcu w) \<and>
          g_strong gn = count_list (world_handles w) g +
            (if rc_owner (w_rcu w) \<and> g = rc_cur (w_rcu w) then 1 else 0) + (if lo < g then 1 else 0) \<and>
          g_next gn = (if Suc g < ngens (w_rcu w) then Some (Suc g) else None)) \<and>
    distinct (pending_in (w_rcu w) lo (ngens (w_rcu w))) \<and>
    set (pending_in (w_rcu w) lo (ngens (w_rcu w))) =
      {i. rslot (w_rcu w) i \<noteq> None \<and> rvisible (w_rcu w) i = None}"
proof -
  obtain lo where rcu: "rcu_inv (w_rcu w) (world_refs w) lo"
    using world_reach_inv [OF assms(2,1)] by (auto simp: world_inv_def)
  note gens = gens_wfD [OF rcu_invD(3) [OF rcu]]
  have "case gen_at (w_rcu w) g of
        None \<Rightarrow> g < lo \<or> ngens (w_rcu w) \<le> g
      | Some gn \<Rightarrow> lo \<le> g \<and> g < ngens (w_rcu w) \<and>
          g_strong gn = count_list (world_handles w) g +
            (if rc_owner (w_rcu w) \<and> g = rc_cur (w_rcu w) then 1 else 0) + (if lo < g then 1 else 0) \<and>
          g_next gn = (if Suc g < ngens (w_rcu w) then Some (Suc g) else None)" for g
    using gens(2,3) [of g] by (cases "lo \<le> g \<and> g < ngens (w_rcu w)") (auto simp: world_refs_def)
  then show ?thesis
    using rcu_invD(4) [OF rcu] by (intro exI [of _ lo]) (simp add: pending_wf_def)
qed

theorem generations_exact_witness:
  "\<exists>lo. distinct (pending_in (w_rcu demo_world) lo (ngens (w_rcu demo_world))) \<and>
    set (pending_in (w_rcu demo_world) lo (ngens (w_rcu demo_world))) =
      {i. rslot (w_rcu demo_world) i \<noteq> None \<and> rvisible (w_rcu demo_world) i = None}"
  using generations_exact [OF entry8_ok demo_world_reach] by blast



section \<open>Finalization\<close>



lemma release_detail:
  assumes inv: "world_inv ent w" and g: "g \<in> set (w_readers w)"
    and lo: "rcu_inv (w_rcu w) (world_refs w) lo"
  shows "\<exists>s' hi. rcu_reader_drop ent g (w_rcu w) = (s', Inr ()) \<and> lo \<le> hi \<and> hi \<le> ngens (w_rcu w) \<and>
    (\<forall>r. 0 < ((world_refs w)(g := world_refs w g - 1)) r \<longrightarrow> hi \<le> r) \<and>
    (hi < ngens (w_rcu w) \<longrightarrow> 0 < ((world_refs w)(g := world_refs w g - 1)) hi) \<and>
    rslot s' = (\<lambda>i. if i \<in> set (pending_in (w_rcu w) lo hi) then None else rslot (w_rcu w) i) \<and>
    rc_dropped s' = rc_dropped (w_rcu w) @ map (\<lambda>i. the (rslot (w_rcu w) i)) (pending_in (w_rcu w) lo hi) @
      (if rc_owner (w_rcu w) \<or> hi < ngens (w_rcu w) then [] else map snd (visible_items (rcu_storage s')))"
proof -
  have h: "g \<in> set (world_handles w)" using g by (simp add: world_handles_def)
  have lay: "layout_known ent (w_rcu w)" using inv by (simp add: world_inv_def)
  obtain s hi where s: "arc_drop g (w_rcu w) = (s, Inr ())" "lo \<le> hi"
    "rcu_inv s ((world_refs w)(g := world_refs w g - 1)) hi" "freed (w_rcu w) s lo hi"
    using arc_drop_ok [OF lo ext_handle [OF h]] by blast
  have frame: "ngens s = ngens (w_rcu w)" "rc_owner s = rc_owner (w_rcu w)"
    "rslot s = (\<lambda>i. if i \<in> set (pending_in (w_rcu w) lo hi) then None else rslot (w_rcu w) i)"
    "rc_dropped s = rc_dropped (w_rcu w) @ map (\<lambda>i. the (rslot (w_rcu w) i)) (pending_in (w_rcu w) lo hi)"
    using s(4) by (simp_all add: freed_def finalized_def)
  have "layout_known ent s"
    using lay layout_known_cap [of s "w_rcu w" ent] arc_drop_cap [of g "w_rcu w"] s(1) by simp
  note release = writer_release_ok [OF s(3) this]
  note gens = gens_wfD [OF rcu_invD(3) [OF s(3)]]
  have run: "rcu_reader_drop ent g (w_rcu w) = (s\<lparr>rc_dropped := rc_dropped s @
      (if rc_owner s \<or> hi < ngens s then [] else map snd (visible_items (rcu_storage s)))\<rparr>, Inr ())"
    using s(1) release by (simp add: rcu_reader_drop_def)
  have "hi \<le> ngens (w_rcu w)" using gens(1) frame(1) by simp
  moreover have "\<forall>r. 0 < ((world_refs w)(g := world_refs w g - 1)) r \<longrightarrow> hi \<le> r" using gens(4) by blast
  moreover have "hi < ngens (w_rcu w) \<longrightarrow> 0 < ((world_refs w)(g := world_refs w g - 1)) hi"
    using gens(6) frame(1) by simp
  ultimately show ?thesis
    using run s(2) frame by (intro exI [of _ "s\<lparr>rc_dropped := rc_dropped s @
      (if rc_owner s \<or> hi < ngens s then [] else map snd (visible_items (rcu_storage s)))\<rparr>"] exI [of _ hi]) simp
qed

text \<open>
  Dropping a read handle finalizes the pending removals of exactly the generations that only it
  kept alive, oldest generation first and in marking order within one, drops their items in that
  order, and nothing more unless it was the last reference to the slab's storage, in which case
  the visible items follow in index order.
\<close>

theorem reader_drop_finalizes:
  assumes "entry_layout_ok ent" and "world_reach ent n w" and "g \<in> set (w_readers w)"
  shows "\<exists>s' lo hi. rcu_reader_drop ent g (w_rcu w) = (s', Inr ()) \<and>
    (\<forall>k. k < lo \<longrightarrow> gen_at (w_rcu w) k = None) \<and>
    (\<forall>r \<in> set (remove1 g (w_readers w)) \<union> set (map re_gen (w_entries w)). hi \<le> r) \<and>
    (hi < ngens (w_rcu w) \<longrightarrow> hi \<in> set (remove1 g (w_readers w)) \<union> set (map re_gen (w_entries w)) \<or>
      rc_owner (w_rcu w) \<and> hi = rc_cur (w_rcu w)) \<and>
    rslot s' = (\<lambda>i. if i \<in> set (pending_in (w_rcu w) lo hi) then None else rslot (w_rcu w) i) \<and>
    rc_dropped s' = rc_dropped (w_rcu w) @ map (\<lambda>i. the (rslot (w_rcu w) i)) (pending_in (w_rcu w) lo hi) @
      (if rc_owner (w_rcu w) \<or> hi < ngens (w_rcu w) then [] else map snd (visible_items (rcu_storage s')))"
proof -
  have inv: "world_inv ent w" by (rule world_reach_inv [OF assms(2,1)])
  then obtain lo where rcu: "rcu_inv (w_rcu w) (world_refs w) lo" by (auto simp: world_inv_def)
  let ?refs = "(world_refs w)(g := world_refs w g - 1)"
  let ?w = "w\<lparr>w_readers := remove1 g (w_readers w)\<rparr>"
  have "0 < count_list (w_readers w) g" using assms(3) count_list_0_iff [of "w_readers w" g] by simp
  then have refs: "?refs = world_refs ?w"
    using assms(3) by (auto simp: world_refs_def world_handles_def fun_eq_iff count_list_remove1)
  have handles: "set (world_handles ?w) = set (remove1 g (w_readers w)) \<union> set (map re_gen (w_entries w))"
    by (simp add: world_handles_def)
  obtain s' hi where s': "rcu_reader_drop ent g (w_rcu w) = (s', Inr ())"
    "\<forall>r. 0 < ?refs r \<longrightarrow> hi \<le> r" "hi < ngens (w_rcu w) \<longrightarrow> 0 < ?refs hi"
    "rslot s' = (\<lambda>i. if i \<in> set (pending_in (w_rcu w) lo hi) then None else rslot (w_rcu w) i)"
    "rc_dropped s' = rc_dropped (w_rcu w) @ map (\<lambda>i. the (rslot (w_rcu w) i)) (pending_in (w_rcu w) lo hi) @
      (if rc_owner (w_rcu w) \<or> hi < ngens (w_rcu w) then [] else map snd (visible_items (rcu_storage s')))"
    using release_detail [OF inv assms(3) rcu] by blast
  have "\<forall>r \<in> set (world_handles ?w). hi \<le> r" using s'(2) ext_handle [of _ ?w] unfolding refs by blast
  moreover have "hi \<in> set (world_handles ?w) \<or> rc_owner (w_rcu w) \<and> hi = rc_cur (w_rcu w)"
    if "hi < ngens (w_rcu w)"
    using s'(3) that count_list_0_iff [of "world_handles ?w" hi] unfolding refs
    by (auto simp: world_refs_def split: if_splits)
  moreover have "\<forall>k. k < lo \<longrightarrow> gen_at (w_rcu w) k = None"
    using gens_wfD(3) [OF rcu_invD(3) [OF rcu]] by simp
  ultimately show ?thesis
    using s'(1,4,5) unfolding handles by blast
qed

theorem reader_drop_finalizes_witness:
  "\<exists>s'. rcu_reader_drop entry8 0 (w_rcu demo_world) = (s', Inr ()) \<and> rc_dropped s' = []"
proof -
  have "pending_in (w_rcu demo_world) lo hi = []" for lo hi
    by (auto simp: pending_in_def pending_of_def gen_at_def demo_world_def demo_rcu_def new_gen_def)
  moreover have "(0 :: nat) \<in> set (w_readers demo_world)" and "rc_owner (w_rcu demo_world)"
    and "rc_dropped (w_rcu demo_world) = []"
    by (simp_all add: demo_world_def demo_rcu_def)
  ultimately show ?thesis
    using reader_drop_finalizes [OF entry8_ok demo_world_reach, of 0] by auto
qed

section \<open>\<open>remove\<close> and \<open>clear\<close>\<close>

lemma world_steps_inv: "rtranclp (world_step ent) w w' \<Longrightarrow> world_inv ent w \<Longrightarrow> world_inv ent w'"
  by (induction rule: rtranclp_induct) (use world_step_ok in blast)+

lemma world_steps_reach:
  "rtranclp (world_step ent) w w' \<Longrightarrow> world_reach ent n w \<Longrightarrow> world_reach ent n w'"
  by (induction rule: rtranclp_induct) (auto intro: reach_step)

text \<open>Steps that drop no reader, so that every reader lives through a run of them.\<close>

definition calm_step :: "layout \<Rightarrow> 'a world \<Rightarrow> 'a world \<Rightarrow> bool" where
  "calm_step ent w w' \<longleftrightarrow> world_step ent w w' \<and> set (w_readers w) \<subseteq> set (w_readers w')"

lemma calm_world: "rtranclp (calm_step ent) w w' \<Longrightarrow> rtranclp (world_step ent) w w'"
  by (erule rtranclp_mono [THEN predicate2D, rotated]) (auto simp: calm_step_def)

lemma calm_holding:
  assumes "rtranclp (calm_step ent) w w'" and "r \<in> set (w_readers w)"
  shows "r \<in> set (w_readers w') \<and> run_holding ent r w w'"
  using assms(1)
proof induction
  case base
  then show ?case using assms(2) by (auto intro: hold_start simp: world_handles_def)
next
  case (step w1 w2)
  then have "r \<in> set (w_readers w2)" by (auto simp: calm_step_def)
  with step show ?case by (auto intro: hold_step simp: calm_step_def world_handles_def)
qed

text \<open>The loop of \<open>clear\<close> is a run of steps that hides what its iterator had left.\<close>

lemma clear_loop_ok:
  assumes "world_inv ent w" and "w_iter w = Some rim" and "w_entries w = []"
    and "iter_rest (rcu_storage (w_rcu w)) (rim_iter rim) = ks" and "rvisible (w_rcu w) = vis"
  shows "\<exists>s rim'. clear_loop rim (w_rcu w) = (s, Inr ()) \<and>
    rtranclp (calm_step ent) w (w\<lparr>w_rcu := s, w_iter := Some rim'\<rparr>) \<and> rc_cur s = rc_cur (w_rcu w) \<and>
    rvisible s = (\<lambda>i. if unat i \<in> set ks then None else vis i)"
  using assms
proof (induction ks arbitrary: w rim vis)
  case Nil
  obtain s rim' where s: "rim_next rim (w_rcu w) = (s, Inr (rim', None))" "rc_writer s = rc_writer (w_rcu w)"
    "rc_cur s = rc_cur (w_rcu w)"
    using step_next_ok [OF Nil.prems(1,2)] Nil.prems(4) by auto
  have "clear_loop rim (w_rcu w) = (s, Inr ())" using s(1) by (subst clear_loop.simps) simp
  moreover have "calm_step ent w (w\<lparr>w_rcu := s, w_iter := Some rim'\<rparr>)"
    using step_next [OF Nil.prems(2) s(1), of ent] Nil.prems(3) by (cases w) (simp add: calm_step_def)
  ultimately show ?case using s(2,3) Nil.prems(5) by auto
next
  case (Cons k ks)
  let ?st = "rcu_storage (w_rcu w)" and ?e = "proxy (w_rcu w) k"
  obtain s1 rim1 where s1: "rim_next rim (w_rcu w) = (s1, Inr (rim1, Some ?e))"
    "rc_writer s1 = rc_writer (w_rcu w)" "iter_rest ?st (rim_iter rim1) = ks"
    "world_inv ent (w\<lparr>w_rcu := s1, w_iter := Some rim1, w_entries := [?e]\<rparr>)" (is "world_inv ent ?w1")
    and cur1: "rc_cur s1 = rc_cur (w_rcu w)"
    using step_next_ok [OF Cons.prems(1,2)] Cons.prems(3,4) by auto
  have step1: "calm_step ent w ?w1"
    using step_next [OF Cons.prems(2) s1(1), of ent] Cons.prems(3) by (simp add: calm_step_def)
  have iok: "iter_ok ?st (rim_iter rim)" and iok1: "iter_ok (rcu_storage s1) (rim_iter rim1)"
    and notin: "unat (re_idx ?e) \<notin> set (iter_rest (rcu_storage s1) (rim_iter rim1))"
    using Cons.prems(1,2) s1(4) by (auto simp: world_inv_def iter_mut_ok_def)
  have "k \<in> set (iter_rest ?st (rim_iter rim))" using Cons.prems(4) by simp
  then have "k < unat (it_tail (rim_iter rim))" by (auto simp: iter_rest_def flags_between_def)
  then have k: "unat (re_idx ?e) = k" using word_of_index(1) [OF iok] by (simp add: proxy_def)
  obtain s2 where s2: "entry_remove ?e s1 = (s2, Inr ())" "rvisible s2 = (rvisible s1)(re_idx ?e := None)"
    "iter_rest (rcu_storage s2) (rim_iter rim1) = iter_rest (rcu_storage s1) (rim_iter rim1)"
    "world_inv ent (?w1\<lparr>w_rcu := s2, w_entries := []\<rparr>)" (is "world_inv ent ?w2")
    and cur2: "rc_cur s2 = rc_cur s1"
    using step_entry_remove_ok [OF s1(4), of ?e] iok1 notin by auto
  have step2: "calm_step ent ?w1 ?w2"
    using step_entry_remove [of ?e ?w1 s2 "()" ent] s2(1) by (simp add: calm_step_def)
  have "iter_rest (rcu_storage (w_rcu ?w2)) (rim_iter rim1) = ks" using s2(3) s1(2,3) by simp
  with Cons.IH [OF s2(4), of rim1 "rvisible s2"] obtain s rim' where s: "clear_loop rim1 s2 = (s, Inr ())"
    "rtranclp (calm_step ent) ?w2 (?w2\<lparr>w_rcu := s, w_iter := Some rim'\<rparr>)"
    "rvisible s = (\<lambda>i. if unat i \<in> set ks then None else rvisible s2 i)" "rc_cur s = rc_cur s2"
    by auto
  have "clear_loop rim (w_rcu w) = (s, Inr ())"
    using s1(1) s2(1) s(1) by (subst clear_loop.simps) simp
  moreover have "?w2\<lparr>w_rcu := s, w_iter := Some rim'\<rparr> = w\<lparr>w_rcu := s, w_iter := Some rim'\<rparr>"
    using Cons.prems(3) by (cases w) simp
  then have "rtranclp (calm_step ent) w (w\<lparr>w_rcu := s, w_iter := Some rim'\<rparr>)"
    using step1 step2 s(2) by (metis converse_rtranclp_into_rtranclp)
  moreover have "rvisible s = (\<lambda>i. if unat i \<in> set (k # ks) then None else vis i)"
    using s(3) s2(2) s1(2) k Cons.prems(5) by (auto simp: fun_eq_iff word_unat_eq_iff)
  ultimately show ?case using s(4) cur1 cur2 by auto
qed

lemma clear_hides:
  assumes inv: "world_inv ent w" and "w_iter w = Some rim"
    and all: "iter_items (rcu_storage (w_rcu w)) (rim_iter rim) = visible_items (rcu_storage (w_rcu w))"
  shows "(if unat i \<in> set (iter_rest (rcu_storage (w_rcu w)) (rim_iter rim)) then None else rvisible (w_rcu w) i) = None"
proof (cases "rvisible (w_rcu w) i")
  case (Some v)
  have "storage_wf (rcu_storage (w_rcu w))"
    using inv by (auto simp: world_inv_def rcu_inv_def intro: cslab_wf_storage)
  then have "(i, v) \<in> set (iter_items (rcu_storage (w_rcu w)) (rim_iter rim))"
    using Some all by (simp add: visible_items_exact(1) cslab_visible_def)
  then obtain k where k: "k \<in> set (iter_rest (rcu_storage (w_rcu w)) (rim_iter rim))" "i = word_of_nat k"
    by (auto simp: iter_items_def item_of_def)
  have "iter_ok (rcu_storage (w_rcu w)) (rim_iter rim)" using assms(1,2) by (auto simp: world_inv_def iter_mut_ok_def)
  moreover have "k < unat (it_tail (rim_iter rim))" using k(1) by (auto simp: iter_rest_def flags_between_def)
  ultimately have "unat i = k" using word_of_index(1) k(2) by blast
  then show ?thesis using k(1) by simp
qed simp

text \<open>The iterator of \<open>clear\<close> is dropped and a reader of the new generation taken.\<close>

lemma clear_tail:
  assumes inv: "world_inv ent w" and "w_iter w = Some rim" and "w_entries w = []"
  shows "\<exists>s s' g. rim_drop (w_rcu w) = (s, Inr ()) \<and> rcu_reader s = (s', Inr g) \<and>
    rtranclp (calm_step ent) w (w\<lparr>w_rcu := s', w_iter := None, w_readers := g # w_readers w\<rparr>) \<and>
    g = rc_cur s' \<and> g = Suc (rc_cur (w_rcu w)) \<and> rvisible s' = rvisible (w_rcu w) \<and> pending_of s' g = []"
proof -
  have owner: "rc_owner (w_rcu w)" using assms(1,2) by (auto simp: world_inv_def iter_mut_ok_def)
  obtain s where s: "advance_generation (w_rcu w) = (s, Inr ())" "rc_owner s"
    "world_inv ent (w\<lparr>w_rcu := s, w_iter := None\<rparr>)" (is "world_inv ent ?w1")
    "rc_cur s = ngens (w_rcu w)" "rvisible s = rvisible (w_rcu w)" "pending_of s (rc_cur s) = []"
    using step_advance_ok [OF inv owner] by auto
  have step1: "calm_step ent w ?w1"
    using step_iter_drop [OF assms(2), of s "()" ent] s(1) by (simp add: rim_drop_def calm_step_def)
  have free: "slab_free ?w1" using s(2) assms(3) by (simp add: slab_free_def)
  obtain s' g where s': "rcu_reader s = (s', Inr g)" "g = rc_cur s" "rc_cur s' = g" "rc_writer s' = rc_writer s"
    using step_reader_ok [OF s(3) free] by auto
  have step2: "calm_step ent ?w1 (?w1\<lparr>w_rcu := s', w_readers := g # w_readers ?w1\<rparr>)"
    using step_reader [OF free, of s' g ent] s'(1) by (auto simp: calm_step_def)
  have steps: "rtranclp (calm_step ent) w (w\<lparr>w_rcu := s', w_iter := None, w_readers := g # w_readers w\<rparr>)"
    using rtranclp.rtrancl_into_rtrancl [OF r_into_rtranclp [of "calm_step ent", OF step1] step2] by (cases w) simp
  have "Suc (rc_cur (w_rcu w)) = ngens (w_rcu w)" using inv owner by (auto simp: world_inv_def)
  with s s' steps have "rim_drop (w_rcu w) = (s, Inr ()) \<and> rcu_reader s = (s', Inr g) \<and> g = rc_cur s' \<and> g = Suc (rc_cur (w_rcu w)) \<and>
    rvisible s' = rvisible (w_rcu w) \<and> pending_of s' g = []" by (simp add: rim_drop_def rcu_reader_frame(1) [OF s'(1)])
  with steps show ?thesis by blast
qed

lemma clear_ok:
  assumes inv: "world_inv ent w" and free: "slab_free w"
  shows "\<exists>s g. rcu_clear (w_rcu w) = (s, Inr g) \<and> g = rc_cur s \<and> g = Suc (rc_cur (w_rcu w)) \<and>
    rtranclp (calm_step ent) w (w\<lparr>w_rcu := s, w_readers := g # w_readers w\<rparr>) \<and>
    rvisible s = Map.empty \<and> pending_of s g = []"
proof -
  have borrow: "w_iter w = None" "w_entries w = []" using free by (simp_all add: slab_free_def)
  obtain rim where rim: "rcu_iter_mut_new (w_rcu w) = (w_rcu w, Inr rim)"
    "iter_items (rcu_storage (w_rcu w)) (rim_iter rim) = visible_items (rcu_storage (w_rcu w))"
    "world_inv ent (w\<lparr>w_rcu := w_rcu w, w_iter := Some rim\<rparr>)" (is "world_inv ent ?w0")
    using step_iter_mut_ok [OF inv free] by blast
  have step0: "calm_step ent w ?w0" using step_iter_mut [OF free rim(1), of ent] by (simp add: calm_step_def)
  obtain s1 rim1 where s1: "clear_loop rim (w_rcu w) = (s1, Inr ())"
    "rtranclp (calm_step ent) ?w0 (?w0\<lparr>w_rcu := s1, w_iter := Some rim1\<rparr>)" (is "rtranclp _ _ ?w1")
    "rvisible s1 = (\<lambda>i. if unat i \<in> set (iter_rest (rcu_storage (w_rcu w)) (rim_iter rim)) then None
       else rvisible (w_rcu w) i)" "rc_cur s1 = rc_cur (w_rcu w)"
    using clear_loop_ok [OF rim(3) _ _ refl, of rim "rvisible (w_rcu w)"] borrow(2) by auto
  have inv1: "world_inv ent ?w1" by (rule world_steps_inv [OF calm_world [OF s1(2)] rim(3)])
  obtain s2 s3 g where s3: "rim_drop s1 = (s2, Inr ())" "rcu_reader s2 = (s3, Inr g)"
    "rtranclp (calm_step ent) ?w1 (?w1\<lparr>w_rcu := s3, w_iter := None, w_readers := g # w_readers w\<rparr>)" (is "rtranclp _ _ ?w3")
    "g = rc_cur s3" "g = Suc (rc_cur s1)" "rvisible s3 = rvisible s1" "pending_of s3 g = []"
    using clear_tail [OF inv1, of rim1] borrow(2) by fastforce
  have eq: "?w3 = w\<lparr>w_rcu := s3, w_readers := g # w_readers w\<rparr>" using borrow(1) by (cases w) simp
  have steps: "rtranclp (calm_step ent) w ?w3"
    using step0 s1(2) s3(3) by (meson converse_rtranclp_into_rtranclp rtranclp_trans)
  have none: "rvisible s3 i = None" for i
    using clear_hides [OF rim(3), of rim i] rim(2) s1(3) s3(6) by (simp split: if_splits)
  moreover have "rcu_clear (w_rcu w) = (s3, Inr g)" using rim(1) s1(1) s3(1,2) by (simp add: rcu_clear_def)
  ultimately show ?thesis
    using steps s3(4,5,7) s1(4) eq by (intro exI [of _ s3] exI [of _ g]) (simp add: fun_eq_iff)
qed

text \<open>
  C25. \<open>clear\<close> returns a reader of the next generation through which, as through any other handle, no
  item is found any more; it is a run of the single steps of the program (\<open>iter_mut\<close>, \<open>next\<close>,
  \<open>remove\<close>, the drop of the iterator, \<open>reader\<close>) in which no reader is dropped, so everything above holds across it.
\<close>

theorem clear_spec:
  assumes "entry_layout_ok ent" and "world_reach ent n w" and "slab_free w"
  shows "\<exists>s g. rcu_clear (w_rcu w) = (s, Inr g) \<and> g = rc_cur s \<and> g = Suc (rc_cur (w_rcu w)) \<and>
    rtranclp (calm_step ent) w (w\<lparr>w_rcu := s, w_readers := g # w_readers w\<rparr>) \<and>
    (\<forall>r i. rcu_reader_get s r i = Inr None) \<and> cslab_len (rc_writer s) = 0"
proof -
  have inv: "world_inv ent w" by (rule world_reach_inv [OF assms(2,1)])
  obtain s g where s: "rcu_clear (w_rcu w) = (s, Inr g)" "g = rc_cur s" "g = Suc (rc_cur (w_rcu w))"
    "rtranclp (calm_step ent) w (w\<lparr>w_rcu := s, w_readers := g # w_readers w\<rparr>)" "rvisible s = Map.empty"
    using clear_ok [OF inv assms(3)] by blast
  have wf: "cslab_wf (rc_writer s)"
    using world_steps_inv [OF calm_world [OF s(4)] inv] by (auto simp: world_inv_def rcu_inv_def)
  have "rcu_reader_get s r i = Inr None" for r i
    using s(5) get_impl_eq [OF cslab_wf_storage [OF wf]]
    by (simp add: rcu_reader_get_def reader_get_def cslab_visible_def fun_eq_iff)
  moreover have "unat (cslab_len (rc_writer s)) = 0"
    using visible_count [OF wf] s(5) by (simp add: cslab_len_def)
  ultimately show ?thesis using s by (intro exI [of _ s] exI [of _ g]) (simp add: word_unat_eq_iff)
qed

theorem clear_spec_witness:
  "\<exists>s g. rcu_clear (w_rcu demo_world) = (s, Inr g) \<and> rcu_reader_get (w_rcu demo_world) 0 0 = Inr (Some 7) \<and>
    rcu_reader_get s 0 0 = Inr None \<and> rcu_reader_get s g 0 = Inr None"
  using clear_spec [OF entry8_ok demo_world_reach demo_world_free] demo_get
  by (auto simp: demo_world_def)

lemma nothing_pending:
  assumes inv: "world_inv ent w" and "\<forall>r \<in> set (world_handles w). r = rc_cur (w_rcu w)"
    and "pending_of (w_rcu w) (rc_cur (w_rcu w)) = []" and "rslot (w_rcu w) j \<noteq> None"
    and "rc_owner (w_rcu w)"
  shows "rvisible (w_rcu w) j \<noteq> None"
proof
  assume none: "rvisible (w_rcu w) j = None"
  obtain lo where rcu: "rcu_inv (w_rcu w) (world_refs w) lo"
    and cur: "rc_owner (w_rcu w) \<Longrightarrow> Suc (rc_cur (w_rcu w)) = ngens (w_rcu w)"
    using inv by (auto simp: world_inv_def)
  have "j \<in> set (pending_in (w_rcu w) lo (ngens (w_rcu w)))"
    using rcu_invD(4) [OF rcu] assms(4) none by (simp add: pending_wf_def)
  then obtain p where p: "lo \<le> p" "p < ngens (w_rcu w)" "j \<in> set (pending_of (w_rcu w) p)"
    by (auto simp: set_pending_in)
  have "0 < world_refs w lo" using gens_wfD(6) [OF rcu_invD(3) [OF rcu]] p by simp
  then have "lo = rc_cur (w_rcu w)"
    using assms(2) count_list_0_iff [of "world_handles w" lo] by (auto simp: world_refs_def split: if_splits)
  then have "p = rc_cur (w_rcu w)" using p cur assms(5) by simp
  with p(3) assms(3) show False by simp
qed

text \<open>
  \<open>remove\<close> of a visible item is a marking step and a scheduling step; the item is not found
  any more, and when no read handle is left and nothing borrows the slab, the item (and what was
  pending before it) is dropped before \<open>remove\<close> returns, so no slot is left pending.
\<close>

theorem remove_spec:
  assumes "entry_layout_ok ent" and "world_reach ent n w" and "slab_free w"
    and "rvisible (w_rcu w) i = Some v"
  shows "\<exists>s g. rcu_remove i (w_rcu w) = (s, Inr g) \<and>
    rtranclp (world_step ent) w (w\<lparr>w_rcu := s, w_readers := g # w_readers w\<rparr>) \<and>
    rcu_get s i = Inr None \<and>
    (w_readers w = [] \<longrightarrow> (\<forall>j. rslot s j \<noteq> None \<longrightarrow> rvisible s j \<noteq> None) \<and> rslot s i = None)"
proof -
  have inv: "world_inv ent w" by (rule world_reach_inv [OF assms(2,1)])
  have borrow: "w_iter w = None" "w_entries w = []" and owner: "rc_owner (w_rcu w)"
    using assms(3) by (simp_all add: slab_free_def)
  obtain s1 where s1: "rcu_mark_removed i (w_rcu w) = (s1, Inr ())" "world_inv ent (w\<lparr>w_rcu := s1\<rparr>)"
    "rc_owner s1" "rvisible s1 = (rvisible (w_rcu w))(i := None)"
    using step_mark_ok [OF inv assms(3,4)] by auto
  let ?w1 = "w\<lparr>w_rcu := s1\<rparr>"
  have free1: "slab_free ?w1" using s1(3) borrow by (simp add: slab_free_def)
  obtain s2 g where s2: "rcu_schedule_finalization s1 = (s2, Inr g)" "rvisible s2 = rvisible s1" "g = rc_cur s2"
    "rc_owner s2"
    "world_inv ent (?w1\<lparr>w_rcu := s2, w_readers := g # w_readers ?w1\<rparr>)" (is "world_inv ent ?w2")
    "pending_of s2 g = []"
    using step_schedule_ok [OF s1(2) free1] by auto
  have steps: "rtranclp (world_step ent) w ?w2"
    using step_mark [OF assms(3) s1(1), of ent] step_schedule [OF free1, of s2 g ent, simplified, OF s2(1)]
    by (simp add: converse_rtranclp_into_rtranclp)
  have reach: "world_reach ent n ?w2" by (rule world_steps_reach [OF steps assms(2)])
  have wf: "cslab_wf (rc_writer s2)" using s2(5) by (auto simp: world_inv_def rcu_inv_def)
  have hidden: "rvisible s2 i = None" using s1(4) s2(2) by simp
  then have "rcu_get s2 i = Inr None"
    using get_impl_eq [OF cslab_wf_storage [OF wf]]
    by (simp add: rcu_get_def reader_get_def cslab_visible_def)
  moreover have "rvisible s2 j \<noteq> None" if "w_readers w = []" "rslot s2 j \<noteq> None" for j
    using nothing_pending [OF s2(5)] that s2(3,4,6) borrow by (simp add: world_handles_def)
  moreover have "rcu_remove i (w_rcu w) = (s2, Inr g)" using s1(1) s2(1) by (simp add: rcu_remove_def)
  moreover have "?w2 = w\<lparr>w_rcu := s2, w_readers := g # w_readers w\<rparr>" by simp
  ultimately show ?thesis using steps hidden by (metis (no_types, lifting))
qed

theorem remove_spec_witness:
  "\<exists>s g. rcu_remove 0 (w_rcu demo_world) = (s, Inr g) \<and> rcu_get s 0 = Inr None"
proof -
  have "rvisible (w_rcu demo_world) 0 = Some 7" by code_simp
  from remove_spec [OF entry8_ok demo_world_reach demo_world_free this] show ?thesis by blast
qed

text \<open>
  C26. Marking an absent index panics with the writer's lock held: the mutex is poisoned, and from
  then on insertion, counting and further removals panic at the lock, and so does the drop of a
  generation (which then leaks the items it should have finalized).
\<close>

theorem absent_mark_poisons:
  assumes "entry_layout_ok ent" and "world_reach ent n w" and "slab_free w"
    and "rvisible (w_rcu w) i = None"
  shows "\<exists>s e. rcu_mark_removed i (w_rcu w) = (s, Inl e) \<and>
    rcu_insert v s = (s, Inl Panic_poisoned) \<and> rcu_len s = (s, Inl Panic_poisoned) \<and>
    rcu_mark_removed j s = (s, Inl Panic_poisoned) \<and> gen_drop gn s = (s, Inl Panic_poisoned)"
proof -
  obtain lo where rcu: "rcu_inv (w_rcu w) (world_refs w) lo"
    using world_reach_inv [OF assms(2,1)] by (auto simp: world_inv_def)
  obtain e where "gen_mark_removed (rc_cur (w_rcu w)) i (w_rcu w) = (w_rcu w\<lparr>rc_poisoned := True\<rparr>, Inl e)"
    using mark_absent_faults [OF rcu assms(4)] by blast
  then show ?thesis
    by (intro exI [of _ "w_rcu w\<lparr>rc_poisoned := True\<rparr>"] exI [of _ e])
      (simp add: rcu_mark_removed_def rcu_insert_def rcu_len_def gen_mark_removed_def gen_drop_def
        with_writer_def abind_def)
qed

theorem absent_mark_poisons_witness:
  "\<exists>s e. rcu_mark_removed 1 (w_rcu demo_world) = (s, Inl e) \<and> rcu_insert 9 s = (s, Inl Panic_poisoned)"
proof -
  have "rvisible (w_rcu demo_world) 1 = None" by code_simp
  from absent_mark_poisons [OF entry8_ok demo_world_reach demo_world_free this] show ?thesis by blast
qed

end
