(* ===== verification/Rcu_Account.thy ===== *)
theory Rcu_Account
  imports Rcu_Props "HOL-Library.Multiset"
begin

text \<open>
  What becomes of the items of an \<open>RcuCslab\<close>: every item that was ever inserted is in exactly one slot or has been
  dropped exactly once, and when the slab and all its handles are gone every item has been dropped.
\<close>

section \<open>The items in the table\<close>

fun entry_items :: "'a entry \<Rightarrow> 'a list" where
  "entry_items (Item v) = [v]" | "entry_items (Next_free _) = []"

definition occupants :: "'a cslab \<Rightarrow> 'a multiset" where
  "occupants s = mset (concat (map entry_items (st_table (storage s))))"

lemma mset_entry_update:
  "i < length tb \<Longrightarrow> mset (concat (map entry_items (tb[i := e]))) + mset (entry_items (tb ! i)) =
    mset (concat (map entry_items tb)) + mset (entry_items e)"
proof (induction tb arbitrary: i)
  case (Cons x tb)
  then show ?case by (cases i) (simp_all add: ac_simps)
qed simp

lemma insert_occupants:
  assumes "cslab_insert s v = Inr (s', r)"
  shows "occupants s' = occupants s + (case r of Inl _ \<Rightarrow> {#} | Inr _ \<Rightarrow> {#v#})"
proof (cases "length (st_table (storage s)) \<le> unat (first_free s)")
  case True
  then show ?thesis using assms by (auto simp: cslab_insert_def Let_def)
next
  case False
  then obtain d where d: "st_table (storage s) ! unat (first_free s) = Next_free d"
    using assms by (auto simp: cslab_insert_def Let_def res_simps entry_next_free_def split: entry.splits)
  from False assms have "st_table (storage s') = (st_table (storage s))[unat (first_free s) := Item v] \<and> r = Inr (first_free s)"
    by (auto simp: cslab_insert_def Let_def res_simps raise_frontier_def store_flags_def split: if_splits)
  then show ?thesis
    using mset_entry_update [of "unat (first_free s)" "st_table (storage s)" "Item v"] False d by (simp add: occupants_def)
qed

lemma mark_occupants: "cslab_mark_removed s i = Inr s' \<Longrightarrow> occupants s' = occupants s \<and> st_size (storage s') = st_size (storage s)"
  by (auto simp: cslab_mark_removed_def res_simps store_flags_def occupants_def)

lemma finalize_occupants:
  assumes "cslab_finalize_remove s i = Inr (s', v)"
  shows "occupants s = add_mset v (occupants s') \<and> st_size (storage s') = st_size (storage s)"
proof -
  have v: "unat i < length (st_table (storage s))" "st_table (storage s) ! unat i = Item v"
    and tb: "\<exists>d. st_table (storage s') = (st_table (storage s))[unat i := Next_free d]"
    and size: "st_size (storage s') = st_size (storage s)"
    using assms by (auto simp: cslab_finalize_remove_def Let_def res_simps entry_item_def split: entry.splits)
  then obtain d where "st_table (storage s') = (st_table (storage s))[unat i := Next_free d]" by blast
  then show ?thesis
    using mset_entry_update [OF v(1), of "Next_free d"] v(2) size by (simp add: occupants_def)
qed

lemma finalize_list_occupants:
  "finalize_list is s = (s', Inr vs) \<Longrightarrow> occupants s = mset vs + occupants s' \<and> st_size (storage s') = st_size (storage s)"
proof (induction "is" arbitrary: s vs)
  case (Cons i "is")
  then obtain s1 v ws where "cslab_finalize_remove s i = Inr (s1, v)" "finalize_list is s1 = (s', Inr ws)" "vs = v # ws"
    by (auto simp: abind_def aret_def lift_writer_def split: prod.splits sum.splits)
  then show ?case using Cons.IH finalize_occupants by fastforce
qed simp

text \<open>Where nothing is hidden, the drop of the storage drops every occupant.\<close>

lemma concat_if: "concat (map (\<lambda>i. if P i then [f i] else []) xs) = map f (filter P xs)"
  by (induction xs) simp_all

lemma visible_occupants:
  assumes "storage_wf (storage s)" and "\<And>i. slot_at (storage s) i \<noteq> None \<Longrightarrow> flag_at (st_bitmap (storage s)) i"
  shows "mset (map snd (visible_items (storage s))) = occupants s"
proof -
  let ?st = "storage s"
  note wf = storage_wf_dests [OF assms(1)]
  have "entry_items (st_table ?st ! i) = (if flag_at (st_bitmap ?st) i then [the (slot_at ?st i)] else [])"
    if "i < length (st_table ?st)" for i
    using that assms(2) [of i] wf(6) [of i] by (auto simp: slot_at_def split: entry.splits)
  then have "map entry_items (st_table ?st) =
      map (\<lambda>i. if flag_at (st_bitmap ?st) i then [the (slot_at ?st i)] else []) [0..<length (st_table ?st)]"
    by (intro nth_equalityI) simp_all
  then show ?thesis
    by (simp add: occupants_def concat_if visible_items_def item_of_def flags_between_def wf(2) o_def)
qed

section \<open>Actions that move items only between slots and the log of drops\<close>

definition account :: "'a rcu \<Rightarrow> 'a multiset" where
  "account s = mset (rc_dropped s) + occupants (rc_writer s)"

text \<open>What such actions leave alone beside the account: whether the slab is there, and its capacity.\<close>

definition fixed :: "'a rcu \<Rightarrow> bool \<times> usize \<times> usize" where
  "fixed s = (rc_owner s, rc_capacity s, st_size (rcu_storage s))"

definition balanced :: "('a rcu, 'r) act \<Rightarrow> bool" where
  "balanced m \<longleftrightarrow> (\<forall>s s' x. m s = (s', Inr x) \<longrightarrow> account s' = account s \<and> fixed s' = fixed s)"

lemma balancedD: "balanced m \<Longrightarrow> m s = (s', Inr x) \<Longrightarrow> account s' = account s \<and> fixed s' = fixed s"
  by (simp add: balanced_def)

lemma balanced_bind: "balanced m \<Longrightarrow> (\<And>x. balanced (f x)) \<Longrightarrow> balanced (abind m f)"
  unfolding balanced_def abind_def by (fastforce split: prod.splits sum.splits)

lemma balanced_after: "balanced m \<Longrightarrow> balanced d \<Longrightarrow> balanced (after m d)"
  unfolding balanced_def after_def by (fastforce simp: unwind_Inr_iff split: prod.splits)

lemma balanced_const: "(\<And>s. fst (m s) = s) \<Longrightarrow> balanced m"
  unfolding balanced_def by (metis fst_conv)

lemma balanced_writer:
  assumes "\<And>w w' x. f w = (w', Inr x) \<Longrightarrow> occupants w' = occupants w \<and> st_size (storage w') = st_size (storage w)"
  shows "balanced (with_writer f)"
  unfolding balanced_def with_writer_def account_def fixed_def
  by (auto split: prod.splits if_splits dest: assms)

lemma with_inner_balanced: "balanced (with_inner g f)"
  unfolding balanced_def with_inner_def account_def fixed_def set_gen_def
  by (auto split: option.splits sum.splits if_splits)

lemma arc_clone_balanced: "balanced (arc_clone g)"
  unfolding balanced_def arc_clone_def account_def fixed_def set_gen_def by (auto split: option.splits)

lemma gen_mark_balanced: "balanced (gen_mark_removed g i)"
  unfolding gen_mark_removed_def
  by (intro balanced_bind balanced_writer with_inner_balanced)
    (auto simp: lift_writer_def res_simps split: sum.splits dest: mark_occupants)

lemma gen_drop_balanced: "balanced (gen_drop gn)"
proof (unfold balanced_def, intro allI impI)
  fix s s' x assume drop: "gen_drop gn s = (s', Inr x)"
  then obtain w vs where "finalize_list (g_pending gn) (rc_writer s) = (w, Inr vs)"
      "s' = s\<lparr>rc_writer := w, rc_poisoned := False, rc_dropped := rc_dropped s @ vs\<rparr>"
    by (auto simp: gen_drop_def abind_def with_writer_def split: prod.splits sum.splits if_splits)
  then show "account s' = account s \<and> fixed s' = fixed s"
    using finalize_list_occupants by (fastforce simp: account_def fixed_def)
qed

lemma arc_drop_balanced: "balanced (arc_drop g)"
proof -
  have "account s' = account s \<and> fixed s' = fixed s" if "arc_drop g s = (s', Inr x)" for s s' :: "'a rcu" and x
    using that
  proof (induction g s arbitrary: s' x rule: arc_drop.induct)
    case (1 g s)
    have same: "account (set_gen h y t) = account t" "fixed (set_gen h y t) = fixed t" for h y and t :: "'a rcu"
      by (simp_all add: account_def fixed_def set_gen_def)
    obtain gn where gn: "gen_at s g = Some gn"
      using "1.prems" by (cases "gen_at s g") (simp_all add: arc_drop.simps)
    show ?case
    proof (cases "g_strong gn > 1")
      case True
      then show ?thesis using "1.prems" gn by (auto simp: arc_drop.simps [of g s] same)
    next
      case False
      obtain s1 r where drop: "gen_drop gn s = (s1, r)" by fastforce
      show ?thesis
      proof (cases "g_next gn")
        case None
        with "1.prems" gn False drop have "r = Inr x" "s' = set_gen g None s1" by (auto simp: arc_drop.simps [of g s])
        then show ?thesis using balancedD [OF gen_drop_balanced, of gn s s1 x] drop by (simp add: same)
      next
        case (Some n)
        obtain s2 r' where rest: "arc_drop n (set_gen g None s1) = (s2, r')" by fastforce
        with "1.prems" gn False drop Some have r: "r = Inr x" "r' = Inr ()" "s' = s2"
          by (auto simp: arc_drop.simps [of g s] unwind_Inr_iff)
        have "account s2 = account (set_gen g None s1) \<and> fixed s2 = fixed (set_gen g None s1)"
          by (rule "1.IH" [OF gn False drop [symmetric] Some]) (use rest r in auto)
        then show ?thesis using balancedD [OF gen_drop_balanced, of gn s s1 x] drop r by (simp add: same)
      qed
    qed
  qed
  then show ?thesis by (simp add: balanced_def)
qed

lemma rcu_reader_balanced: "balanced rcu_reader"
  unfolding balanced_def rcu_reader_def
  using balancedD [OF arc_clone_balanced] by (fastforce simp: abind_def split: prod.splits sum.splits)

lemma advance_balanced: "balanced advance_generation"
proof (unfold balanced_def, intro allI impI)
  fix s s' x assume adv: "advance_generation s = (s', Inr x)"
  let ?s1 = "s\<lparr>rc_gens := rc_gens s @ [Some new_gen]\<rparr>" and ?n = "length (rc_gens s)"
  obtain s2 u where inner: "with_inner (rc_cur s) (link_next ?n) ?s1 = (s2, Inr u)"
      and tail: "abind (arc_clone ?n) (\<lambda>_ s3. arc_drop (rc_cur s) (s3\<lparr>rc_cur := ?n\<rparr>)) s2 = (s', Inr x)"
    using adv by (auto simp: advance_generation_def Let_def unwind_Inr_iff split: prod.splits sum.splits)
  obtain s3 where clone: "arc_clone ?n s2 = (s3, Inr ())" and drop: "arc_drop (rc_cur s) (s3\<lparr>rc_cur := ?n\<rparr>) = (s', Inr x)"
    using tail by (auto simp: abind_def split: prod.splits sum.splits)
  have "account (s3\<lparr>rc_cur := ?n\<rparr>) = account s3" "account ?s1 = account s" "fixed (s3\<lparr>rc_cur := ?n\<rparr>) = fixed s3" "fixed ?s1 = fixed s"
    by (simp_all add: account_def fixed_def)
  then show "account s' = account s \<and> fixed s' = fixed s"
    using balancedD [OF with_inner_balanced inner] balancedD [OF arc_clone_balanced clone] balancedD [OF arc_drop_balanced drop] by simp
qed

lemma rim_wrap_balanced: "balanced (rim_wrap rim x)"
proof (unfold balanced_def, intro allI impI)
  fix s s' y assume "rim_wrap rim x s = (s', Inr y)"
  then consider "s' = s" | "arc_clone (rc_cur s) s = (s', Inr ())"
    by (auto simp: rim_wrap_def abind_def split: sum.splits prod.splits option.splits)
  then show "account s' = account s \<and> fixed s' = fixed s"
    by cases (use balancedD [OF arc_clone_balanced] in auto)
qed

lemma rcu_balanced:
  "balanced (rcu_mark_removed i)" "balanced rcu_schedule_finalization" "balanced (rcu_reader_clone g)"
  "balanced rcu_iter_mut_new" "balanced (rim_next rim)" "balanced (rim_next_back rim)" "balanced rim_drop"
  "balanced (entry_remove e)" "balanced (entry_drop e)"
proof -
  show "balanced (rcu_mark_removed i)"
    unfolding balanced_def rcu_mark_removed_def using balancedD [OF gen_mark_balanced] by blast
  show "balanced (rim_next rim)"
    unfolding balanced_def rim_next_def using balancedD [OF rim_wrap_balanced] by blast
  show "balanced (rim_next_back rim)"
    unfolding balanced_def rim_next_back_def using balancedD [OF rim_wrap_balanced] by blast
  show "balanced rcu_schedule_finalization"
    unfolding rcu_schedule_finalization_def by (intro balanced_bind advance_balanced rcu_reader_balanced)
  show "balanced (rcu_reader_clone g)"
    unfolding rcu_reader_clone_def by (intro balanced_bind arc_clone_balanced balanced_const) simp
  show "balanced rcu_iter_mut_new"
    unfolding rcu_iter_mut_new_def rcu_len_def by (intro balanced_bind balanced_writer balanced_const) auto
  show "balanced rim_drop" unfolding rim_drop_def by (rule advance_balanced)
  show "balanced (entry_drop e)" unfolding entry_drop_def by (rule arc_drop_balanced)
  show "balanced (entry_remove e)"
    unfolding entry_remove_def entry_drop_def by (intro balanced_after gen_mark_balanced arc_drop_balanced)
qed

section \<open>The account of a program\<close>

text \<open>
  A run with the list of the items it inserted. A step that is not a successful \<open>insert\<close> adds
  nothing to the list (an \<open>insert\<close> into a full slab returns its item and is such a step).
\<close>

definition insert_step :: "'a world \<Rightarrow> 'a \<Rightarrow> 'a world \<Rightarrow> bool" where
  "insert_step w v w' \<longleftrightarrow> slab_free w \<and>
     (\<exists>s i. rcu_insert v (w_rcu w) = (s, Inr (Inr i)) \<and> w' = w\<lparr>w_rcu := s\<rparr>)"

inductive world_logged :: "layout \<Rightarrow> usize \<Rightarrow> 'a world \<Rightarrow> 'a list \<Rightarrow> bool" for ent n where
  logged_start: "rcu_with_fixed_capacity ent n = Inr s \<Longrightarrow> world_logged ent n (world_start s) []"
| logged_insert: "world_logged ent n w ins \<Longrightarrow> insert_step w v w' \<Longrightarrow> world_logged ent n w' (ins @ [v])"
| logged_other: "world_logged ent n w ins \<Longrightarrow> world_step ent w w' \<Longrightarrow> \<nexists>v. insert_step w v w' \<Longrightarrow>
    world_logged ent n w' ins"

definition finished :: "'a world \<Rightarrow> bool" where
  "finished w \<longleftrightarrow> \<not> rc_owner (w_rcu w) \<and> w_readers w = []"

definition world_total :: "'a world \<Rightarrow> 'a multiset" where
  "world_total w = mset (rc_dropped (w_rcu w)) + (if finished w then {#} else occupants (rc_writer (w_rcu w)))"

lemma unfinished_total: "\<not> finished w \<Longrightarrow> world_total w = account (w_rcu w)"
  by (simp add: world_total_def account_def)

lemma insert_step_step: "insert_step w v w' \<Longrightarrow> world_step ent w w'"
  unfolding insert_step_def by (auto intro: step_insert)

lemma logged_reach: "world_logged ent n w ins \<Longrightarrow> world_reach ent n w"
  by (induction rule: world_logged.induct) (auto intro: reach_start reach_step insert_step_step)

lemma reach_logged: "world_reach ent n w \<Longrightarrow> \<exists>ins. world_logged ent n w ins"
proof (induction rule: world_reach.induct)
  case (reach_step w w')
  then show ?case by (cases "\<exists>v. insert_step w v w'") (blast intro: logged_insert logged_other)+
qed (blast intro: logged_start)

lemma insert_account:
  assumes "rcu_insert v s = (s', Inr r)"
  shows "account s' = account s + (case r of Inl _ \<Rightarrow> {#} | Inr _ \<Rightarrow> {#v#})" and "rc_owner s' = rc_owner s"
proof -
  obtain x where "cslab_insert (rc_writer s) v = Inr (x, r)" and s': "s' = s\<lparr>rc_writer := x, rc_poisoned := False\<rparr>"
    using assms by (auto simp: rcu_insert_def with_writer_def lift_writer_def split: prod.splits sum.splits if_splits)
  then show "account s' = account s + (case r of Inl _ \<Rightarrow> {#} | Inr _ \<Rightarrow> {#v#})" "rc_owner s' = rc_owner s"
    by (simp_all add: account_def insert_occupants [of "rc_writer s" v x r])
qed

lemma borrowed_owner:
  assumes "world_inv ent w" and "w_iter w \<noteq> None \<or> w_entries w \<noteq> []"
  shows "rc_owner (w_rcu w)"
  using assms by (cases "w_entries w") (auto simp: world_inv_def iter_mut_ok_def entries_ok_def)

lemma finished_gens:
  assumes inv: "world_inv ent w" and rcu: "rcu_inv (w_rcu w) (world_refs w) lo"
  shows "finished w \<longleftrightarrow> \<not> (rc_owner (w_rcu w) \<or> lo < ngens (w_rcu w))"
proof (cases "rc_owner (w_rcu w)")
  case False
  then have "w_entries w = []" using borrowed_owner [OF inv] by blast
  with False have refs: "world_refs w = count_list (w_readers w)"
    by (simp add: world_refs_def world_handles_def fun_eq_iff)
  note gens = gens_wfD [OF rcu_invD(3) [OF rcu]]
  have "lo < ngens (w_rcu w) \<longleftrightarrow> w_readers w \<noteq> []"
  proof
    assume "lo < ngens (w_rcu w)"
    with gens(6) refs show "w_readers w \<noteq> []" by auto
  next
    assume "w_readers w \<noteq> []"
    then obtain g where "g \<in> set (w_readers w)" using hd_in_set by blast
    then have "0 < world_refs w g" using refs count_list_0_iff [of "w_readers w" g] by simp
    with gens(4,5) [of g] show "lo < ngens (w_rcu w)" by simp
  qed
  with False show ?thesis by (simp add: finished_def)
qed (simp add: finished_def)

lemma release_log:
  assumes "writer_release ent s = (s', Inr u)"
  shows "\<exists>d. s' = s\<lparr>rc_dropped := d\<rparr>"
proof -
  consider "s' = s" | items where "s' = s\<lparr>rc_dropped := rc_dropped s @ items\<rparr>"
    using assms by (auto simp: writer_release_def split: if_splits option.splits sum.splits)
  then show ?thesis by cases (auto intro: exI [of _ "rc_dropped s"])
qed

text \<open>The release of the writer moves what is left to the log of drops when it is the last one, and only then.\<close>

lemma release_total:
  assumes inv: "world_inv ent w" and rel: "writer_release ent s = (w_rcu w, Inr u)"
  shows "world_total w = account s"
proof -
  obtain d where d: "w_rcu w = s\<lparr>rc_dropped := d\<rparr>"
    using release_log [OF rel] by blast
  obtain lo where "rcu_inv (w_rcu w) (world_refs w) lo" and lay: "layout_known ent (w_rcu w)"
    using inv by (auto simp: world_inv_def)
  note rcu = this
  have rcu': "rcu_inv s (world_refs w) lo" and "layout_known ent s"
    using rcu by (simp_all add: d layout_known_def)
  from writer_release_ok [OF this] finished_gens [OF inv rcu(1)] rel
  have log: "rc_dropped (w_rcu w) = rc_dropped s @ (if finished w then map snd (visible_items (rcu_storage s)) else [])"
    by (auto simp: d)
  show ?thesis
  proof (cases "finished w")
    case True
    then have "pending_in s lo (ngens s) = []"
      using finished_gens [OF inv rcu(1)] by (simp add: pending_in_def d)
    then have none: "rslot s i \<noteq> None \<Longrightarrow> rvisible s i \<noteq> None" for i
      using rcu_invD(4) [OF rcu'] unfolding pending_wf_def by (metis (mono_tags, lifting) empty_iff list.set(1) mem_Collect_eq)
    note wf = cslab_wf_storage [OF rcu_invD(1) [OF rcu']]
    have "flag_at (st_bitmap (rcu_storage s)) i" if slot: "slot_at (rcu_storage s) i \<noteq> None" for i
    proof -
      have "i < 2 ^ 60" using slot storage_wf_dests(1,2) [OF wf] by (simp add: slot_at_def split: if_splits)
      then have "unat (word_of_nat i :: usize) = i" by (simp add: unat_of_nat take_bit_nat_eq_self)
      with none [of "word_of_nat i"] slot show ?thesis
        by (simp add: cslab_slot_def cslab_visible_def visible_at_def split: if_splits)
    qed
    then show ?thesis
      using True log visible_occupants [OF wf] by (simp add: world_total_def account_def)
  next
    case False
    then show ?thesis using log by (simp add: world_total_def account_def d)
  qed
qed

lemma released_total:
  assumes "world_inv ent w'" and "after (arc_drop g) (writer_release ent) s = (w_rcu w', Inr u)"
  shows "world_total w' = account s"
proof -
  obtain s1 where "arc_drop g s = (s1, Inr ())" and "writer_release ent s1 = (w_rcu w', Inr ())"
    using assms(2) by (auto simp: after_def unwind_Inr_iff split: prod.splits)
  then show ?thesis using release_total [OF assms(1)] balancedD [OF arc_drop_balanced] by metis
qed

lemma released_owner:
  assumes "after (arc_drop g) (writer_release ent) s = (s', Inr u)"
  shows "rc_owner s' = rc_owner s"
proof -
  obtain s1 where "arc_drop g s = (s1, Inr ())" and "writer_release ent s1 = (s', Inr ())"
    using assms by (auto simp: after_def unwind_Inr_iff split: prod.splits)
  then show ?thesis using release_log [of ent s1] balancedD [OF arc_drop_balanced, of g s s1] by (auto simp: fixed_def)
qed

lemma balanced_total:
  assumes "balanced m" and "m (w_rcu w) = (s, Inr x)" and "rc_owner (w_rcu w) \<or> w_readers w \<noteq> [] \<and> w_readers w' \<noteq> []"
    and "w_rcu w' = s"
  shows "world_total w' = world_total w"
  using balancedD [OF assms(1,2)] assms(3,4) unfinished_total [of w] unfinished_total [of w'] by (auto simp: finished_def fixed_def)

lemma insert_step_total:
  assumes "insert_step w v w'"
  shows "world_total w' = add_mset v (world_total w)"
proof -
  obtain s i where free: "slab_free w" and ins: "rcu_insert v (w_rcu w) = (s, Inr (Inr i))" and w': "w' = w\<lparr>w_rcu := s\<rparr>"
    using assms by (auto simp: insert_step_def)
  then show ?thesis
    using insert_account [OF ins] by (simp add: unfinished_total finished_def slab_free_def)
qed

lemma other_step_total:
  assumes "world_step ent w w'" and other: "\<nexists>v. insert_step w v w'" and inv: "world_inv ent w" and inv': "world_inv ent w'"
  shows "world_total w' = world_total w"
  using assms(1)
proof cases
  case (step_insert v s r)
  then obtain u where "r = Inl u" using other by (cases r) (auto simp: insert_step_def)
  then show ?thesis
    using step_insert insert_account [OF step_insert(3)] by (simp add: unfinished_total finished_def slab_free_def)
next
  case (step_mark i s u)
  then show ?thesis by (intro balanced_total [OF rcu_balanced(1) step_mark(3)]) (simp_all add: slab_free_def)
next
  case (step_schedule s g)
  then show ?thesis by (intro balanced_total [OF rcu_balanced(2) step_schedule(3)]) (simp_all add: slab_free_def)
next
  case (step_reader s g)
  then show ?thesis by (intro balanced_total [OF rcu_reader_balanced step_reader(3)]) (simp_all add: slab_free_def)
next
  case (step_clone g s g')
  then show ?thesis by (intro balanced_total [OF rcu_balanced(3) step_clone(3)]) auto
next
  case (step_reader_drop g s u)
  then have "world_total w' = account (w_rcu w)" using released_total [OF inv'] by (simp add: rcu_reader_drop_def)
  moreover have "\<not> finished w" using step_reader_drop(2) by (auto simp: finished_def)
  ultimately show ?thesis by (simp add: unfinished_total)
next
  case (step_iter_mut s rim)
  then show ?thesis by (intro balanced_total [OF rcu_balanced(4) step_iter_mut(3)]) (simp_all add: slab_free_def)
next
  case (step_next rim s rim' x)
  then show ?thesis using borrowed_owner [OF inv] by (intro balanced_total [OF rcu_balanced(5) step_next(3)]) simp_all
next
  case (step_next_back rim s rim' x)
  then show ?thesis using borrowed_owner [OF inv] by (intro balanced_total [OF rcu_balanced(6) step_next_back(3)]) simp_all
next
  case (step_iter_drop rim s u)
  then show ?thesis using borrowed_owner [OF inv] by (intro balanced_total [OF rcu_balanced(7) step_iter_drop(3)]) simp_all
next
  case (step_entry_remove e s u)
  then have "rc_owner (w_rcu w)" by (intro borrowed_owner [OF inv]) auto
  with step_entry_remove show ?thesis by (intro balanced_total [OF rcu_balanced(8) step_entry_remove(3)]) simp_all
next
  case (step_entry_drop e s u)
  then have "rc_owner (w_rcu w)" by (intro borrowed_owner [OF inv]) auto
  with step_entry_drop show ?thesis by (intro balanced_total [OF rcu_balanced(9) step_entry_drop(3)]) simp_all
next
  case (step_drop s u)
  then have "world_total w' = account (w_rcu w\<lparr>rc_owner := False\<rparr>)" using released_total [OF inv'] by (simp add: rcu_drop_def)
  with step_drop show ?thesis by (simp add: unfinished_total finished_def slab_free_def account_def)
qed

lemma logged_total:
  assumes "entry_layout_ok ent" and "world_logged ent n w ins"
  shows "mset ins = world_total w"
  using assms(2)
proof induction
  case (logged_start s)
  then obtain x where new: "cslab_with_fixed_capacity ent n = Inr x"
    and s: "rc_writer s = x" "rc_dropped s = []" "rc_owner s"
    by (auto simp: rcu_with_fixed_capacity_def res_simps)
  have "st_table (storage x) = replicate (unat n) (Next_free 0)"
    using new by (auto simp: cslab_with_fixed_capacity_def storage_with_fixed_capacity_def res_simps)
  then have "occupants (rc_writer s) = {#}" using s(1) by (simp add: occupants_def)
  with s show ?case by (simp add: world_total_def world_start_def)
next
  case (logged_insert w ins v w')
  then show ?case by (simp add: insert_step_total)
next
  case (logged_other w ins w')
  have "world_inv ent w" by (rule world_reach_inv [OF logged_reach [OF logged_other.hyps(1)] assms(1)])
  with logged_other show ?case using other_step_total world_step_ok by metis
qed

text \<open>
  C11. No item is lost and none is dropped twice: in every run of a program the items inserted so
  far are, with their multiplicities, those dropped so far together with those still in a slot;
  and once the slab and every read handle are gone, no slot holds an item that has not been
  dropped: every inserted item has been dropped exactly once.
\<close>

theorem rcu_items_conserved:
  assumes "entry_layout_ok ent" and "world_logged ent n w ins"
  shows "mset ins = mset (rc_dropped (w_rcu w)) +
    (if finished w then {#} else occupants (rc_writer (w_rcu w)))"
  using logged_total [OF assms] by (simp add: world_total_def)

text \<open>A run that inserts the item 7, drops the slab before its reader, and so drops the item with the reader.\<close>

lemma demo_logged: "world_logged entry8 2 demo_world [7]"
proof -
  obtain ins where log: "world_logged entry8 2 demo_world ins" using reach_logged [OF demo_world_reach] by blast
  have "world_total demo_world = {#7#}"
    by (simp add: world_total_def finished_def occupants_def demo_world_def demo_rcu_def demo_slab_def)
  then have "mset ins = {#7#}" using logged_total [OF entry8_ok log] by simp
  then have "ins = [7]" by (simp only: mset_single_iff)
  with log show ?thesis by simp
qed

theorem rcu_items_conserved_witness:
  "\<exists>w. world_logged entry8 2 w [7 :: nat] \<and> finished w \<and> mset [7] = mset (rc_dropped (w_rcu w))"
proof -
  have inv: "world_inv entry8 demo_world" by (rule world_reach_inv [OF demo_world_reach entry8_ok])
  obtain s where s: "rcu_drop entry8 (w_rcu demo_world) = (s, Inr ())" and inv1: "world_inv entry8 (demo_world\<lparr>w_rcu := s\<rparr>)"
    using step_drop_ok [OF inv demo_world_free] by blast
  let ?w1 = "demo_world\<lparr>w_rcu := s\<rparr>"
  have owner: "\<not> rc_owner s" using s by (auto simp: rcu_drop_def dest: released_owner)
  then have "\<nexists>v. insert_step demo_world v ?w1"
    using demo_world_free insert_account(2) by (fastforce simp: insert_step_def slab_free_def demo_world_def)
  then have l1: "world_logged entry8 2 ?w1 [7]"
    by (rule logged_other [OF demo_logged step_drop [OF demo_world_free s]])
  have r: "0 \<in> set (w_readers ?w1)" by (simp add: demo_world_def)
  obtain t where t: "rcu_reader_drop entry8 0 (w_rcu ?w1) = (t, Inr ())"
    using step_reader_drop_ok [OF inv1 r] by blast
  let ?w2 = "?w1\<lparr>w_rcu := t, w_readers := remove1 0 (w_readers ?w1)\<rparr>"
  have l2: "world_logged entry8 2 ?w2 [7]"
    by (rule logged_other [OF l1 step_reader_drop [OF r t]]) (simp add: insert_step_def slab_free_def owner)
  have "\<not> rc_owner t" using t owner by (auto simp: rcu_reader_drop_def dest: released_owner)
  then have "finished ?w2" by (simp add: finished_def demo_world_def)
  with l2 rcu_items_conserved [OF entry8_ok l2] show ?thesis by (intro exI [of _ ?w2]) simp
qed

end
