(* ===== verification/Test_Actions.thy ===== *)
theory Test_Actions
  imports Zpr_Prelude
begin

text \<open>
  What tests are made of: actions on the state a test works on, in which an assertion that fails and
  an \<open>unwrap\<close> of an error are panics.
\<close>

definition look :: "('s \<Rightarrow> 'r res) \<Rightarrow> ('s, 'r) act" where
  "look f s = (s, f s)"

definition assert_eq :: "('s, 'r) act \<Rightarrow> 'r \<Rightarrow> ('s, unit) act" where
  "assert_eq m v = abind m (\<lambda>x s. (s, rassert Panic_assert (x = v)))"

definition assert_ne :: "'r \<Rightarrow> 'r \<Rightarrow> ('s, unit) act" where
  "assert_ne x y s = (s, rassert Panic_assert (x \<noteq> y))"

definition assert_none :: "'r option \<Rightarrow> ('s, unit) act" where
  "assert_none x s = (s, rassert Panic_assert (case x of None \<Rightarrow> True | Some _ \<Rightarrow> False))"

definition unwrap_ok :: "('s, 'e + 'r) act \<Rightarrow> ('s, 'r) act" where
  "unwrap_ok m = abind m (\<lambda>r s. (s, case r of Inl _ \<Rightarrow> Inl Panic_unwrap | Inr x \<Rightarrow> Inr x))"

definition unwrap_err :: "('s, 'e + 'r) act \<Rightarrow> ('s, unit) act" where
  "unwrap_err m = abind m (\<lambda>r s. (s, case r of Inl _ \<Rightarrow> Inr () | Inr x \<Rightarrow> Inl Panic_unwrap))"

definition unwrap_some :: "('s, 'r option) act \<Rightarrow> ('s, 'r) act" where
  "unwrap_some m = abind m (\<lambda>r s. (s, unwrap r))"

definition catch_unwind :: "('s, 'r) act \<Rightarrow> ('s, 'r res) act" where
  "catch_unwind m s = (case m s of (s', r) \<Rightarrow> (s', case r of Inl Abort \<Rightarrow> Inl Abort | _ \<Rightarrow> Inr r))"

fun for_each :: "'x list \<Rightarrow> ('x \<Rightarrow> ('s, 'r) act) \<Rightarrow> ('s, 'r list) act" where
  "for_each [] body = aret []"
| "for_each (x # xs) body = abind (body x) (\<lambda>r. abind (for_each xs body) (\<lambda>rs. aret (r # rs)))"

definition run_test :: "'s res \<Rightarrow> ('s, 'r) act \<Rightarrow> unit res" where
  "run_test new m = rbind new (\<lambda>s. rbind (snd (m s)) (\<lambda>_. Inr ()))"

end
