(* ===== verification/Cslab_Tests.thy ===== *)
theory Cslab_Tests
  imports Rcu_Props Test_Actions
begin

text \<open>
  The unit tests of \<open>src/cslab/src/lib.rs\<close>, statement by statement, on the definitions of the
  development, and that they pass: every assertion holds, nothing panics and no undefined
  behaviour occurs. The drops at the end of a test's scope are left out where the test does not
  observe them.
\<close>

section \<open>What tests are made of\<close>

text \<open>
  The layouts of \<open>Entry<OnDrop>\<close> and \<open>Entry<(i32, OnDrop)>\<close>. A test acts on the slab it creates.
\<close>

definition entry16 :: layout where
  "entry16 = \<lparr>lay_size = 16, lay_align = 8\<rparr>"

definition entry24 :: layout where
  "entry24 = \<lparr>lay_size = 24, lay_align = 8\<rparr>"

definition slab_insert :: "'a \<Rightarrow> ('a cslab, unit + usize) act" where
  "slab_insert v = lift_writer (\<lambda>s. cslab_insert s v)"

definition slab_mark_removed :: "usize \<Rightarrow> ('a cslab, unit) act" where
  "slab_mark_removed i = lift_writer (\<lambda>s. rbind (cslab_mark_removed s i) (\<lambda>s'. Inr (s', ())))"

definition slab_finalize_remove :: "usize \<Rightarrow> ('a cslab, 'a) act" where
  "slab_finalize_remove i = lift_writer (\<lambda>s. cslab_finalize_remove s i)"

definition collect :: "('i \<Rightarrow> ('i \<times> 'x option) res) \<Rightarrow> 'i \<Rightarrow> ('x list) res" where
  "collect nxt it = (case rloop (for_each_body nxt) (it, []) of None \<Rightarrow> Inl Undefined | Some r \<Rightarrow> r)"

definition iter_len :: "('a cslab \<Rightarrow> excl_iter res) \<Rightarrow> ('a cslab, usize) act" where
  "iter_len f = abind (look f) (\<lambda>it s. case excl_iter_size_hint it of (lo, hi) \<Rightarrow>
     (s, rbind (rassert Panic_assert (hi = Some lo)) (\<lambda>_. Inr lo)))"

definition gen_upgrade :: "nat \<Rightarrow> ('a rcu, nat option) act" where
  "gen_upgrade g s = (case gen_at s g of None \<Rightarrow> (s, Inr None) | Some _ \<Rightarrow> abind (arc_clone g) (\<lambda>_. aret (Some g)) s)"

definition next_gen_of :: "nat \<Rightarrow> ('a rcu, nat option) act" where
  "next_gen_of g s = (s, case gen_at s g of None \<Rightarrow> Inl Undefined
     | Some gn \<Rightarrow> if g_poisoned gn then Inl Panic_poisoned else Inr (g_next gn))"

function for_entries :: "('a rcu_entry \<Rightarrow> ('a rcu, 'r) act) \<Rightarrow> rcu_iter_mut \<Rightarrow> ('a rcu, rcu_iter_mut \<times> 'r list) act" where
  "for_entries f rim s =
     (case rim_next rim s of (s1, r) \<Rightarrow>
       (case r of
          Inl e \<Rightarrow> (s1, Inl e)
        | Inr (rim', None) \<Rightarrow> (s1, Inr (rim', []))
        | Inr (rim', Some en) \<Rightarrow>
            (case f en s1 of (s2, r2) \<Rightarrow>
              (case r2 of
                 Inl e \<Rightarrow> (s2, Inl e)
               | Inr y \<Rightarrow> (case for_entries f rim' s2 of (s3, r3) \<Rightarrow>
                   (s3, rbind r3 (\<lambda>(rim'', ys). Inr (rim'', y # ys))))))))"
  by pat_completeness auto
termination
proof (relation "measure (\<lambda>(f, rim, s). unat (it_tail (rim_iter rim)) - unat (it_head (rim_iter rim)))", goal_cases)
  case 1
  show ?case by simp
next
  case 2
  then show ?case by (auto intro: rim_next_progress [OF sym])
qed

declare for_entries.simps [simp del]

text \<open>Items that record their drop, as \<open>OnDrop\<close> does: dropping one twice is a panic.\<close>

fun drop_items :: "'a list \<Rightarrow> 'a list \<Rightarrow> ('a list) res" where
  "drop_items [] ds = Inr ds"
| "drop_items (v # vs) ds = rbind (rassert Panic_assert (v \<notin> set ds)) (\<lambda>_. drop_items vs (ds @ [v]))"

definition on_slab :: "('a cslab, 'r) act \<Rightarrow> ('a cslab \<times> 'a list, 'r) act" where
  "on_slab m = (\<lambda>(s, ds). case m s of (s', r) \<Rightarrow> ((s', ds), r))"

definition drop_value :: "'a \<Rightarrow> ('a cslab \<times> 'a list, unit) act" where
  "drop_value v = (\<lambda>(s, ds). case drop_items [v] ds of Inl e \<Rightarrow> ((s, ds), Inl e) | Inr ds' \<Rightarrow> ((s, ds'), Inr ()))"

definition drop_slab :: "layout \<Rightarrow> ('a cslab \<times> 'a list, unit) act" where
  "drop_slab ent = (\<lambda>(s, ds). case storage_drop ent (storage s) of
       Some (Inr vs) \<Rightarrow> (case drop_items vs ds of Inl e \<Rightarrow> ((s, ds), Inl e) | Inr ds' \<Rightarrow> ((s, ds'), Inr ()))
     | _ \<Rightarrow> ((s, ds), Inl Undefined))"

definition collect_iter ::
    "('a cslab_storage \<Rightarrow> excl_iter \<Rightarrow> (excl_iter \<times> (usize \<times> 'a) option) res) \<Rightarrow> ('a cslab, (usize \<times> 'a) list) act" where
  "collect_iter nxt = abind (look cslab_iter) (\<lambda>it. look (\<lambda>s. collect (nxt (storage s)) it))"

definition remove_next :: "rcu_iter_mut \<Rightarrow> ('a rcu, unit) act" where
  "remove_next rim = abind (rim_next rim) (\<lambda>(rim, x). abind (unwrap_some (aret x)) entry_remove)"

section \<open>The tests of \<open>Cslab\<close>\<close>

definition basic_test :: "unit res" where
  "basic_test = run_test (cslab_with_fixed_capacity entry8 4)
     (abind (assert_eq (look (\<lambda>s. Inr (cslab_capacity s))) 4) (\<lambda>_.
      abind (unwrap_ok (slab_insert (123 :: int))) (\<lambda>i.
      abind (unwrap_ok (slab_insert 456)) (\<lambda>j.
      abind (assert_eq (look (\<lambda>s. Inr (cslab_capacity s))) 4) (\<lambda>_.
      abind (assert_eq (look (\<lambda>s. Inr (cslab_len s))) 2) (\<lambda>_.
      abind (assert_eq (look (\<lambda>s. Inr (cslab_allocated s))) 2) (\<lambda>_.
      abind (assert_eq (look (\<lambda>s. cslab_get s i)) (Some 123)) (\<lambda>_.
      abind (assert_eq (look (\<lambda>s. cslab_get s j)) (Some 456)) (\<lambda>_.
      abind (assert_eq (look (\<lambda>s. rbind (uadd j 1) (cslab_get s))) None) (\<lambda>_.
      abind (assert_eq (look (\<lambda>s. cslab_get s (cslab_capacity s))) None) (\<lambda>_.
      assert_eq (look (\<lambda>s. cslab_get s 18446744073709551615)) None)))))))))))"

definition at_capacity_test :: "unit res" where
  "at_capacity_test = run_test (cslab_with_fixed_capacity entry8 4)
     (abind (assert_eq (look (\<lambda>s. Inr (cslab_capacity s))) 4) (\<lambda>_.
      abind (unwrap_ok (slab_insert (123 :: int))) (\<lambda>_.
      abind (unwrap_ok (slab_insert 456)) (\<lambda>_.
      abind (unwrap_ok (slab_insert 234)) (\<lambda>_.
      abind (unwrap_ok (slab_insert 567)) (\<lambda>_.
      abind (unwrap_err (slab_insert 345)) (\<lambda>_.
      abind (assert_eq (look (\<lambda>s. Inr (cslab_len s))) 4) (\<lambda>_.
      assert_eq (look (\<lambda>s. Inr (cslab_allocated s))) 4))))))))"

definition removal_test :: "unit res" where
  "removal_test = run_test (cslab_with_fixed_capacity entry8 4)
     (abind (unwrap_ok (slab_insert (123 :: int))) (\<lambda>i.
      abind (unwrap_ok (slab_insert 456)) (\<lambda>j.
      abind (slab_mark_removed i) (\<lambda>_.
      abind (assert_eq (look (\<lambda>s. cslab_get s i)) None) (\<lambda>_.
      abind (assert_eq (look (\<lambda>s. cslab_get s j)) (Some 456)) (\<lambda>_.
      abind (unwrap_ok (slab_insert 234)) (\<lambda>a.
      abind (assert_ne a i) (\<lambda>_.
      abind (unwrap_ok (slab_insert 567)) (\<lambda>b.
      abind (assert_ne b i) (\<lambda>_.
      abind (unwrap_err (slab_insert 345)) (\<lambda>_.
      abind (assert_eq (slab_finalize_remove i) 123) (\<lambda>_.
      abind (unwrap_ok (slab_insert 345)) (\<lambda>ii.
      abind (assert_eq (aret ii) i) (\<lambda>_.
      assert_eq (look (\<lambda>s. cslab_get s ii)) (Some 345)))))))))))))))"

definition removal_freelist_reuse_test :: "unit res" where
  "removal_freelist_reuse_test = run_test (cslab_with_fixed_capacity entry8 4)
     (abind (for_each [0 :: int, 1, 2, 3] (\<lambda>value. unwrap_ok (slab_insert value))) (\<lambda>_.
      abind (for_each [1, 3] (\<lambda>idx. abind (slab_mark_removed idx) (\<lambda>_. slab_finalize_remove idx))) (\<lambda>_.
      abind (assert_eq (unwrap_ok (slab_insert 30)) 3) (\<lambda>_.
      abind (assert_eq (unwrap_ok (slab_insert 10)) 1) (\<lambda>_.
      abind (unwrap_err (slab_insert 99)) (\<lambda>_.
      abind (collect_iter excl_iter_next) (\<lambda>items.
      assert_eq (aret (map snd items)) [0, 10, 2, 30])))))))"

definition reader_test :: "unit res" where
  "reader_test = run_test (cslab_with_fixed_capacity entry8 4)
     (abind (assert_eq (look (\<lambda>s. Inr (cslab_capacity s))) 4) (\<lambda>_.
      abind (unwrap_ok (slab_insert (123 :: int))) (\<lambda>i.
      abind (unwrap_ok (slab_insert 456)) (\<lambda>j.
      abind (assert_eq (look (\<lambda>s. reader_get (cslab_reader s) i)) (Some 123)) (\<lambda>_.
      abind (assert_eq (look (\<lambda>s. reader_get (cslab_reader s) j)) (Some 456)) (\<lambda>_.
      abind (assert_eq (look (\<lambda>s. reader_get (cslab_reader s) i)) (Some 123)) (\<lambda>_.
      assert_eq (look (\<lambda>s. reader_get (cslab_reader s) j)) (Some 456))))))))"

definition removal_drop_test :: "unit res" where
  "removal_drop_test = run_test (rbind (cslab_with_fixed_capacity entry16 4) (\<lambda>s. Inr (s, [])))
     (abind (on_slab (unwrap_ok (slab_insert (0 :: nat)))) (\<lambda>i.
      abind (on_slab (slab_mark_removed i)) (\<lambda>_.
      abind (assert_eq (look (\<lambda>(s, ds). Inr (0 \<in> set ds))) False) (\<lambda>_.
      abind (on_slab (slab_finalize_remove i)) (\<lambda>item.
      abind (assert_eq (look (\<lambda>(s, ds). Inr (0 \<in> set ds))) False) (\<lambda>_.
      abind (drop_value item) (\<lambda>_.
      abind (assert_eq (look (\<lambda>(s, ds). Inr (0 \<in> set ds))) True) (\<lambda>_.
      drop_slab entry16))))))))"

definition container_drop_test :: "unit res" where
  "container_drop_test = run_test (rbind (cslab_with_fixed_capacity entry16 4) (\<lambda>s. Inr (s, [])))
     (abind (on_slab (unwrap_ok (slab_insert (0 :: nat)))) (\<lambda>i.
      abind (on_slab (unwrap_ok (slab_insert 1))) (\<lambda>_.
      abind (on_slab (slab_mark_removed i)) (\<lambda>_.
      abind (on_slab (slab_finalize_remove i)) (\<lambda>item.
      abind (drop_value item) (\<lambda>_.
      abind (assert_eq (look (\<lambda>(s, ds). Inr (0 \<in> set ds))) True) (\<lambda>_.
      abind (drop_slab entry16) (\<lambda>_.
      assert_eq (look (\<lambda>(s, ds). Inr (1 \<in> set ds))) True))))))))"

definition iter_test :: "unit res" where
  "iter_test = run_test (cslab_with_fixed_capacity entry8 4)
     (abind (assert_eq (iter_len cslab_iter) 0) (\<lambda>_.
      abind (assert_eq (collect_iter excl_iter_next) []) (\<lambda>_.
      abind (unwrap_ok (slab_insert (123 :: int))) (\<lambda>i.
      abind (unwrap_ok (slab_insert 456)) (\<lambda>j.
      abind (unwrap_ok (slab_insert 789)) (\<lambda>k.
      abind (assert_eq (iter_len cslab_iter) 3) (\<lambda>_.
      abind (assert_eq (collect_iter excl_iter_next) [(i, 123), (j, 456), (k, 789)]) (\<lambda>_.
      abind (assert_eq (collect_iter excl_iter_next_back) [(k, 789), (j, 456), (i, 123)]) (\<lambda>_.
      abind (slab_mark_removed j) (\<lambda>_.
      abind (assert_eq (iter_len cslab_iter) 2) (\<lambda>_.
      abind (assert_eq (collect_iter excl_iter_next) [(i, 123), (k, 789)]) (\<lambda>_.
      assert_eq (collect_iter excl_iter_next_back) [(k, 789), (i, 123)]))))))))))))"

definition iter_bidi_test :: "unit res" where
  "iter_bidi_test = run_test (cslab_with_fixed_capacity entry8 4)
     (abind (unwrap_ok (slab_insert (123 :: int))) (\<lambda>i.
      abind (unwrap_ok (slab_insert 456)) (\<lambda>j.
      abind (unwrap_ok (slab_insert 789)) (\<lambda>k.
      abind (look cslab_iter) (\<lambda>it.
      abind (look (\<lambda>s. excl_iter_next (storage s) it)) (\<lambda>(it, x).
      abind (assert_eq (aret x) (Some (i, 123))) (\<lambda>_.
      abind (look (\<lambda>s. excl_iter_next_back (storage s) it)) (\<lambda>(it, x).
      abind (assert_eq (aret x) (Some (k, 789))) (\<lambda>_.
      abind (look (\<lambda>s. excl_iter_next (storage s) it)) (\<lambda>(it, x).
      abind (assert_eq (aret x) (Some (j, 456))) (\<lambda>_.
      abind (look (\<lambda>s. excl_iter_next (storage s) it)) (\<lambda>(it, x).
      abind (assert_eq (aret x) None) (\<lambda>_.
      abind (look (\<lambda>s. excl_iter_next_back (storage s) it)) (\<lambda>(it, x).
      abind (assert_eq (aret x) None) (\<lambda>_.
      abind (look (\<lambda>s. excl_iter_next (storage s) it)) (\<lambda>(it, x).
      abind (assert_eq (aret x) None) (\<lambda>_.
      abind (look (\<lambda>s. excl_iter_next_back (storage s) it)) (\<lambda>(it, x).
      assert_eq (aret x) None))))))))))))))))))"

section \<open>The tests of \<open>RcuCslab\<close>\<close>

definition rcu_iter_mut_retained_proxies_test :: "unit res" where
  "rcu_iter_mut_retained_proxies_test = run_test (rcu_with_fixed_capacity entry24 3)
     (abind (for_each [0 :: int, 1, 2] (\<lambda>value. unwrap_ok (rcu_insert value))) (\<lambda>_.
      abind (look (\<lambda>s. Inr (rc_cur s))) (\<lambda>g.
      abind rcu_iter_mut_new (\<lambda>rim.
      abind (rim_next rim) (\<lambda>(rim, x).
      abind (unwrap_some (aret x)) (\<lambda>en1.
      abind (rim_next rim) (\<lambda>(rim, x).
      abind (unwrap_some (aret x)) (\<lambda>en2.
      abind rim_drop (\<lambda>_.
      abind (unwrap_some (gen_upgrade g)) (\<lambda>g1.
      abind (unwrap_some (next_gen_of g1)) (\<lambda>n.
      abind (assert_eq (next_gen_of n) None) (\<lambda>_.
      abind (arc_drop g1) (\<lambda>_.
      abind (assert_eq (aret (entry_deref en1)) 0) (\<lambda>_.
      abind (entry_remove en1) (\<lambda>_.
      abind (assert_eq (look (\<lambda>s. Inr (length (rc_dropped s)))) 0) (\<lambda>_.
      abind (assert_eq (aret (entry_deref en2)) 1) (\<lambda>_.
      abind (entry_remove en2) (\<lambda>_.
      abind (assert_eq (gen_upgrade g) None) (\<lambda>_.
      abind (assert_eq (look (\<lambda>s. Inr (length (rc_dropped s)))) 2) (\<lambda>_.
      abind (assert_eq rcu_len 1) (\<lambda>_.
      abind (assert_eq rcu_allocated 1) (\<lambda>_.
      abind (assert_eq (look (\<lambda>s. rcu_get s 2)) (Some 2)) (\<lambda>_.
      abind (rcu_drop entry24) (\<lambda>_.
      assert_eq (look (\<lambda>s. Inr (length (rc_dropped s)))) 3))))))))))))))))))))))))"

definition rcu_iter_mut_early_exit_test :: "unit res" where
  "rcu_iter_mut_early_exit_test = run_test (rcu_with_fixed_capacity entry8 4)
     (abind (for_each [0 :: int, 1, 2, 3] (\<lambda>value. unwrap_ok (rcu_insert value))) (\<lambda>_.
      abind (abind rcu_iter_mut_new (\<lambda>rim. after (remove_next rim) rim_drop)) (\<lambda>_.
      abind (assert_eq rcu_len 3) (\<lambda>_.
      abind (assert_eq rcu_allocated 3) (\<lambda>_.
      abind (assert_eq (look (\<lambda>s. rcu_get s 0)) None) (\<lambda>_.
      abind (assert_eq (look (\<lambda>s. rcu_get s 1)) (Some 1)) (\<lambda>_.
      abind (catch_unwind (abind rcu_iter_mut_new (\<lambda>rim.
        after (abind (remove_next rim) (\<lambda>_ s. (s, Inl Panic_assert :: unit res))) rim_drop))) (\<lambda>result.
      abind (assert_ne result (Inr ())) (\<lambda>_.
      abind (assert_eq rcu_len 2) (\<lambda>_.
      abind (assert_eq rcu_allocated 2) (\<lambda>_.
      assert_eq (look (\<lambda>s. rcu_get s 1)) None)))))))))))"

definition rcu_iter_mut_no_removal_test :: "unit res" where
  "rcu_iter_mut_no_removal_test = run_test (rcu_with_fixed_capacity entry8 2)
     (abind rcu_reader (\<lambda>r.
      abind rcu_iter_mut_new (\<lambda>rim.
      abind (assert_eq (look (\<lambda>_. Inr (fst (rim_size_hint rim)))) 0) (\<lambda>_.
      abind (rim_next rim) (\<lambda>(rim, x).
      abind (assert_none x) (\<lambda>_.
      abind (rim_next_back rim) (\<lambda>(rim, x).
      abind (assert_none x) (\<lambda>_.
      abind rim_drop (\<lambda>_.
      abind (unwrap_some (next_gen_of r)) (\<lambda>n.
      abind (arc_clone n) (\<lambda>_.
      abind (assert_eq (look (\<lambda>s. Inr (rc_cur s))) n) (\<lambda>_.
      abind (unwrap_ok (rcu_insert (123 :: int))) (\<lambda>_.
      abind (unwrap_ok (rcu_insert 456)) (\<lambda>_.
      abind (abind rcu_iter_mut_new (\<lambda>rim.
        after (for_entries (\<lambda>en. after (aret (entry_deref en)) (entry_drop en)) rim) rim_drop)) (\<lambda>(rim, vs).
      abind (assert_eq (aret vs) [123, 456]) (\<lambda>_.
      abind (assert_eq rcu_len 2) (\<lambda>_.
      assert_eq rcu_allocated 2)))))))))))))))))"

definition rcu_clear_empty_with_pending_removals_test :: "unit res" where
  "rcu_clear_empty_with_pending_removals_test = run_test (rcu_with_fixed_capacity entry8 1)
     (abind (unwrap_ok (rcu_insert (123 :: int))) (\<lambda>idx.
      abind (rcu_mark_removed idx) (\<lambda>_.
      abind (assert_eq rcu_len 0) (\<lambda>_.
      abind (assert_eq rcu_allocated 1) (\<lambda>_.
      abind rcu_clear (\<lambda>r.
      abind (assert_eq (look (\<lambda>s. rcu_reader_get s r idx)) None) (\<lambda>_.
      abind (assert_eq rcu_allocated 0) (\<lambda>_.
      abind rcu_clear (\<lambda>r2.
      abind (rcu_reader_drop entry8 r2) (\<lambda>_.
      abind (assert_eq rcu_len 0) (\<lambda>_.
      abind (assert_eq rcu_allocated 0) (\<lambda>_.
      assert_eq (unwrap_ok (rcu_insert 456)) idx))))))))))))"

section \<open>Running them\<close>

text \<open>
  Equations that unfold a loop only once its next pass is known, so that the simplifier can run a
  test from its first statement on.
\<close>

lemma iter_next_loop_eval:
  assumes "load_flags st (it_head it) = Inr w" and "usub (it_tail it) (it_head it) = Inr rem"
    and "bme = drop_bit (unat (it_head it mod 64)) w" and "d = next_distance bme (it_head it)"
  shows "iter_next_loop st it =
    (if d \<ge> rem then Inr (it\<lparr>it_head := it_tail it\<rparr>, None)
     else rbind (uadd (it_head it) d) (\<lambda>h.
       if bme \<noteq> 0 then rbind (uadd h 1) (\<lambda>h1. rbind (get_unchecked_impl st h) (\<lambda>v. Inr (it\<lparr>it_head := h1\<rparr>, Some (h, v))))
       else iter_next_loop st (it\<lparr>it_head := h\<rparr>)))"
  using assms by (subst iter_next_loop.simps) (simp add: Let_def)

lemma iter_next_back_loop_eval:
  assumes "usub (it_tail it) 1 = Inr t1" and "load_flags st t1 = Inr w" and "usub (it_tail it) (it_head it) = Inr rem"
    and "bme = push_bit (64 - (unat (t1 mod 64) + 1)) w" and "d = back_distance bme t1"
  shows "iter_next_back_loop st it =
    (if d \<ge> rem then Inr (it\<lparr>it_tail := it_head it\<rparr>, None)
     else rbind (usub (it_tail it) d) (\<lambda>t.
       if bme \<noteq> 0 then rbind (usub t 1) (\<lambda>t2. rbind (get_unchecked_impl st t2) (\<lambda>v. Inr (it\<lparr>it_tail := t2\<rparr>, Some (t2, v))))
       else iter_next_back_loop st (it\<lparr>it_tail := t\<rparr>)))"
  using assms by (subst iter_next_back_loop.simps) (simp add: Let_def)

lemma rloop_eval:
  "body s = Inr (Break r) \<Longrightarrow> rloop body s = Some (Inr r)"
  "body s = Inr (Continue s') \<Longrightarrow> rloop body s = rloop body s'"
  by (subst rloop.simps, simp)+

lemma arc_drop_eval:
  "gen_at s g = Some gn \<Longrightarrow> g_strong gn > 1 \<Longrightarrow> arc_drop g s = (set_gen g (Some (gn\<lparr>g_strong := g_strong gn - 1\<rparr>)) s, Inr ())"
  "gen_at s g = Some gn \<Longrightarrow> \<not> g_strong gn > 1 \<Longrightarrow> gen_drop gn s = (s1, r) \<Longrightarrow> g_next gn = None \<Longrightarrow> arc_drop g s = (set_gen g None s1, r)"
  "gen_at s g = Some gn \<Longrightarrow> \<not> g_strong gn > 1 \<Longrightarrow> gen_drop gn s = (s1, r) \<Longrightarrow> g_next gn = Some n \<Longrightarrow>
     arc_drop n (set_gen g None s1) = (s2, r') \<Longrightarrow> arc_drop g s = (s2, unwind r r')"
  by (subst arc_drop.simps, simp)+

lemma clear_loop_eval:
  "rim_next rim s = (s1, Inr (rim', None)) \<Longrightarrow> clear_loop rim s = (s1, Inr ())"
  "rim_next rim s = (s1, Inr (rim', Some en)) \<Longrightarrow> entry_remove en s1 = (s2, Inr u) \<Longrightarrow> clear_loop rim s = clear_loop rim' s2"
  by (subst clear_loop.simps, simp)+

declare for_each.simps [simp del]

lemma for_each_eval:
  "for_each [] body s = (s, Inr [])"
  "body x s = (s1, Inr r) \<Longrightarrow> for_each (x # xs) body s = (case for_each xs body s1 of (s2, q) \<Rightarrow> (s2, rbind q (\<lambda>rs. Inr (r # rs))))"
  by (simp_all add: for_each.simps abind_def aret_def split: prod.splits sum.splits)

lemma for_entries_eval:
  "rim_next rim s = (s1, Inr (rim', None)) \<Longrightarrow> for_entries f rim s = (s1, Inr (rim', []))"
  "rim_next rim s = (s1, Inr (rim', Some en)) \<Longrightarrow> f en s1 = (s2, Inr y) \<Longrightarrow>
     for_entries f rim s = (case for_entries f rim' s2 of (s3, r3) \<Rightarrow> (s3, rbind r3 (\<lambda>(rim'', ys). Inr (rim'', y # ys))))"
  by (subst for_entries.simps, simp)+


lemma replicate_eval: "replicate (numeral k) x = x # replicate (pred_numeral k) x"
  by (simp add: numeral_eq_Suc)

lemmas test_eval = run_test_def slab_insert_def slab_mark_removed_def slab_finalize_remove_def unwrap_ok_def unwrap_err_def
  unwrap_some_def assert_eq_def assert_ne_def assert_none_def look_def lift_writer_def abind_def aret_def after_def for_each_eval catch_unwind_def
  collect_def collect_iter_def remove_next_def iter_len_def on_slab_def drop_value_def drop_slab_def gen_upgrade_def
    next_gen_of_def rloop_eval for_each_body_def for_entries_eval entry16_def entry_key_def rcu_iter_def
    rcu_reader_get_unchecked_def reader_get_unchecked_def
  rcu_schedule_finalization_def rcu_reader_iter_def reader_iter_def rcu_reader_contains_key_def reader_contains_key_def
    rcu_vacant_key_def cslab_vacant_key_def

lemmas slab_eval = cslab_with_fixed_capacity_def storage_with_fixed_capacity_def storage_layout_def
  table_layout_def bitmap_layout_def bitmap_words_def layout_array_def layout_extend_def unwrap_def
  uadd_def usub_def sadd_def ssub_def entry8_def entry24_def max_size_for_align_def isize_max_def round_up_def Let_def
  cslab_insert_def in_isize_def raise_frontier_def replicate_eval
  entry_next_free_def load_flags_def store_flags_def flag_of_def set_flag_def clear_flag_def index_def
  cslab_get_def get_impl_def contains_key_impl_def get_unchecked_impl_def entry_item_def cslab_capacity_def
    cslab_len_def cslab_allocated_def storage_len_def
  cslab_mark_removed_def cslab_finalize_remove_def word_le_nat_alt word_less_nat_alt reader_get_def cslab_reader_def
  storage_drop_def

lemmas iter_eval = cslab_iter_def excl_iter_new_def iter_new_def excl_iter_next_def excl_iter_next_back_def excl_iter_size_hint_def
  iter_next_def iter_next_back_def iter_next_loop_eval iter_next_back_loop_eval next_distance_def back_distance_def
  trailing_zeros_def leading_zeros_def upt_rec

lemmas rcu_eval = rcu_with_fixed_capacity_def rcu_insert_def with_writer_def with_inner_def gen_at_def set_gen_def new_gen_def
  rcu_len_def rcu_allocated_def rcu_get_def rcu_reader_get_def rcu_reader_def arc_clone_def arc_drop_eval gen_drop_def finalize_list.simps
  rcu_mark_removed_def gen_mark_removed_def advance_generation_def link_next_def rcu_iter_mut_new_def rim_next_def rim_next_back_def
  rim_wrap_def rim_size_hint_def rim_drop_def entry_deref_def entry_drop_def entry_remove_def clear_loop_eval rcu_clear_def
  rcu_drop_def rcu_reader_drop_def writer_release_def

lemma basic_test_passes: "basic_test = Inr ()"
  by (simp add: basic_test_def test_eval slab_eval)

lemma at_capacity_test_passes: "at_capacity_test = Inr ()"
  by (simp add: at_capacity_test_def test_eval slab_eval)

lemma removal_test_passes: "removal_test = Inr ()"
  by (simp add: removal_test_def test_eval slab_eval)

lemma removal_freelist_reuse_test_passes: "removal_freelist_reuse_test = Inr ()"
  by (simp add: removal_freelist_reuse_test_def test_eval slab_eval iter_eval)

lemma reader_test_passes: "reader_test = Inr ()"
  by (simp add: reader_test_def test_eval slab_eval)

lemma removal_drop_test_passes: "removal_drop_test = Inr ()"
  by (simp add: removal_drop_test_def test_eval slab_eval iter_eval)

lemma container_drop_test_passes: "container_drop_test = Inr ()"
  by (simp add: container_drop_test_def test_eval slab_eval iter_eval)

lemma iter_test_passes: "iter_test = Inr ()"
  by (simp add: iter_test_def test_eval slab_eval iter_eval)

lemma iter_bidi_test_passes: "iter_bidi_test = Inr ()"
  by (simp add: iter_bidi_test_def test_eval slab_eval iter_eval)

lemma rcu_iter_mut_retained_proxies_test_passes: "rcu_iter_mut_retained_proxies_test = Inr ()"
  by (simp add: rcu_iter_mut_retained_proxies_test_def test_eval slab_eval iter_eval rcu_eval)

lemma rcu_iter_mut_early_exit_test_passes: "rcu_iter_mut_early_exit_test = Inr ()"
  by (simp add: rcu_iter_mut_early_exit_test_def test_eval slab_eval iter_eval rcu_eval)

lemma rcu_iter_mut_no_removal_test_passes: "rcu_iter_mut_no_removal_test = Inr ()"
  by (simp add: rcu_iter_mut_no_removal_test_def test_eval slab_eval iter_eval rcu_eval)

lemma rcu_clear_empty_with_pending_removals_test_passes: "rcu_clear_empty_with_pending_removals_test = Inr ()"
  by (simp add: rcu_clear_empty_with_pending_removals_test_def test_eval slab_eval iter_eval rcu_eval)

text \<open>
  The repository's unit tests of the slab pass on the model: capacity and length, insertion up to the
  capacity, two-phase removal and reuse of freed slots, readers, the drops of removed and of remaining
  items, iteration from both ends; and for \<open>RcuCslab\<close> the removing iterator with retained proxies, with
  an early exit and a panic, without removals, and \<open>clear\<close> with pending removals.
\<close>

theorem slab_unit_tests_pass:
  "basic_test = Inr () \<and>
    at_capacity_test = Inr () \<and>
    removal_test = Inr () \<and>
    removal_freelist_reuse_test = Inr () \<and>
    reader_test = Inr () \<and>
    removal_drop_test = Inr () \<and>
    container_drop_test = Inr () \<and>
    iter_test = Inr () \<and>
    iter_bidi_test = Inr () \<and>
    rcu_iter_mut_retained_proxies_test = Inr () \<and>
    rcu_iter_mut_early_exit_test = Inr () \<and>
    rcu_iter_mut_no_removal_test = Inr () \<and>
    rcu_clear_empty_with_pending_removals_test = Inr ()"
  by (simp add: basic_test_passes at_capacity_test_passes removal_test_passes removal_freelist_reuse_test_passes
    reader_test_passes removal_drop_test_passes container_drop_test_passes iter_test_passes iter_bidi_test_passes
    rcu_iter_mut_retained_proxies_test_passes rcu_iter_mut_early_exit_test_passes rcu_iter_mut_no_removal_test_passes
    rcu_clear_empty_with_pending_removals_test_passes)

end
