(* ===== verification/Rcu_Many.thy ===== *)
theory Rcu_Many
  imports Rcu_Account Cslab_Tests
begin

text \<open>
  The tests of \<open>RcuCslab\<close> with many items. They are not run statement by statement but through what the
  development shows of every program: what the steps of a program return, that a reader's items stay, that
  nothing stays pending when no older reader is left, and the account of the items.
\<close>

section \<open>Counts\<close>

lemma occupants_size:
  assumes "cslab_wf s"
  shows "size (occupants s) = unat (allocated s)"
proof -
  let ?tb = "st_table (storage s)"
  have "length (concat (map entry_items tb)) = card {i. i < length tb \<and> entry_items (tb ! i) \<noteq> []}" for tb :: "'a entry list"
  proof -
    have "length (entry_items e) = (if entry_items e \<noteq> [] then 1 else 0)" for e :: "'a entry" by (cases e) simp_all
    then have "length (concat (map entry_items tb)) = length (filter (\<lambda>e. entry_items e \<noteq> []) tb)"
      by (induction tb) simp_all
    then show ?thesis by (simp add: length_filter_conv_card)
  qed
  moreover have "i < length ?tb \<and> entry_items (?tb ! i) \<noteq> [] \<longleftrightarrow> slot_at (storage s) i \<noteq> None" for i
    by (cases "?tb ! i") (auto simp: slot_at_def)
  ultimately show ?thesis by (simp add: occupants_def allocated_occupied [OF assms])
qed

text \<open>A program in which \<open>k\<close> items were inserted so far, and whose slab has the capacity \<open>n\<close>.\<close>

definition counts :: "layout \<Rightarrow> usize \<Rightarrow> nat \<Rightarrow> 'a world \<Rightarrow> bool" where
  "counts ent n k w \<longleftrightarrow> world_inv ent w \<and> size (world_total w) = k \<and>
     rc_capacity (w_rcu w) = n \<and> st_size (rcu_storage (w_rcu w)) = n"

lemma countsD:
  assumes "counts ent n k w"
  shows "world_inv ent w" "cslab_wf (rc_writer (w_rcu w))" "\<not> rc_poisoned (w_rcu w)"
    "\<not> finished w \<Longrightarrow> length (rc_dropped (w_rcu w)) + unat (allocated (rc_writer (w_rcu w))) = k"
    "finished w \<Longrightarrow> length (rc_dropped (w_rcu w)) = k"
    "rc_capacity (w_rcu w) = n" "st_size (rcu_storage (w_rcu w)) = n"
proof -
  show inv: "world_inv ent w" using assms by (simp add: counts_def)
  then show wf: "cslab_wf (rc_writer (w_rcu w))" and "\<not> rc_poisoned (w_rcu w)"
    by (auto simp: world_inv_def rcu_inv_def)
  show "\<not> finished w \<Longrightarrow> length (rc_dropped (w_rcu w)) + unat (allocated (rc_writer (w_rcu w))) = k"
    "finished w \<Longrightarrow> length (rc_dropped (w_rcu w)) = k"
    using assms occupants_size [OF wf] by (simp_all add: counts_def world_total_def)
  show "rc_capacity (w_rcu w) = n" "st_size (rcu_storage (w_rcu w)) = n" using assms by (simp_all add: counts_def)
qed

lemma counts_balanced:
  assumes "counts ent n k w" and "balanced m" and "m (w_rcu w) = (s, Inr x)" and "rc_owner (w_rcu w)"
    and "world_inv ent w'" and "w_rcu w' = s"
  shows "counts ent n k w'"
  using assms balancedD [OF assms(2,3)] balanced_total [OF assms(2,3), of w'] by (auto simp: counts_def fixed_def)

lemma release_fixed:
  assumes "after (arc_drop g) (writer_release ent) s = (s', Inr u)"
  shows "fixed s' = fixed s"
proof -
  obtain s1 where "arc_drop g s = (s1, Inr ())" and "writer_release ent s1 = (s', Inr ())"
    using assms by (auto simp: after_def unwind_Inr_iff split: prod.splits)
  then show ?thesis using release_log [of ent s1] balancedD [OF arc_drop_balanced, of g s s1] by (auto simp: fixed_def)
qed

lemma counts_reader_drop:
  assumes "counts ent n k w" and "g \<in> set (w_readers w)" and "rcu_reader_drop ent g (w_rcu w) = (s, Inr u)"
    and "world_inv ent w'" and "w_rcu w' = s"
  shows "counts ent n k w'"
proof -
  have run: "after (arc_drop g) (writer_release ent) (w_rcu w) = (w_rcu w', Inr u)"
    using assms(3,5) by (simp add: rcu_reader_drop_def)
  have "\<not> finished w" using assms(2) by (auto simp: finished_def)
  then show ?thesis
    using assms(1,4) released_total [OF assms(4) run] release_fixed [OF run] by (auto simp: counts_def unfinished_total fixed_def)
qed

lemma counts_drop:
  assumes "counts ent n k w" and "slab_free w" and "rcu_drop ent (w_rcu w) = (s, Inr u)"
    and "world_inv ent w'" and "w_rcu w' = s"
  shows "counts ent n k w'"
proof -
  have run: "after (arc_drop (rc_cur (w_rcu w))) (writer_release ent) (w_rcu w\<lparr>rc_owner := False\<rparr>) = (w_rcu w', Inr u)"
    using assms(3,5) by (simp add: rcu_drop_def)
  have "account (w_rcu w\<lparr>rc_owner := False\<rparr>) = world_total w"
    using assms(2) unfinished_total [of w] by (simp add: account_def finished_def slab_free_def)
  then show ?thesis
    using assms(1,4) released_total [OF assms(4) run] release_fixed [OF run] by (auto simp: counts_def fixed_def)
qed

lemma clear_balanced: "balanced (rcu_clear :: ('a rcu, nat) act)"
proof -
  have loop: "balanced (clear_loop rim :: ('a rcu, unit) act)" for rim
  proof -
    have "account s' = account s \<and> fixed s' = fixed s" if "clear_loop rim s = (s', Inr x)" for s s' :: "'a rcu" and x
      using that
    proof (induction rim s rule: clear_loop.induct)
      case (1 rim s)
      obtain s1 rim' y where next_call: "rim_next rim s = (s1, Inr (rim', y))"
        using "1.prems" by (auto simp: clear_loop.simps [of rim s] split: prod.splits sum.splits)
      note same = balancedD [OF rcu_balanced(5) next_call]
      show ?case
      proof (cases y)
        case None
        then show ?thesis using "1.prems" next_call same by (simp add: clear_loop.simps [of rim s])
      next
        case (Some en)
        then obtain s2 u where rem: "entry_remove en s1 = (s2, Inr u)" and rest: "clear_loop rim' s2 = (s', Inr x)"
          using "1.prems" next_call by (auto simp: clear_loop.simps [of rim s] split: prod.splits sum.splits)
        then show ?thesis
          using "1.IH" [OF next_call [symmetric] refl refl] Some same balancedD [OF rcu_balanced(8) rem] by auto
      qed
    qed
    then show ?thesis by (simp add: balanced_def)
  qed
  show ?thesis
    unfolding rcu_clear_def by (intro balanced_bind balanced_after rcu_balanced loop rcu_reader_balanced)
qed

section \<open>Insertions\<close>

lemma insert_room:
  assumes cnt: "counts ent n k w" and free: "slab_free w" and room: "unat (allocated (rc_writer (w_rcu w))) < unat n"
  shows "\<exists>s i. rcu_insert v (w_rcu w) = (s, Inr (Inr i)) \<and> counts ent n (Suc k) (w\<lparr>w_rcu := s\<rparr>) \<and> slab_free (w\<lparr>w_rcu := s\<rparr>) \<and>
    rc_cur s = rc_cur (w_rcu w) \<and> rc_dropped s = rc_dropped (w_rcu w) \<and>
    unat (allocated (rc_writer s)) = Suc (unat (allocated (rc_writer (w_rcu w)))) \<and>
    unat (in_use (rc_writer s)) = Suc (unat (in_use (rc_writer (w_rcu w))))"
proof -
  let ?x = "rc_writer (w_rcu w)"
  note wf = countsD(2) [OF cnt] and size = countsD(7) [OF cnt]
  have "unat (first_free ?x) < unat (st_size (storage ?x))" using first_free_cases(1) [OF wf] room size by simp
  then obtain ff where ins: "cslab_insert ?x v = Inr (\<lparr>first_free = ff, in_use = in_use ?x + 1, allocated = allocated ?x + 1,
      storage = fill_slot (storage ?x) (first_free ?x) v\<rparr>, Inr (first_free ?x))" (is "_ = Inr (?y, _)")
    by (rule cslab_insert_ok [OF wf, of v])
  let ?s = "w_rcu w\<lparr>rc_writer := ?y\<rparr>"
  have run: "rcu_insert v (w_rcu w) = (?s, Inr (Inr (first_free ?x)))"
    using ins countsD(3) [OF cnt] by (simp add: rcu_insert_def with_writer_def lift_writer_def)
  have inv: "world_inv ent (w\<lparr>w_rcu := ?s\<rparr>)" using step_insert_ok [OF countsD(1) [OF cnt] free, of v] run by auto
  have free': "slab_free (w\<lparr>w_rcu := ?s\<rparr>)" using free by (simp add: slab_free_def)
  have "insert_step w v (w\<lparr>w_rcu := ?s\<rparr>)" using free run by (auto simp: insert_step_def)
  then have "counts ent n (Suc k) (w\<lparr>w_rcu := ?s\<rparr>)"
    using cnt inv by (simp add: counts_def insert_step_total fill_slot_def)
  moreover have "unat (allocated ?x) < 2 ^ 60" using room size storage_wf_dests(1) [OF cslab_wf_storage [OF wf]] by simp
  then have "unat (allocated ?x + 1) = Suc (unat (allocated ?x))" "unat (in_use ?x + 1) = Suc (unat (in_use ?x))"
    using in_use_bound [OF wf] by (simp_all add: usize_succ)
  ultimately show ?thesis using run free' by auto
qed

lemma fill_room:
  assumes "counts ent n k w" and "slab_free w" and "unat (allocated (rc_writer (w_rcu w))) + length vs \<le> unat n"
  shows "\<exists>s is. for_each vs (\<lambda>v. unwrap_ok (rcu_insert (f v))) (w_rcu w) = (s, Inr is) \<and> counts ent n (k + length vs) (w\<lparr>w_rcu := s\<rparr>) \<and>
    slab_free (w\<lparr>w_rcu := s\<rparr>) \<and> rc_cur s = rc_cur (w_rcu w) \<and> rc_dropped s = rc_dropped (w_rcu w) \<and>
    unat (allocated (rc_writer s)) = unat (allocated (rc_writer (w_rcu w))) + length vs \<and>
    unat (in_use (rc_writer s)) = unat (in_use (rc_writer (w_rcu w))) + length vs"
  using assms
proof (induction vs arbitrary: k w)
  case Nil
  then show ?case by (cases w) (simp add: for_each_eval)
next
  case (Cons v vs)
  obtain s1 i where s1: "rcu_insert (f v) (w_rcu w) = (s1, Inr (Inr i))" "counts ent n (Suc k) (w\<lparr>w_rcu := s1\<rparr>)"
    "slab_free (w\<lparr>w_rcu := s1\<rparr>)" "rc_cur s1 = rc_cur (w_rcu w)" "rc_dropped s1 = rc_dropped (w_rcu w)"
    "unat (allocated (rc_writer s1)) = Suc (unat (allocated (rc_writer (w_rcu w))))"
    "unat (in_use (rc_writer s1)) = Suc (unat (in_use (rc_writer (w_rcu w))))"
    using insert_room [OF Cons.prems(1,2), of "f v"] Cons.prems(3) by auto
  have "unwrap_ok (rcu_insert (f v)) (w_rcu w) = (s1, Inr i)" using s1(1) by (simp add: unwrap_ok_def)
  note step = for_each_eval(2) [where body = "\<lambda>v. unwrap_ok (rcu_insert (f v))", OF this]
  from Cons.IH [OF s1(2,3)] s1(6) Cons.prems(3) obtain s "is" where
    "for_each vs (\<lambda>v. unwrap_ok (rcu_insert (f v))) s1 = (s, Inr is)" "counts ent n (Suc k + length vs) (w\<lparr>w_rcu := s\<rparr>)"
    "slab_free (w\<lparr>w_rcu := s\<rparr>)" "rc_cur s = rc_cur s1" "rc_dropped s = rc_dropped s1"
    "unat (allocated (rc_writer s)) = unat (allocated (rc_writer s1)) + length vs"
    "unat (in_use (rc_writer s)) = unat (in_use (rc_writer s1)) + length vs"
    by auto
  with step s1 show ?case by simp
qed

section \<open>Full and empty slabs\<close>

lemma full_visible:
  assumes "cslab_wf s" and "in_use s = st_size (storage s)" and "i < st_size (storage s)"
  shows "\<exists>v. cslab_visible s i = Some v"
proof -
  let ?st = "storage s" and ?n = "unat (st_size (storage s))"
  note wf = cslab_wf_storage [OF assms(1)]
  have sub: "{i. flag_at (st_bitmap ?st) i} \<subseteq> {..<?n}" using storage_wf_dests(7) [OF wf] by blast
  have "card {i. flag_at (st_bitmap ?st) i} = ?n" by (rule cslab_wfE [OF assms(1)]) (simp flip: assms(2))
  then have "{i. flag_at (st_bitmap ?st) i} = {..<?n}" using card_subset_eq [OF _ sub] by simp
  then have "flag_at (st_bitmap ?st) (unat i)" using assms(3) by (auto simp: word_less_nat_alt)
  then show ?thesis using storage_wf_dests(6) [OF wf] by (auto simp: cslab_visible_def visible_at_def)
qed

lemma full_allocated:
  assumes "cslab_wf s" and "\<And>i. i < st_size (storage s) \<Longrightarrow> cslab_slot s i \<noteq> None"
  shows "allocated s = st_size (storage s)"
proof -
  let ?n = "unat (st_size (storage s))"
  note wf = storage_wf_dests [OF cslab_wf_storage [OF assms(1)]]
  have "{i. slot_at (storage s) i \<noteq> None} = {..<?n}"
  proof (intro set_eqI iffI)
    fix i assume "i \<in> {..<?n}"
    then have i: "unat (word_of_nat i :: usize) = i" using wf(1) by (simp add: unat_of_nat take_bit_nat_eq_self)
    then have "word_of_nat i < st_size (storage s)" using \<open>i \<in> {..<?n}\<close> by (simp add: word_less_nat_alt)
    from assms(2) [OF this] show "i \<in> {i. slot_at (storage s) i \<noteq> None}" by (simp add: cslab_slot_def i)
  qed (use wf(2) in \<open>auto simp: slot_at_def split: if_splits\<close>)
  then show ?thesis using allocated_occupied [OF assms(1)] by (simp add: word_unat_eq_iff)
qed

text \<open>When every handle is of the current generation, which has nothing pending, and nothing is visible, no slot is occupied.\<close>

lemma drained:
  assumes "world_inv ent w" and "rc_owner (w_rcu w)" and "set (world_handles w) \<subseteq> {rc_cur (w_rcu w)}"
    and "pending_of (w_rcu w) (rc_cur (w_rcu w)) = []" and "rvisible (w_rcu w) = Map.empty"
  shows "allocated (rc_writer (w_rcu w)) = 0"
proof -
  have wf: "cslab_wf (rc_writer (w_rcu w))" using assms(1) by (auto simp: world_inv_def rcu_inv_def)
  have all: "\<forall>r \<in> set (world_handles w). r = rc_cur (w_rcu w)" using assms(3) by auto
  have "rslot (w_rcu w) j = None" for j
    using nothing_pending [OF assms(1) all assms(4) _ assms(2), of j] assms(5) by (cases "rslot (w_rcu w) j") auto
  then show ?thesis using slot_count [OF wf] by (simp add: word_unat_eq_iff)
qed

lemma reader_drop_frame:
  assumes inv: "world_inv ent w" and g: "g \<in> set (w_readers w)" and owner: "rc_owner (w_rcu w)"
  shows "\<exists>s. rcu_reader_drop ent g (w_rcu w) = (s, Inr ()) \<and>
    world_inv ent (w\<lparr>w_rcu := s, w_readers := remove1 g (w_readers w)\<rparr>) \<and>
    keeps w (w\<lparr>w_rcu := s, w_readers := remove1 g (w_readers w)\<rparr>) \<and>
    rc_owner s \<and> rc_cur s = rc_cur (w_rcu w) \<and> rvisible s = rvisible (w_rcu w) \<and>
    pending_of s (rc_cur s) = pending_of (w_rcu w) (rc_cur (w_rcu w))"
proof -
  obtain lo where rcu: "rcu_inv (w_rcu w) (world_refs w) lo" using inv by (auto simp: world_inv_def)
  have h: "g \<in> set (world_handles w)" using g by (simp add: world_handles_def)
  obtain s1 hi where s1: "arc_drop g (w_rcu w) = (s1, Inr ())"
    "rcu_inv s1 ((world_refs w)(g := world_refs w g - 1)) hi" "freed (w_rcu w) s1 lo hi"
    using arc_drop_ok [OF rcu ext_handle [OF h]] by blast
  obtain s where s: "rcu_reader_drop ent g (w_rcu w) = (s, Inr ())"
    "world_inv ent (w\<lparr>w_rcu := s, w_readers := remove1 g (w_readers w)\<rparr>)"
    "keeps w (w\<lparr>w_rcu := s, w_readers := remove1 g (w_readers w)\<rparr>)"
    using step_reader_drop_ok [OF inv g] by blast
  then have "writer_release ent s1 = (s, Inr ())"
    using s1(1) by (auto simp: rcu_reader_drop_def after_def unwind_Inr_iff split: prod.splits)
  then obtain d where d: "s = s1\<lparr>rc_dropped := d\<rparr>" using release_log by blast
  have "0 < count_list (world_handles w) g" using h count_list_0_iff [of "world_handles w" g] by simp
  then have "0 < ((world_refs w)(g := world_refs w g - 1)) (rc_cur (w_rcu w))"
    using owner by (auto simp: world_refs_def)
  then have "hi \<le> rc_cur (w_rcu w)" using gens_wfD(4) [OF rcu_invD(3) [OF s1(2)]] by blast
  then show ?thesis using s s1(3) owner by (auto simp: d freed_def finalized_def)
qed

section \<open>Clearing under readers\<close>

text \<open>The number of items dropped so far, as the tests count it, and the result of the first \<open>next\<close> of a reader's iterator.\<close>

definition dropped_count :: "('a rcu, nat) act" where
  "dropped_count = look (\<lambda>s. Inr (length (rc_dropped s)))"

definition reader_first :: "nat \<Rightarrow> ('a rcu, (usize \<times> 'a) option) act" where
  "reader_first g = look (\<lambda>s. rbind (rcu_reader_iter s g) (\<lambda>it. rbind (iter_next (rcu_storage s) it) (\<lambda>(it, x). Inr x)))"

definition rcu_clear_test :: "unit res" where
  "rcu_clear_test = run_test (rcu_with_fixed_capacity entry16 130)
     (abind (for_each [0..<130 :: nat] (\<lambda>_. unwrap_ok (rcu_insert ()))) (\<lambda>_.
      abind rcu_reader (\<lambda>oldest_reader.
      abind (rcu_mark_removed 1) (\<lambda>_.
      abind rcu_schedule_finalization (\<lambda>middle_reader.
      abind (rcu_mark_removed 64) (\<lambda>_.
      abind rcu_clear (\<lambda>new_reader.
      abind (assert_eq rcu_len 0) (\<lambda>_.
      abind (assert_eq rcu_allocated 130) (\<lambda>_.
      abind (assert_eq (look (\<lambda>s. Inr (rc_capacity s))) 130) (\<lambda>_.
      abind (assert_eq dropped_count 0) (\<lambda>_.
      abind (abind (reader_first new_reader) assert_none) (\<lambda>_.
      abind (for_each (map word_of_nat [0..<130]) (\<lambda>idx. assert_eq (look (\<lambda>s. rcu_reader_contains_key s new_reader idx)) False)) (\<lambda>_.
      abind (unwrap_err rcu_vacant_key) (\<lambda>_.
      abind (unwrap_some (next_gen_of middle_reader)) (\<lambda>next_gen.
      abind (assert_eq (aret next_gen) new_reader) (\<lambda>_.
      abind (assert_eq (next_gen_of next_gen) None) (\<lambda>_.
      abind (rcu_reader_drop entry16 middle_reader) (\<lambda>_.
      abind (assert_eq dropped_count 0) (\<lambda>_.
      abind (rcu_reader_drop entry16 oldest_reader) (\<lambda>_.
      abind (assert_eq dropped_count 130) (\<lambda>_.
      abind (assert_eq rcu_allocated 0) (\<lambda>_.
      abind (rcu_reader_drop entry16 new_reader) (\<lambda>_.
      abind (for_each [0..<130 :: nat] (\<lambda>_. unwrap_ok (rcu_insert ()))) (\<lambda>_.
      abind (abind rcu_clear (rcu_reader_drop entry16)) (\<lambda>_.
      abind (assert_eq dropped_count 260) (\<lambda>_.
      abind (assert_eq rcu_allocated 0) (\<lambda>_.
      abind (rcu_drop entry16) (\<lambda>_.
      assert_eq dropped_count 260))))))))))))))))))))))))))))"

text \<open>The first half: a full slab, a reader, removals in two generations, \<open>clear\<close>. Every item stays for the oldest reader.\<close>

lemma mark_cur: "rcu_mark_removed i s = (s', r) \<Longrightarrow> rc_cur s' = rc_cur s"
  by (auto simp: rcu_mark_removed_def gen_mark_removed_def abind_def with_writer_def with_inner_def set_gen_def
      split: prod.splits sum.splits option.splits if_splits)

lemma clear_counts:
  assumes cnt: "counts ent n k w" and free: "slab_free w"
  shows "\<exists>s g. rcu_clear (w_rcu w) = (s, Inr g) \<and> g = rc_cur s \<and> g = Suc (rc_cur (w_rcu w)) \<and> rvisible s = Map.empty \<and>
    pending_of s g = [] \<and> counts ent n k (w\<lparr>w_rcu := s, w_readers := g # w_readers w\<rparr>) \<and>
    slab_free (w\<lparr>w_rcu := s, w_readers := g # w_readers w\<rparr>) \<and>
    (\<forall>r \<in> set (w_readers w). \<forall>i v. protected (w_rcu w) r i v \<longrightarrow> protected s r i v)"
proof -
  note inv = countsD(1) [OF cnt]
  have owner: "rc_owner (w_rcu w)" using free by (simp add: slab_free_def)
  obtain s g where s: "rcu_clear (w_rcu w) = (s, Inr g)" "g = rc_cur s" "g = Suc (rc_cur (w_rcu w))"
    "rtranclp (calm_step ent) w (w\<lparr>w_rcu := s, w_readers := g # w_readers w\<rparr>)" (is "rtranclp _ _ ?w") "rvisible s = Map.empty"
    "pending_of s g = []"
    using clear_ok [OF inv free] by blast
  have inv': "world_inv ent ?w" by (rule world_steps_inv [OF calm_world [OF s(4)] inv])
  have "counts ent n k ?w" by (rule counts_balanced [OF cnt clear_balanced s(1) owner inv']) simp
  moreover have "slab_free ?w"
    using free balancedD [OF clear_balanced s(1)] by (simp add: slab_free_def fixed_def)
  moreover have "protected s r i v" if "r \<in> set (w_readers w)" "protected (w_rcu w) r i v" for r i v
    using run_holding_protects [OF calm_holding [OF s(4) that(1), THEN conjunct2] inv that(2)] by simp
  ultimately show ?thesis using s by blast
qed

lemma clear_first_half:
  assumes cnt: "counts ent n k w" and free: "slab_free w" and rd: "w_readers w = []"
    and full: "in_use (rc_writer (w_rcu w)) = n" and n: "1 < n" "64 < n"
  shows "\<exists>s2 g s3 s4 m s5 s6. rcu_reader (w_rcu w) = (s2, Inr g) \<and> rcu_mark_removed 1 s2 = (s3, Inr ()) \<and>
    rcu_schedule_finalization s3 = (s4, Inr m) \<and> rcu_mark_removed 64 s4 = (s5, Inr ()) \<and> rcu_clear s5 = (s6, Inr (Suc m)) \<and>
    counts ent n k (w\<lparr>w_rcu := s6, w_readers := [Suc m, m, g]\<rparr>) \<and> slab_free (w\<lparr>w_rcu := s6, w_readers := [Suc m, m, g]\<rparr>) \<and>
    rc_cur s6 = Suc m \<and> g \<le> m \<and> rvisible s6 = Map.empty \<and> pending_of s6 (Suc m) = [] \<and>
    (\<forall>i < n. \<exists>v. protected s6 g i v)"
proof -
  note inv = countsD(1) [OF cnt]
  have borrow: "w_iter w = None" "w_entries w = []" and own: "rc_owner (w_rcu w)" using free by (simp_all add: slab_free_def)
  have vis: "\<exists>v. rvisible (w_rcu w) i = Some v" if "i < n" for i
    using full_visible [OF countsD(2) [OF cnt]] countsD(7) [OF cnt] full that by simp
  obtain s2 g where s2: "rcu_reader (w_rcu w) = (s2, Inr g)" "rc_cur s2 = g" "rc_writer s2 = rc_writer (w_rcu w)"
    "world_inv ent (w\<lparr>w_rcu := s2, w_readers := [g]\<rparr>)" (is "world_inv ent ?w2")
    using step_reader_ok [OF inv free] rd by auto
  have free2: "slab_free ?w2" using rcu_reader_frame(2) [OF s2(1)] own borrow by (simp add: slab_free_def)
  have cnt2: "counts ent n k ?w2" by (rule counts_balanced [OF cnt rcu_reader_balanced s2(1) own s2(4)]) simp
  have prot2: "\<exists>v. protected s2 g i v" if "i < n" for i
    using vis [OF that] s2(3) cslab.visible_slot [OF countsD(2) [OF cnt]] by (auto simp: protected_def)
  obtain v where "rvisible s2 1 = Some v" using vis [OF n(1)] s2(3) by auto
  then obtain s3 where s3: "rcu_mark_removed 1 s2 = (s3, Inr ())" "rc_owner s3" "rvisible s3 = (rvisible s2)(1 := None)"
    "world_inv ent (?w2\<lparr>w_rcu := s3\<rparr>)" (is "world_inv ent ?w3") "keeps ?w2 (?w2\<lparr>w_rcu := s3\<rparr>)"
    using step_mark_ok [OF s2(4) free2, of 1] by auto
  have free3: "slab_free ?w3" using s3(2) borrow by (simp add: slab_free_def)
  have cnt3: "counts ent n k ?w3"
    by (rule counts_balanced [OF cnt2 rcu_balanced(1) [of 1] _ _ s3(4)]) (use s3(1) free2 in \<open>auto simp: slab_free_def\<close>)
  obtain s4 m where s4: "rcu_schedule_finalization s3 = (s4, Inr m)" "m = rc_cur s4" "rc_owner s4" "rvisible s4 = rvisible s3"
    "world_inv ent (?w3\<lparr>w_rcu := s4, w_readers := [m, g]\<rparr>)" (is "world_inv ent ?w4") "keeps ?w3 (?w3\<lparr>w_rcu := s4, w_readers := [m, g]\<rparr>)"
    using step_schedule_ok [OF s3(4) free3] by auto
  have free4: "slab_free ?w4" using s4(3) borrow by (simp add: slab_free_def)
  have cnt4: "counts ent n k ?w4"
    by (rule counts_balanced [OF cnt3 rcu_balanced(2) _ _ s4(5)]) (use s4(1) s3(2) in auto)
  obtain v where "rvisible s4 64 = Some v" using vis [OF n(2)] s2(3) s3(3) s4(4) by auto
  then obtain s5 where s5: "rcu_mark_removed 64 s4 = (s5, Inr ())" "rc_owner s5"
    "world_inv ent (?w4\<lparr>w_rcu := s5\<rparr>)" (is "world_inv ent ?w5") "keeps ?w4 (?w4\<lparr>w_rcu := s5\<rparr>)"
    using step_mark_ok [OF s4(5) free4, of 64] by auto
  have free5: "slab_free ?w5" using s5(2) borrow by (simp add: slab_free_def)
  have cnt5: "counts ent n k ?w5"
    by (rule counts_balanced [OF cnt4 rcu_balanced(1) [of 64] _ _ s5(3)]) (use s5(1) s4(3) in auto)
  have cur5: "rc_cur s5 = m" using mark_cur [OF s5(1)] s4(2) by simp
  have keep: "protected s2 g i v \<Longrightarrow> protected s3 g i v" "protected s3 g i v \<Longrightarrow> protected s4 g i v"
    "protected s4 g i v \<Longrightarrow> protected s5 g i v" for i v
    using s3(5) s4(6) s5(4) unfolding keeps_def by (simp_all add: world_handles_def)
  have prot5: "\<exists>v. protected s5 g i v" if "i < n" for i using prot2 [OF that] keep by blast
  obtain s6 where s6: "rcu_clear s5 = (s6, Inr (Suc m))" "rc_cur s6 = Suc m" "rvisible s6 = Map.empty" "pending_of s6 (Suc m) = []"
    "counts ent n k (?w5\<lparr>w_rcu := s6, w_readers := [Suc m, m, g]\<rparr>)" "slab_free (?w5\<lparr>w_rcu := s6, w_readers := [Suc m, m, g]\<rparr>)"
    and keep6: "\<And>i v. protected s5 g i v \<Longrightarrow> protected s6 g i v"
    using clear_counts [OF cnt5 free5] cur5 by auto
  have "g \<le> m" using handles_upto_cur [OF s4(5), of g] s4(2,3) by (simp add: world_handles_def)
  moreover have "\<forall>i < n. \<exists>v. protected s6 g i v" using prot5 keep6 by blast
  ultimately show ?thesis
    using s2(1) s3(1) s4(1) s5(1) s6
    by (rule_tac exI [of _ s2], rule_tac exI [of _ g], rule_tac exI [of _ s3], rule_tac exI [of _ s4]) auto
qed

text \<open>The second half: with the oldest reader everything goes.\<close>

lemma protected_full:
  assumes "counts ent n k w" and "\<forall>i < n. \<exists>v. protected (w_rcu w) g i v"
  shows "allocated (rc_writer (w_rcu w)) = n"
  using full_allocated [OF countsD(2) [OF assms(1)]] assms(2) countsD(7) [OF assms(1)] by (auto simp: protected_def)

lemma drop_counts:
  assumes cnt: "counts ent n k w" and free: "slab_free w" and g: "g \<in> set (w_readers w)"
  shows "\<exists>s. rcu_reader_drop ent g (w_rcu w) = (s, Inr ()) \<and>
    counts ent n k (w\<lparr>w_rcu := s, w_readers := remove1 g (w_readers w)\<rparr>) \<and>
    slab_free (w\<lparr>w_rcu := s, w_readers := remove1 g (w_readers w)\<rparr>) \<and>
    rc_cur s = rc_cur (w_rcu w) \<and> rvisible s = rvisible (w_rcu w) \<and>
    pending_of s (rc_cur s) = pending_of (w_rcu w) (rc_cur (w_rcu w)) \<and>
    (\<forall>r \<in> set (remove1 g (w_readers w)). \<forall>i v. protected (w_rcu w) r i v \<longrightarrow> protected s r i v)"
proof -
  have owner: "rc_owner (w_rcu w)" using free by (simp add: slab_free_def)
  obtain s where s: "rcu_reader_drop ent g (w_rcu w) = (s, Inr ())" "rc_owner s"
    "world_inv ent (w\<lparr>w_rcu := s, w_readers := remove1 g (w_readers w)\<rparr>)" (is "world_inv ent ?w")
    "keeps w (w\<lparr>w_rcu := s, w_readers := remove1 g (w_readers w)\<rparr>)"
    "rc_cur s = rc_cur (w_rcu w)" "rvisible s = rvisible (w_rcu w)"
    "pending_of s (rc_cur s) = pending_of (w_rcu w) (rc_cur (w_rcu w))"
    using reader_drop_frame [OF countsD(1) [OF cnt] g owner] by blast
  have "counts ent n k ?w" by (rule counts_reader_drop [OF cnt g s(1,3)]) simp
  moreover have "slab_free ?w" using free s(2) by (simp add: slab_free_def)
  moreover have "protected s r i v" if "r \<in> set (remove1 g (w_readers w))" "protected (w_rcu w) r i v" for r i v
    using s(4) that set_remove1_subset [of g "w_readers w"] by (auto simp: keeps_def world_handles_def)
  ultimately show ?thesis using s by blast
qed

lemma clear_second_half:
  assumes cnt: "counts ent n k w" and free: "slab_free w" and rd: "w_readers w = [c, m, g]"
    and cur: "rc_cur (w_rcu w) = c" and old: "g < c" "m < c"
    and vis: "rvisible (w_rcu w) = Map.empty" and pend: "pending_of (w_rcu w) c = []"
    and prot: "\<forall>i < n. \<exists>v. protected (w_rcu w) g i v"
  shows "\<exists>s7 s8 s9. rcu_reader_drop ent m (w_rcu w) = (s7, Inr ()) \<and> rcu_reader_drop ent g s7 = (s8, Inr ()) \<and>
    rcu_reader_drop ent c s8 = (s9, Inr ()) \<and>
    counts ent n k (w\<lparr>w_rcu := s7, w_readers := [c, g]\<rparr>) \<and> allocated (rc_writer s7) = n \<and>
    counts ent n k (w\<lparr>w_rcu := s8, w_readers := [c]\<rparr>) \<and> allocated (rc_writer s8) = 0 \<and>
    counts ent n k (w\<lparr>w_rcu := s9, w_readers := []\<rparr>) \<and> allocated (rc_writer s9) = 0 \<and>
    slab_free (w\<lparr>w_rcu := s9, w_readers := []\<rparr>) \<and> rvisible s9 = Map.empty"
proof -
  obtain s7 where s7: "rcu_reader_drop ent m (w_rcu w) = (s7, Inr ())" "counts ent n k (w\<lparr>w_rcu := s7, w_readers := [c, g]\<rparr>)"
    "slab_free (w\<lparr>w_rcu := s7, w_readers := [c, g]\<rparr>)" (is "slab_free ?w7") "rc_cur s7 = c" "rvisible s7 = Map.empty" "pending_of s7 c = []"
    and keep: "\<And>i v. protected (w_rcu w) g i v \<Longrightarrow> protected s7 g i v"
    using drop_counts [OF cnt free, of m] rd old cur vis pend by auto
  have full: "allocated (rc_writer s7) = n" using protected_full [OF s7(2), of g] prot keep by fastforce
  obtain s8 where s8: "rcu_reader_drop ent g s7 = (s8, Inr ())" "counts ent n k (w\<lparr>w_rcu := s8, w_readers := [c]\<rparr>)"
    "slab_free (w\<lparr>w_rcu := s8, w_readers := [c]\<rparr>)" (is "slab_free ?w8") "rc_cur s8 = c" "rvisible s8 = Map.empty" "pending_of s8 c = []"
    using drop_counts [OF s7(2,3), of g] s7 old by auto
  have e8: "allocated (rc_writer s8) = 0"
    using drained [OF countsD(1) [OF s8(2)]] s8 free by (simp add: slab_free_def world_handles_def)
  obtain s9 where s9: "rcu_reader_drop ent c s8 = (s9, Inr ())" "counts ent n k (w\<lparr>w_rcu := s9, w_readers := []\<rparr>)"
    "slab_free (w\<lparr>w_rcu := s9, w_readers := []\<rparr>)" "rc_cur s9 = c" "rvisible s9 = Map.empty" "pending_of s9 c = []"
    using drop_counts [OF s8(2,3), of c] s8 by auto
  have "allocated (rc_writer s9) = 0"
    using drained [OF countsD(1) [OF s9(2)]] s9 free by (simp add: slab_free_def world_handles_def)
  then show ?thesis using s7 full s8 e8 s9 by blast
qed

lemma clear_and_drop:
  assumes cnt: "counts ent n k w" and free: "slab_free w" and rd: "w_readers w = []"
  shows "\<exists>s g s'. rcu_clear (w_rcu w) = (s, Inr g) \<and> rcu_reader_drop ent g s = (s', Inr ()) \<and>
    counts ent n k (w\<lparr>w_rcu := s', w_readers := []\<rparr>) \<and> slab_free (w\<lparr>w_rcu := s', w_readers := []\<rparr>) \<and> allocated (rc_writer s') = 0"
proof -
  obtain s g where s: "rcu_clear (w_rcu w) = (s, Inr g)" "g = rc_cur s" "rvisible s = Map.empty" "pending_of s g = []"
    "counts ent n k (w\<lparr>w_rcu := s, w_readers := [g]\<rparr>)" "slab_free (w\<lparr>w_rcu := s, w_readers := [g]\<rparr>)"
    using clear_counts [OF cnt free] rd by auto
  obtain s' where s': "rcu_reader_drop ent g s = (s', Inr ())" "counts ent n k (w\<lparr>w_rcu := s', w_readers := []\<rparr>)"
    "slab_free (w\<lparr>w_rcu := s', w_readers := []\<rparr>)" "rc_cur s' = rc_cur s" "rvisible s' = Map.empty" "pending_of s' (rc_cur s') = []"
    using drop_counts [OF s(5,6), of g] s by auto
  have "allocated (rc_writer s') = 0"
    using drained [OF countsD(1) [OF s'(2)]] s' free by (simp add: slab_free_def world_handles_def)
  then show ?thesis using s(1) s' by blast
qed

section \<open>What the assertions look at\<close>

lemma assert_eq_ok: "m s = (s', Inr v) \<Longrightarrow> assert_eq m v s = (s', Inr ())"
  by (simp add: assert_eq_def)

lemma for_each_quiet:
  assumes "\<And>x. x \<in> set xs \<Longrightarrow> body x s = (s, Inr ())"
  shows "for_each xs body s = (s, Inr (map (\<lambda>_. ()) xs))"
  using assms by (induction xs) (simp_all add: for_each_eval)

lemma writer_look: "\<not> rc_poisoned s \<Longrightarrow> with_writer (\<lambda>w. (w, Inr (f w))) s = (s, Inr (f (rc_writer s)))"
  by (simp add: with_writer_def)

lemma empty_looks:
  assumes "counts ent n k w" and "rvisible (w_rcu w) = Map.empty"
  shows "rcu_len (w_rcu w) = (w_rcu w, Inr 0)" and "reader_first g (w_rcu w) = (w_rcu w, Inr None)"
    and "rcu_reader_contains_key (w_rcu w) g idx = Inr False"
proof -
  let ?st = "rcu_storage (w_rcu w)"
  note wf = countsD(2) [OF assms(1)]
  have "in_use (rc_writer (w_rcu w)) = 0" using visible_count [OF wf] assms(2) by (simp add: word_unat_eq_iff)
  then show "rcu_len (w_rcu w) = (w_rcu w, Inr 0)"
    using writer_look [OF countsD(3) [OF assms(1)], of cslab_len] by (simp add: rcu_len_def cslab_len_def)
  note st = cslab_wf_storage [OF wf]
  have "(i, v) \<notin> set (visible_items ?st)" for i v
    using assms(2) by (simp add: visible_items_exact(1) [OF st] cslab_visible_def fun_eq_iff)
  then have "visible_items ?st = []" by (metis list.set_intros(1) neq_Nil_conv surj_pair)
  then obtain it where "iter_new ?st = Inr it" "iter_ok ?st it" "iter_items ?st it = []"
    using iter_new_ok [OF st] by auto
  then show "reader_first g (w_rcu w) = (w_rcu w, Inr None)"
    using iter_next_ok [of ?st it] by (auto simp: reader_first_def look_def rcu_reader_iter_def reader_iter_def)
  have "rvisible (w_rcu w) idx = None" using assms(2) by simp
  then have "\<not> flag_at (st_bitmap ?st) (unat idx)"
    using storage_wf_dests(6) [OF st, of "unat idx"] by (auto simp: cslab_visible_def visible_at_def)
  then show "rcu_reader_contains_key (w_rcu w) g idx = Inr False"
    using contains_key_impl_eq [OF st] by (simp add: rcu_reader_contains_key_def reader_contains_key_def)
qed

lemma allocated_looks:
  assumes "counts ent n k w"
  shows "rcu_allocated (w_rcu w) = (w_rcu w, Inr (allocated (rc_writer (w_rcu w))))"
    and "allocated (rc_writer (w_rcu w)) = n \<Longrightarrow> unwrap_err rcu_vacant_key (w_rcu w) = (w_rcu w, Inr ())"
proof -
  note up = countsD(3) [OF assms]
  show "rcu_allocated (w_rcu w) = (w_rcu w, Inr (allocated (rc_writer (w_rcu w))))"
    using writer_look [OF up, of cslab_allocated] by (simp add: rcu_allocated_def cslab_allocated_def)
  assume "allocated (rc_writer (w_rcu w)) = n"
  then have "cslab_vacant_key (rc_writer (w_rcu w)) = Inl ()"
    using cslab_vacant_key_eq [OF countsD(2) [OF assms]] first_free_cases(1) [OF countsD(2) [OF assms]] countsD(7) [OF assms] by simp
  then show "unwrap_err rcu_vacant_key (w_rcu w) = (w_rcu w, Inr ())"
    using writer_look [OF up, of cslab_vacant_key] by (simp add: unwrap_err_def rcu_vacant_key_def)
qed

lemma generation_looks:
  assumes "world_inv ent w" and "rc_owner (w_rcu w)" and "g \<in> set (world_handles w)"
  shows "next_gen_of g (w_rcu w) = (w_rcu w, Inr (if g = rc_cur (w_rcu w) then None else Some (Suc g)))"
proof -
  obtain lo where rcu: "rcu_inv (w_rcu w) (world_refs w) lo" and cur: "Suc (rc_cur (w_rcu w)) = ngens (w_rcu w)"
    using assms(1,2) by (auto simp: world_inv_def)
  note gens = gens_wfD [OF rcu_invD(3) [OF rcu]]
  have g: "lo \<le> g" "g < ngens (w_rcu w)" using gens(4,5) ext_handle [OF assms(3)] by blast+
  then have "Suc g < ngens (w_rcu w) \<longleftrightarrow> g \<noteq> rc_cur (w_rcu w)" using cur by auto
  then show ?thesis using gens(2) [OF g] cur by (auto simp: next_gen_of_def)
qed

lemma dropped_look: "dropped_count s = (s, Inr (length (rc_dropped s)))"
  by (simp add: dropped_count_def look_def)

section \<open>The test passes\<close>

lemma new_130: "\<exists>s :: 'a rcu. rcu_with_fixed_capacity entry16 130 = Inr s"
  by (simp add: rcu_with_fixed_capacity_def cslab_with_fixed_capacity_def storage_with_fixed_capacity_def storage_layout_def
      table_layout_def bitmap_layout_def bitmap_words_def layout_array_def layout_extend_def unwrap_def uadd_def usub_def
      max_size_for_align_def isize_max_def round_up_def entry16_def Let_def rassert_def)

lemma entry16_ok: "entry_layout_ok entry16"
  by (simp add: entry_layout_ok_def entry16_def)

lemma new_counts:
  assumes "entry_layout_ok ent" and "rcu_with_fixed_capacity ent n = Inr s"
  shows "counts ent n 0 (world_start s)" and "slab_free (world_start s)"
    and "allocated (rc_writer s) = 0" and "in_use (rc_writer s) = 0" and "rc_dropped s = []"
proof -
  obtain x where new: "cslab_with_fixed_capacity ent n = Inr x"
    and s: "rc_writer s = x" "rc_dropped s = []" "rc_owner s" "rc_capacity s = n"
    using assms(2) by (auto simp: rcu_with_fixed_capacity_def res_simps)
  have x: "allocated x = 0" "in_use x = 0" "st_size (storage x) = n"
    using new by (auto simp: cslab_with_fixed_capacity_def storage_with_fixed_capacity_def res_simps)
  have inv: "world_inv ent (world_start s)" by (rule world_start_ok [OF assms])
  have "cslab_wf x" using inv s(1) by (auto simp: world_inv_def rcu_inv_def world_start_def)
  then have "size (world_total (world_start s)) = 0"
    using occupants_size [of x] x s by (simp add: world_total_def world_start_def)
  with inv show "counts ent n 0 (world_start s)" using s x by (simp add: counts_def world_start_def)
  show "slab_free (world_start s)" using s by (simp add: slab_free_def world_start_def)
  show "allocated (rc_writer s) = 0" "in_use (rc_writer s) = 0" "rc_dropped s = []" using s x by simp_all
qed

lemma unfinished_owner: "slab_free w \<Longrightarrow> \<not> finished w" and unfinished_reader: "w_readers w \<noteq> [] \<Longrightarrow> \<not> finished w"
  by (simp_all add: slab_free_def finished_def)

lemma end_of_test:
  assumes "counts ent n k w" and "slab_free w" and "w_readers w = []"
  shows "\<exists>s. rcu_drop ent (w_rcu w) = (s, Inr ()) \<and> length (rc_dropped s) = k"
proof -
  obtain s where s: "rcu_drop ent (w_rcu w) = (s, Inr ())" "world_inv ent (w\<lparr>w_rcu := s\<rparr>)"
    using step_drop_ok [OF countsD(1) [OF assms(1)] assms(2)] by blast
  have "counts ent n k (w\<lparr>w_rcu := s\<rparr>)" by (rule counts_drop [OF assms(1,2) s(1,2)]) simp
  moreover have "finished (w\<lparr>w_rcu := s\<rparr>)"
    using s(1) released_owner [of "rc_cur (w_rcu w)" ent "w_rcu w\<lparr>rc_owner := False\<rparr>" s] assms(3)
    by (simp add: rcu_drop_def finished_def)
  ultimately show ?thesis using s(1) countsD(5) by fastforce
qed

theorem rcu_clear_test_passes: "rcu_clear_test = Inr ()"
proof -
  obtain s0 :: "unit rcu" where new: "rcu_with_fixed_capacity entry16 130 = Inr s0" using new_130 by blast
  note start = new_counts [OF entry16_ok new]
  let ?w = "world_start s0"
  have w: "w_rcu ?w = s0" "w_readers ?w = []" by (simp_all add: world_start_def)
  have len: "length [0..<130 :: nat] = 130" by simp
  obtain s1 is1 where s1: "for_each [0..<130 :: nat] (\<lambda>_. unwrap_ok (rcu_insert ())) s0 = (s1, Inr is1)"
    "counts entry16 130 130 (?w\<lparr>w_rcu := s1\<rparr>)" "slab_free (?w\<lparr>w_rcu := s1\<rparr>)" "unat (in_use (rc_writer s1)) = 130"
    using fill_room [OF start(1,2), of "[0..<130 :: nat]" "\<lambda>_. ()"] start(3,4) w len by (auto simp del: upt_rec_numeral)
  have "in_use (rc_writer s1) = 130" using s1(4) by (simp add: word_unat_eq_iff)
  then obtain s2 g s3 s4 m s5 s6 where first: "rcu_reader s1 = (s2, Inr g)" "rcu_mark_removed 1 s2 = (s3, Inr ())"
    "rcu_schedule_finalization s3 = (s4, Inr m)" "rcu_mark_removed 64 s4 = (s5, Inr ())" "rcu_clear s5 = (s6, Inr (Suc m))"
    and s6: "counts entry16 130 130 (?w\<lparr>w_rcu := s6, w_readers := [Suc m, m, g]\<rparr>)" "slab_free (?w\<lparr>w_rcu := s6, w_readers := [Suc m, m, g]\<rparr>)"
    "rc_cur s6 = Suc m" "g \<le> m" "rvisible s6 = Map.empty" "pending_of s6 (Suc m) = []" "\<forall>i < 130. \<exists>v. protected s6 g i v"
    using clear_first_half [OF s1(2,3)] w by auto
  let ?w6 = "?w\<lparr>w_rcu := s6, w_readers := [Suc m, m, g]\<rparr>"
  have a6: "allocated (rc_writer s6) = 130" using protected_full [OF s6(1), of g] s6(7) by simp
  note looks6 = empty_looks [OF s6(1), simplified, OF s6(5)] allocated_looks [OF s6(1), simplified, unfolded a6, simplified]
  have d6: "length (rc_dropped s6) = 0" using countsD(4) [OF s6(1) unfinished_owner [OF s6(2)]] a6 by simp
  have own6: "rc_owner s6" using s6(2) by (simp add: slab_free_def)
  have gens6: "next_gen_of m s6 = (s6, Inr (Some (Suc m)))" "next_gen_of (Suc m) s6 = (s6, Inr None)"
    using generation_looks [OF countsD(1) [OF s6(1)], simplified, OF own6] s6(3) by (simp_all add: world_handles_def)
  obtain s7 s8 s9 where drops: "rcu_reader_drop entry16 m s6 = (s7, Inr ())" "rcu_reader_drop entry16 g s7 = (s8, Inr ())"
    "rcu_reader_drop entry16 (Suc m) s8 = (s9, Inr ())"
    and s7: "counts entry16 130 130 (?w\<lparr>w_rcu := s7, w_readers := [Suc m, g]\<rparr>)" "allocated (rc_writer s7) = 130"
    and s8: "counts entry16 130 130 (?w\<lparr>w_rcu := s8, w_readers := [Suc m]\<rparr>)" "allocated (rc_writer s8) = 0"
    and s9: "counts entry16 130 130 (?w\<lparr>w_rcu := s9, w_readers := []\<rparr>)" "allocated (rc_writer s9) = 0"
    "slab_free (?w\<lparr>w_rcu := s9, w_readers := []\<rparr>)"
    using clear_second_half [OF s6(1,2)] s6(3-7) by auto
  have d7: "length (rc_dropped s7) = 0" "length (rc_dropped s8) = 130"
    using countsD(4) [OF s7(1) unfinished_reader] countsD(4) [OF s8(1) unfinished_reader] s7(2) s8(2) by simp_all
  have order: "?w\<lparr>w_readers := [], w_rcu := s\<rparr> = ?w\<lparr>w_rcu := s, w_readers := []\<rparr>" for s by (simp add: world_start_def)
  obtain t1 is2 where t1: "for_each [0..<130 :: nat] (\<lambda>_. unwrap_ok (rcu_insert ())) s9 = (t1, Inr is2)"
    "counts entry16 130 260 (?w\<lparr>w_rcu := t1, w_readers := []\<rparr>)" "slab_free (?w\<lparr>w_rcu := t1, w_readers := []\<rparr>)"
    using fill_room [OF s9(1,3), of "[0..<130 :: nat]" "\<lambda>_. ()"] s9(2) len by (auto simp: order simp del: upt_rec_numeral)
  obtain t2 g2 t3 where t: "rcu_clear t1 = (t2, Inr g2)" "rcu_reader_drop entry16 g2 t2 = (t3, Inr ())"
    and t3: "counts entry16 130 260 (?w\<lparr>w_rcu := t3, w_readers := []\<rparr>)" "slab_free (?w\<lparr>w_rcu := t3, w_readers := []\<rparr>)" "allocated (rc_writer t3) = 0"
    using clear_and_drop [OF t1(2,3)] by auto
  have d3: "length (rc_dropped t3) = 260" using countsD(4) [OF t3(1) unfinished_owner [OF t3(2)]] t3(3) by simp
  obtain t4 where t4: "rcu_drop entry16 t3 = (t4, Inr ())" "length (rc_dropped t4) = 260"
    using end_of_test [OF t3(1,2)] by auto
  have looks8: "rcu_allocated s8 = (s8, Inr 0)" "rcu_allocated t3 = (t3, Inr 0)" "rc_capacity s6 = 130"
    using allocated_looks(1) [OF s8(1)] allocated_looks(1) [OF t3(1)] s8(2) t3(3) countsD(6) [OF s6(1)] by simp_all
  have all6: "for_each (map word_of_nat [0..<130]) (\<lambda>idx. assert_eq (look (\<lambda>s. rcu_reader_contains_key s (Suc m) idx)) False) s6 =
      (s6, Inr (map (\<lambda>_. ()) (map word_of_nat [0..<130] :: usize list)))"
    by (rule for_each_quiet) (simp add: assert_eq_ok look_def looks6(3) del: upt_rec_numeral)
  show ?thesis
    by (simp add: rcu_clear_test_def run_test_def new s1(1) first drops t1(1) t t4(1) all6 gens6 looks6 looks8 d6 d7 d3 t4(2)
        assert_eq_ok assert_none_def dropped_look look_def unwrap_some_def unwrap_def aret_def del: upt_rec_numeral length_0_conv)
qed

end
