(* ===== verification/Cslab_Fill.thy ===== *)
theory Cslab_Fill
  imports Cslab_Props
begin

text \<open>
  Filling a new slab: the indices it hands out, what it holds afterwards and in which order iterators
  visit it.
\<close>

section \<open>A sequence of insertions\<close>

fun insert_all :: "'a list \<Rightarrow> 'a cslab \<Rightarrow> ('a cslab \<times> (unit + usize) list) res" where
  "insert_all [] s = Inr (s, [])"
| "insert_all (v # vs) s =
     rbind (cslab_insert s v) (\<lambda>(s', r). rbind (insert_all vs s') (\<lambda>(s'', rs). Inr (s'', r # rs)))"

text \<open>A slab of which the first slots hold the items \<open>xs\<close> and the others have never been used.\<close>

definition filled :: "'a cslab \<Rightarrow> 'a list \<Rightarrow> bool" where
  "filled s xs \<longleftrightarrow> cslab_wf s \<and> length xs \<le> unat (st_size (storage s)) \<and> unat (first_free s) = length xs \<and>
     unat (in_use s) = length xs \<and> unat (allocated s) = length xs \<and>
     st_table (storage s) = map Item xs @ replicate (unat (st_size (storage s)) - length xs) (Next_free 0) \<and>
     (\<forall>i. flag_at (st_bitmap (storage s)) i \<longleftrightarrow> i < length xs)"

lemma new_filled:
  assumes "entry_layout_ok ent" and "cslab_with_fixed_capacity ent n = Inr s"
  shows "filled s []" and "st_size (storage s) = n"
proof -
  note new = cslab_new_ok [OF assms]
  obtain w :: usize where s: "s = \<lparr>first_free = 0, in_use = 0, allocated = 0,
      storage = \<lparr>st_size = n, st_frontier = 0, st_table = replicate (unat n) (Next_free 0), st_bitmap = replicate (unat w) 0\<rparr>\<rparr>"
    using assms(2) by (auto simp: cslab_with_fixed_capacity_def storage_with_fixed_capacity_def res_simps)
  show "st_size (storage s) = n" by (rule new(3))
  show "filled s []" using new(1,4) by (simp add: filled_def s)
qed

lemma filled_insert:
  assumes "filled s xs" and "length xs < unat (st_size (storage s))"
  shows "\<exists>s'. cslab_insert s v = Inr (s', Inr (word_of_nat (length xs))) \<and> filled s' (xs @ [v]) \<and>
    st_size (storage s') = st_size (storage s)"
proof -
  let ?n = "unat (st_size (storage s))" and ?k = "length xs"
  have s: "cslab_wf s" "unat (first_free s) = ?k" "unat (in_use s) = ?k" "unat (allocated s) = ?k"
    and tb: "st_table (storage s) = map Item xs @ replicate (?n - ?k) (Next_free 0)"
    and fl: "flag_at (st_bitmap (storage s)) i \<longleftrightarrow> i < ?k" for i
    using assms(1) by (auto simp: filled_def)
  note wf = cslab_wf_storage [OF s(1)]
  have idx: "first_free s = word_of_nat ?k" by (simp flip: s(2))
  have free: "unat (first_free s) < ?n" using s(2) assms(2) by simp
  obtain ff where ins: "cslab_insert s v =
       Inr (\<lparr>first_free = ff, in_use = in_use s + 1, allocated = allocated s + 1,
             storage = fill_slot (storage s) (first_free s) v\<rparr>, Inr (first_free s))"
    and wf': "cslab_wf \<lparr>first_free = ff, in_use = in_use s + 1, allocated = allocated s + 1,
             storage = fill_slot (storage s) (first_free s) v\<rparr>"
    by (rule cslab_insert_ok [OF s(1) free, of v])
  let ?s = "\<lparr>first_free = ff, in_use = in_use s + 1, allocated = allocated s + 1,
             storage = fill_slot (storage s) (first_free s) v\<rparr>"
  have at: "st_table (storage s) ! ?k = Next_free 0" using tb assms(2) by (simp add: nth_append)
  have "ff = first_free s + 1"
    using ins at s(2) free storage_wf_dests(2) [OF wf]
    by (auto simp: cslab_insert_def Let_def res_simps entry_next_free_def sadd_def split: if_splits)
  moreover have "?k < 2 ^ 60" using assms(2) storage_wf_dests(1) [OF wf] by linarith
  ultimately have counts: "unat ff = ?k + 1" "unat (in_use s + 1) = ?k + 1" "unat (allocated s + 1) = ?k + 1"
    using s(2-4) by (simp_all add: usize_succ)
  note views = fill_slot_views [OF wf free, of v]
  have "?n - ?k = Suc (?n - Suc ?k)" using assms(2) by simp
  then have "st_table (storage ?s) = map Item (xs @ [v]) @ replicate (?n - length (xs @ [v])) (Next_free 0)"
    using tb s(2) by (simp add: fill_slot_def list_update_append)
  then have "filled ?s (xs @ [v])"
    using wf' counts views(2,3) fl s(2) assms(2) by (auto simp: filled_def)
  then show ?thesis using ins views(3) idx by auto
qed

lemma filled_full:
  assumes "filled s xs" and "length xs = unat (st_size (storage s))"
  shows "insert_all vs s = Inr (s, replicate (length vs) (Inl ()))"
proof (induction vs)
  case (Cons v vs)
  then show ?case using assms cslab_insert_full [of s v] by (auto simp: filled_def)
qed simp

lemma filled_insert_all:
  assumes "filled s xs" and "length xs + length vs \<le> unat (st_size (storage s))"
  shows "\<exists>s'. insert_all (vs @ ws) s = rbind (insert_all ws s') (\<lambda>(s'', rs).
      Inr (s'', map (\<lambda>i. Inr (word_of_nat i)) [length xs..<length xs + length vs] @ rs)) \<and>
    filled s' (xs @ vs) \<and> st_size (storage s') = st_size (storage s)"
  using assms
proof (induction vs arbitrary: s xs)
  case Nil
  then show ?case by (auto simp: rbind_def split: sum.splits)
next
  case (Cons v vs)
  obtain s1 where s1: "cslab_insert s v = Inr (s1, Inr (word_of_nat (length xs)))" "filled s1 (xs @ [v])"
      "st_size (storage s1) = st_size (storage s)"
    using filled_insert [OF Cons.prems(1), of v] Cons.prems(2) by auto
  obtain s2 where "insert_all (vs @ ws) s1 = rbind (insert_all ws s2) (\<lambda>(s'', rs).
      Inr (s'', map (\<lambda>i. Inr (word_of_nat i)) [Suc (length xs)..<Suc (length xs) + length vs] @ rs))"
      "filled s2 ((xs @ [v]) @ vs)" "st_size (storage s2) = st_size (storage s1)"
    using Cons.IH [OF s1(2)] Cons.prems(2) s1(3) by auto
  moreover have "[length xs..<length xs + length (v # vs)] = length xs # [Suc (length xs)..<Suc (length xs) + length vs]"
    by (subst upt_conv_Cons) simp_all
  ultimately show ?case
    using s1 by (intro exI [of _ s2]) (auto simp: rbind_def simp del: upt_Suc split: sum.splits)
qed

text \<open>What iterators of such a slab visit.\<close>

lemma filled_items:
  assumes "filled s xs"
  shows "visible_items (storage s) = map (\<lambda>i. (word_of_nat i, xs ! i)) [0..<length xs]"
proof -
  let ?st = "storage s"
  have le: "length xs \<le> unat (st_size ?st)" and tb: "st_table ?st = map Item xs @ replicate (unat (st_size ?st) - length xs) (Next_free 0)"
    and fl: "flag_at (st_bitmap ?st) i \<longleftrightarrow> i < length xs" for i
    using assms by (auto simp: filled_def)
  have "filter (\<lambda>i. i < length xs) ([0..<length xs] @ [length xs..<unat (st_size ?st)]) = [0..<length xs]"
    by (simp add: filter_empty_conv)
  then have "flags_between (st_bitmap ?st) 0 (unat (st_size ?st)) = [0..<length xs]"
    using upt_add_eq_append [of 0 "length xs" "unat (st_size ?st) - length xs"] le by (simp add: flags_between_def fl)
  moreover have "slot_at ?st i = Some (xs ! i)" if "i < length xs" for i
    using that tb le by (simp add: slot_at_def nth_append)
  ultimately show ?thesis by (simp add: visible_items_def item_of_def)
qed

section \<open>Filling a new slab\<close>

lemma calls_one_side:
  "calls nf nb it (replicate k True) = Inr (it', fs, bs) \<Longrightarrow> bs = []"
  "calls nf nb it (replicate k False) = Inr (it', fs, bs) \<Longrightarrow> fs = []"
  by (induction k arbitrary: it fs bs) (auto simp: res_simps split: option.splits)

context double_ended
begin

lemma calls_front_only:
  assumes "ok p s" and "length (rest p s) \<le> k"
  shows "\<exists>s'. calls (next_front p) (next_back p) s (replicate k True) = Inr (s', rest p s, [])"
proof -
  obtain s' fs bs where c: "calls (next_front p) (next_back p) s (replicate k True) = Inr (s', fs, bs)"
      "rest p s = fs @ rest p s' @ rev bs" "length (rest p s') = length (rest p s) - length (replicate k True)"
    using calls_split [OF assms(1)] by blast
  then show ?thesis using calls_one_side(1) [OF c(1)] assms(2) by simp
qed

lemma calls_back_only:
  assumes "ok p s" and "length (rest p s) \<le> k"
  shows "\<exists>s'. calls (next_front p) (next_back p) s (replicate k False) = Inr (s', [], rev (rest p s))"
proof -
  obtain s' fs bs where c: "calls (next_front p) (next_back p) s (replicate k False) = Inr (s', fs, bs)"
      "rest p s = fs @ rest p s' @ rev bs" "length (rest p s') = length (rest p s) - length (replicate k False)"
    using calls_split [OF assms(1)] by blast
  then show ?thesis using calls_one_side(2) [OF c(1)] assms(2) by simp
qed

end

lemma fill_new:
  assumes "entry_layout_ok ent" and "cslab_with_fixed_capacity ent n = Inr s"
  shows "\<exists>s'. insert_all xs s = Inr (s', map (\<lambda>i. if i < unat n then Inr (word_of_nat i) else Inl ()) [0..<length xs]) \<and>
    filled s' (take (unat n) xs)"
proof -
  let ?n = "unat n"
  note new = new_filled [OF assms]
  obtain s' where s': "insert_all (take ?n xs @ drop ?n xs) s = rbind (insert_all (drop ?n xs) s') (\<lambda>(s'', rs).
      Inr (s'', map (\<lambda>i. Inr (word_of_nat i)) [0..<length (take ?n xs)] @ rs))"
      "filled s' (take ?n xs)" "st_size (storage s') = n"
    using filled_insert_all [OF new(1), of "take ?n xs" "drop ?n xs"] new(2) by auto
  show ?thesis
  proof (cases "length xs \<le> ?n")
    case True
    then show ?thesis using s' by (intro exI [of _ s']) auto
  next
    case False
    then have "insert_all (drop ?n xs) s' = Inr (s', replicate (length xs - ?n) (Inl ()))"
      using filled_full [OF s'(2), of "drop ?n xs"] s'(3) by simp
    moreover have "[0..<length xs] = [0..<?n] @ [?n..<length xs]"
      using False upt_add_eq_append [of 0 ?n "length xs - ?n"] by simp
    moreover have "map (\<lambda>i. if i < ?n then Inr (word_of_nat i :: usize) else Inl ()) [?n..<length xs] =
        replicate (length xs - ?n) (Inl ())"
      by (rule nth_equalityI) auto
    ultimately show ?thesis using s'(1,2) False by (intro exI [of _ s']) auto
  qed
qed

text \<open>
  A new slab of capacity \<open>n\<close> into which any sequence of items is inserted gives out the indices
  \<open>0\<close>, \<open>1\<close>, \<open>2\<close>, \<dots> in order for the first \<open>n\<close> items and refuses the others; afterwards its length is the number
  of items taken, and an iterator delivers exactly these with their indices, in order of insertion from the front and in
  the opposite order from the back.
\<close>

theorem fresh_slab_fills_in_order:
  assumes "entry_layout_ok ent" and "cslab_with_fixed_capacity ent n = Inr s"
  shows "\<exists>s' it front back. let items = map (\<lambda>i. (word_of_nat i, xs ! i)) [0..<min (length xs) (unat n)] in
    insert_all xs s = Inr (s', map (\<lambda>i. if i < unat n then Inr (word_of_nat i) else Inl ()) [0..<length xs]) \<and>
    unat (cslab_len s') = length items \<and> cslab_iter s' = Inr it \<and>
    calls (excl_iter_next (storage s')) (excl_iter_next_back (storage s')) it (replicate (length xs) True) = Inr (front, items, []) \<and>
    calls (excl_iter_next (storage s')) (excl_iter_next_back (storage s')) it (replicate (length xs) False) = Inr (back, [], rev items)"
proof -
  obtain s' where s': "insert_all xs s = Inr (s', map (\<lambda>i. if i < unat n then Inr (word_of_nat i) else Inl ()) [0..<length xs])"
      "filled s' (take (unat n) xs)"
    using fill_new [OF assms] by blast
  let ?items = "map (\<lambda>i. (word_of_nat i, xs ! i)) [0..<min (length xs) (unat n)]"
  have items: "visible_items (storage s') = ?items"
    using filled_items [OF s'(2)] by (auto intro: map_cong)
  have wf: "storage_wf (storage s')" and len: "unat (cslab_len s') = length ?items"
    using s'(2) by (auto simp: filled_def cslab_len_def intro: cslab_wf_storage)
  obtain it where it: "cslab_iter s' = Inr it" "excl_iter_ok (storage s') it" "excl_iter_items (storage s') it = ?items"
    using iter_new_ok [OF wf] items
    by (auto simp: cslab_iter_def excl_iter_new_def excl_iter_ok_def excl_iter_items_def)
  then show ?thesis
    using s'(1) len excl_iter.calls_front_only [OF it(2), of "length xs"] excl_iter.calls_back_only [OF it(2), of "length xs"]
    by (fastforce simp: Let_def)
qed

theorem fresh_slab_fills_in_order_witness:
  "\<exists>s' it front back. insert_all [7, 8, 9] \<lparr>first_free = 0, in_use = 0, allocated = 0, storage = \<lparr>st_size = 2, st_frontier = 0,
        st_table = [Next_free 0, Next_free 0], st_bitmap = [0]\<rparr>\<rparr> = Inr (s', [Inr 0, Inr 1, Inl ()]) \<and>
     unat (cslab_len s') = Suc 1 \<and> cslab_iter s' = Inr it \<and>
     calls (excl_iter_next (storage s')) (excl_iter_next_back (storage s')) it [True, True, True] = Inr (front, [(0, 7), (1, 8 :: nat)], []) \<and>
     calls (excl_iter_next (storage s')) (excl_iter_next_back (storage s')) it [False, False, False] = Inr (back, [], [(1, 8), (0, 7)])"
proof -
  have three: "[0..<length [7, 8, 9 :: nat]] = [0, 1, 2]" "replicate (length [7, 8, 9 :: nat]) b = [b, b, b]" for b
    by (simp_all add: upt_conv_Cons)
  have two: "[0..<min (length [7, 8, 9 :: nat]) (unat (2 :: usize))] = [0, 1]" by (simp add: upt_conv_Cons)
  show ?thesis
    using fresh_slab_fills_in_order [OF entry8_ok demo_new, of "[7, 8, 9]"] unfolding two three Let_def
    by (simp del: insert_all.simps calls.simps)
qed

section \<open>A test with many items\<close>

text \<open>\<open>items.push(slab.insert(_).unwrap())\<close> for every value, and an iterator that must deliver given items and then none.\<close>

fun insert_each :: "'a list \<Rightarrow> 'a cslab \<Rightarrow> ('a cslab \<times> usize list) res" where
  "insert_each [] s = Inr (s, [])"
| "insert_each (v # vs) s =
     rbind (cslab_insert s v) (\<lambda>(s', r).
     case r of
       Inl _ \<Rightarrow> Inl Panic_unwrap
     | Inr idx \<Rightarrow> rbind (insert_each vs s') (\<lambda>(s'', items). Inr (s'', idx # items)))"

fun expect_each :: "('i, 'x) next_op \<Rightarrow> 'x list \<Rightarrow> 'i \<Rightarrow> unit res" where
  "expect_each nxt [] it = rbind (nxt it) (\<lambda>(it', r). rassert Panic_assert (r = None))"
| "expect_each nxt (x # xs) it =
     rbind (nxt it) (\<lambda>(it', r). rbind (rassert Panic_assert (r = Some x)) (\<lambda>_. expect_each nxt xs it'))"

definition iter_large_test :: "unit res" where
  "iter_large_test =
     rbind (cslab_with_fixed_capacity entry8 128) (\<lambda>slab.
     rbind (insert_each (map (\<lambda>i. 100 + i) [0..<128]) slab) (\<lambda>(slab, items).
     rbind (cslab_iter slab) (\<lambda>it.
     rbind (expect_each (excl_iter_next (storage slab)) (map (\<lambda>i. (items ! i, 100 + i)) [0..<128]) it) (\<lambda>_.
     rbind (cslab_iter slab) (\<lambda>it.
     expect_each (excl_iter_next_back (storage slab)) (map (\<lambda>i. (items ! (127 - i), 100 + (127 - i))) [0..<128]) it)))))"

lemma insert_each_all: "insert_all xs s = Inr (s', map Inr ks) \<Longrightarrow> insert_each xs s = Inr (s', ks)"
proof (induction xs arbitrary: s ks)
  case (Cons v vs)
  then show ?case by (fastforce simp: res_simps map_eq_Cons_conv)
qed simp

context double_ended
begin

lemma expect_front: "ok p s \<Longrightarrow> expect_each (next_front p) (rest p s) s = Inr ()"
proof (induction "rest p s" arbitrary: s)
  case Nil
  then show ?case using next_front_ok [OF Nil.prems] by (auto simp: rassert_def)
next
  case (Cons x xs)
  obtain s' where s': "next_front p s = Inr (s', Some x)" "ok p s'" "rest p s' = xs"
    using next_front_ok [OF Cons.prems] Cons.hyps(2) by (metis list.sel(3) list.simps(5))
  show ?case using Cons.hyps(1) [of s'] s' by (simp add: rassert_def flip: Cons.hyps(2))
qed

lemma expect_back: "ok p s \<Longrightarrow> expect_each (next_back p) (rev (rest p s)) s = Inr ()"
proof (induction "rev (rest p s)" arbitrary: s)
  case Nil
  then show ?case using next_back_ok [OF Nil.prems] by (auto simp: rassert_def)
next
  case (Cons x xs)
  have r: "rest p s = rev xs @ [x]" using Cons.hyps(2) by (metis rev.simps(2) rev_rev_ident)
  obtain s' where s': "next_back p s = Inr (s', Some x)" "ok p s'" "rest p s' = rev xs"
    using next_back_ok [OF Cons.prems] r by auto
  show ?case using Cons.hyps(1) [of s'] s' by (simp add: r rassert_def)
qed

end

text \<open>The test passes.\<close>

lemma new_128: "\<exists>s :: nat cslab. cslab_with_fixed_capacity entry8 128 = Inr s"
  by (simp add: cslab_with_fixed_capacity_def storage_with_fixed_capacity_def storage_layout_def table_layout_def
      bitmap_layout_def bitmap_words_def layout_array_def layout_extend_def unwrap_def uadd_def usub_def
      max_size_for_align_def isize_max_def round_up_def entry8_def Let_def rassert_def)

theorem iter_large_test_passes: "iter_large_test = Inr ()"
proof -
  let ?xs = "map (\<lambda>i. 100 + i) [0..<128] :: nat list" and ?items = "map word_of_nat [0..<128] :: usize list"
  obtain s :: "nat cslab" where s: "cslab_with_fixed_capacity entry8 128 = Inr s" using new_128 by blast
  have len: "length ?xs = 128" "unat (128 :: usize) = 128" by simp_all
  obtain s' where ins: "insert_all ?xs s = Inr (s', map (\<lambda>i. if i < unat (128 :: usize) then Inr (word_of_nat i) else Inl ()) [0..<length ?xs])"
      and full: "filled s' (take (unat (128 :: usize)) ?xs)"
    using fill_new [OF entry8_ok s, of ?xs] by blast
  have "map (\<lambda>i. if i < unat (128 :: usize) then Inr (word_of_nat i) else Inl ()) [0..<length ?xs] = map Inr ?items"
    unfolding len by (auto simp del: upt_rec_numeral)
  then have each: "insert_each ?xs s = Inr (s', ?items)" using insert_each_all ins by metis
  have items: "visible_items (storage s') = map (\<lambda>i. (?items ! i, 100 + i)) [0..<128]"
    using filled_items [OF full] by (auto simp del: upt_rec_numeral intro: map_cong)
  moreover have "map (\<lambda>i. (?items ! (127 - i), 100 + (127 - i))) [0..<128] = rev (map (\<lambda>i. (?items ! i, 100 + i)) [0..<128])"
    by (rule nth_equalityI) (auto simp: rev_nth simp del: upt_rec_numeral)
  moreover have "storage_wf (storage s')" using full by (auto simp: filled_def intro: cslab_wf_storage)
  then obtain it where it: "cslab_iter s' = Inr it" "excl_iter_ok (storage s') it"
      "excl_iter_items (storage s') it = visible_items (storage s')"
    using iter_new_ok by (fastforce simp: cslab_iter_def excl_iter_new_def excl_iter_ok_def excl_iter_items_def)
  ultimately show ?thesis
    using s each excl_iter.expect_front [OF it(2)] excl_iter.expect_back [OF it(2)]
    by (simp add: iter_large_test_def del: upt_rec_numeral)
qed

end
