(* ===== verification/Rcu_Sweep.thy ===== *)
theory Rcu_Sweep
  imports Rcu_Many Cslab_Fill
begin

text \<open>
  Removing selected items while iterating: the loop that the documentation of \<open>iter_mut\<close> gives, what it
  visits and what it leaves; and the test of it with many items.
\<close>

section \<open>The loop\<close>

text \<open>
  \<open>for entry in slab.iter_mut() { if p(&entry) { entry.remove(); } }\<close>. The keys of the proxies are
  collected in the order in which they are visited; a proxy that is not removed is dropped at the end of
  its pass.
\<close>

definition sweep :: "('a \<Rightarrow> bool) \<Rightarrow> rcu_iter_mut \<Rightarrow> ('a rcu, rcu_iter_mut \<times> usize list) act" where
  "sweep P = for_entries (\<lambda>en. abind (if P (entry_deref en) then entry_remove en else entry_drop en) (\<lambda>_. aret (entry_key en)))"

definition remove_selected :: "('a \<Rightarrow> bool) \<Rightarrow> ('a rcu, usize list) act" where
  "remove_selected P = abind rcu_iter_mut_new (\<lambda>rim. after (abind (sweep P rim) (\<lambda>(rim', keys). aret keys)) rim_drop)"

lemma sweep_end: "rim_next rim s = (s1, Inr (rim', None)) \<Longrightarrow> sweep P rim s = (s1, Inr (rim', []))"
  by (simp add: sweep_def for_entries_eval)

lemma sweep_pass:
  assumes "rim_next rim s = (s1, Inr (rim', Some en))"
    and "(if P (entry_deref en) then entry_remove en else entry_drop en) s1 = (s2, Inr ())"
    and "sweep P rim' s2 = (s3, Inr (rim'', ks))"
  shows "sweep P rim s = (s3, Inr (rim'', entry_key en # ks))"
proof -
  let ?f = "\<lambda>en. abind (if P (entry_deref en) then entry_remove en else entry_drop en) (\<lambda>_. aret (entry_key en))"
  have "?f en s1 = (s2, Inr (entry_key en))" by (cases "P (entry_deref en)") (use assms(2) in simp_all)
  from for_entries_eval(2) [where f = ?f, OF assms(1) this] show ?thesis
    using assms(3) [unfolded sweep_def] by (simp add: sweep_def split: if_splits)
qed

text \<open>A proxy is removed or dropped: its item is hidden or nothing changes for anybody, and the iterator goes on as before.\<close>

lemma settle_ok:
  assumes inv: "world_inv ent w" and iter: "w_iter w = Some rim" and e: "w_entries w = [e]"
  shows "\<exists>s. (if b then entry_remove e else entry_drop e) (w_rcu w) = (s, Inr ()) \<and> rc_cur s = rc_cur (w_rcu w) \<and>
    rvisible s = (if b then (rvisible (w_rcu w))(re_idx e := None) else rvisible (w_rcu w)) \<and>
    iter_rest (rcu_storage s) (rim_iter rim) = iter_rest (rcu_storage (w_rcu w)) (rim_iter rim) \<and>
    world_inv ent (w\<lparr>w_rcu := s, w_entries := []\<rparr>) \<and> calm_step ent w (w\<lparr>w_rcu := s, w_entries := []\<rparr>)"
proof -
  have iok: "iter_ok (rcu_storage (w_rcu w)) (rim_iter rim)"
    and notin: "unat (re_idx e) \<notin> set (iter_rest (rcu_storage (w_rcu w)) (rim_iter rim))"
    using inv iter e by (auto simp: world_inv_def iter_mut_ok_def)
  have mem: "e \<in> set (w_entries w)" using e by simp
  show ?thesis
  proof (cases b)
    case True
    obtain s where "entry_remove e (w_rcu w) = (s, Inr ())" "rc_cur s = rc_cur (w_rcu w)" "rvisible s = (rvisible (w_rcu w))(re_idx e := None)"
      "iter_rest (rcu_storage s) (rim_iter rim) = iter_rest (rcu_storage (w_rcu w)) (rim_iter rim)"
      "world_inv ent (w\<lparr>w_rcu := s, w_entries := []\<rparr>)"
      using step_entry_remove_ok [OF inv mem] iok notin e by auto
    moreover from this have "calm_step ent w (w\<lparr>w_rcu := s, w_entries := []\<rparr>)"
      using step_entry_remove [OF mem, of s "()" ent] e by (simp add: calm_step_def)
    ultimately show ?thesis using True by auto
  next
    case False
    have h: "re_gen e \<in> set (world_handles w)" using e by (simp add: world_handles_def)
    obtain s where s: "arc_drop (re_gen e) (w_rcu w) = (s, Inr ())" "same_view (w_rcu w) s" "rc_cur s = rc_cur (w_rcu w)"
      using release_handle [OF inv h] by blast
    then have run: "entry_drop e (w_rcu w) = (s, Inr ())" by (simp add: entry_drop_def)
    then have "world_inv ent (w\<lparr>w_rcu := s, w_entries := []\<rparr>)" using step_entry_drop_ok [OF inv mem] e by auto
    moreover have "calm_step ent w (w\<lparr>w_rcu := s, w_entries := []\<rparr>)"
      using step_entry_drop [OF mem, of s "()" ent] run e by (simp add: calm_step_def)
    ultimately show ?thesis using False run s iok by (auto simp: same_view_def)
  qed
qed

definition selected :: "('a \<Rightarrow> bool) \<Rightarrow> nat set \<Rightarrow> (usize \<Rightarrow> 'a option) \<Rightarrow> usize \<Rightarrow> bool" where
  "selected P ks vis i \<longleftrightarrow> unat i \<in> ks \<and> (case vis i of None \<Rightarrow> False | Some v \<Rightarrow> P v)"

lemma selected_Cons:
  assumes "unat e = k" and "k \<notin> set ks" and "vis e = Some v"
  shows "(\<lambda>i. if selected P (set (k # ks)) vis i then None else vis i) =
    (let vis' = (if P v then vis(e := None) else vis) in (\<lambda>i. if selected P (set ks) vis' i then None else vis' i))"
proof
  fix i
  show "(if selected P (set (k # ks)) vis i then None else vis i) =
    (let vis' = (if P v then vis(e := None) else vis) in (\<lambda>i. if selected P (set ks) vis' i then None else vis' i)) i"
  proof (cases "i = e")
    case True
    then show ?thesis using assms by (simp add: selected_def)
  next
    case False
    then have "unat i \<noteq> k" using assms(1) by (simp add: word_unat_eq_iff)
    with False show ?thesis by (simp add: selected_def)
  qed
qed

lemma sweep_ok:
  assumes "world_inv ent w" and "w_iter w = Some rim" and "w_entries w = []"
    and "iter_rest (rcu_storage (w_rcu w)) (rim_iter rim) = ks" and "rvisible (w_rcu w) = vis"
  shows "\<exists>s rim'. sweep P rim (w_rcu w) = (s, Inr (rim', map word_of_nat ks)) \<and>
    rtranclp (calm_step ent) w (w\<lparr>w_rcu := s, w_iter := Some rim'\<rparr>) \<and> rc_cur s = rc_cur (w_rcu w) \<and>
    iter_rest (rcu_storage s) (rim_iter rim') = [] \<and>
    rvisible s = (\<lambda>i. if selected P (set ks) vis i then None else vis i)"
  using assms
proof (induction ks arbitrary: w rim vis)
  case Nil
  obtain s rim' where s: "rim_next rim (w_rcu w) = (s, Inr (rim', None))" "rc_writer s = rc_writer (w_rcu w)"
    "rc_cur s = rc_cur (w_rcu w)" "iter_rest (rcu_storage (w_rcu w)) (rim_iter rim') = []"
    using step_next_ok [OF Nil.prems(1,2)] Nil.prems(4) by auto
  have "calm_step ent w (w\<lparr>w_rcu := s, w_iter := Some rim'\<rparr>)"
    using step_next [OF Nil.prems(2) s(1), of ent] Nil.prems(3) by (cases w) (simp add: calm_step_def)
  then show ?case using s Nil.prems(5) sweep_end [OF s(1), of P] by (auto simp: selected_def)
next
  case (Cons k ks)
  let ?st = "rcu_storage (w_rcu w)" and ?e = "proxy (w_rcu w) k"
  obtain s1 rim1 where s1: "rim_next rim (w_rcu w) = (s1, Inr (rim1, Some ?e))"
    "rc_writer s1 = rc_writer (w_rcu w)" "iter_rest ?st (rim_iter rim1) = ks" "rc_cur s1 = rc_cur (w_rcu w)"
    "world_inv ent (w\<lparr>w_rcu := s1, w_iter := Some rim1, w_entries := [?e]\<rparr>)" (is "world_inv ent ?w1")
    using step_next_ok [OF Cons.prems(1,2)] Cons.prems(3,4) by auto
  have step1: "calm_step ent w ?w1"
    using step_next [OF Cons.prems(2) s1(1), of ent] Cons.prems(3) by (simp add: calm_step_def)
  let ?b = "P (entry_deref ?e)"
  obtain s2 where s2: "(if ?b then entry_remove ?e else entry_drop ?e) s1 = (s2, Inr ())" "rc_cur s2 = rc_cur s1"
    "rvisible s2 = (if ?b then (rvisible s1)(re_idx ?e := None) else rvisible s1)"
    "iter_rest (rcu_storage s2) (rim_iter rim1) = iter_rest (rcu_storage s1) (rim_iter rim1)"
    "world_inv ent (?w1\<lparr>w_rcu := s2, w_entries := []\<rparr>)" (is "world_inv ent ?w2") "calm_step ent ?w1 (?w1\<lparr>w_rcu := s2, w_entries := []\<rparr>)"
    using settle_ok [OF s1(5), of rim1 ?e ?b] by auto
  obtain s rim' where s: "sweep P rim1 s2 = (s, Inr (rim', map word_of_nat ks))"
    "rtranclp (calm_step ent) ?w2 (?w2\<lparr>w_rcu := s, w_iter := Some rim'\<rparr>)" "rc_cur s = rc_cur s2"
    "iter_rest (rcu_storage s) (rim_iter rim') = []"
    "rvisible s = (\<lambda>i. if selected P (set ks) (rvisible s2) i then None else rvisible s2 i)"
    using Cons.IH [OF s2(5), of rim1 "rvisible s2"] s1(2,3) s2(4) by auto
  have "k \<in> set (iter_rest ?st (rim_iter rim))" using Cons.prems(4) by simp
  then have "k < unat (it_tail (rim_iter rim))" by (auto simp: iter_rest_def flags_between_def)
  moreover have "iter_ok ?st (rim_iter rim)" using Cons.prems(1,2) by (auto simp: world_inv_def iter_mut_ok_def)
  ultimately have k: "unat (re_idx ?e) = k" using word_of_index(1) by (simp add: proxy_def)
  have found: "vis (re_idx ?e) = Some (entry_deref ?e)"
    using s1(2,5) Cons.prems(5) by (auto simp: world_inv_def entries_ok_def entry_deref_def)
  have fresh: "k \<notin> set ks"
    using Cons.prems(4) distinct_upt by (metis distinct.simps(2) distinct_filter flags_between_def iter_rest_def)
  have v2: "rvisible s2 = (if ?b then vis(re_idx ?e := None) else vis)" using s2(3) s1(2) Cons.prems(5) by simp
  have vis_s: "rvisible s = (\<lambda>i. if selected P (set (k # ks)) vis i then None else vis i)"
    unfolding selected_Cons [where vis = vis, OF k fresh found] Let_def s(5) v2 by (rule refl)
  have "?w2\<lparr>w_rcu := s, w_iter := Some rim'\<rparr> = w\<lparr>w_rcu := s, w_iter := Some rim'\<rparr>" using Cons.prems(3) by (cases w) simp
  then have "rtranclp (calm_step ent) w (w\<lparr>w_rcu := s, w_iter := Some rim'\<rparr>)"
    using step1 s2(6) s(2) by (metis converse_rtranclp_into_rtranclp)
  moreover have "sweep P rim (w_rcu w) = (s, Inr (rim', map word_of_nat (k # ks)))"
    using sweep_pass [OF s1(1) s2(1) s(1)] by (simp add: entry_key_def proxy_def)
  ultimately show ?case using s(3,4) s2(2) s1(4) vis_s by auto
qed

lemma iter_drop_ok:
  assumes inv: "world_inv ent w" and iter: "w_iter w = Some rim"
  shows "\<exists>s. rim_drop (w_rcu w) = (s, Inr ()) \<and> rc_owner s \<and> rc_cur s = Suc (rc_cur (w_rcu w)) \<and> rvisible s = rvisible (w_rcu w) \<and>
    pending_of s (rc_cur s) = [] \<and> world_inv ent (w\<lparr>w_rcu := s, w_iter := None\<rparr>) \<and> calm_step ent w (w\<lparr>w_rcu := s, w_iter := None\<rparr>)"
proof -
  have owner: "rc_owner (w_rcu w)" and cur: "Suc (rc_cur (w_rcu w)) = ngens (w_rcu w)"
    using inv iter by (auto simp: world_inv_def iter_mut_ok_def)
  obtain s where s: "advance_generation (w_rcu w) = (s, Inr ())" "rc_owner s" "rc_cur s = ngens (w_rcu w)"
    "rvisible s = rvisible (w_rcu w)" "pending_of s (rc_cur s) = []" "world_inv ent (w\<lparr>w_rcu := s, w_iter := None\<rparr>)"
    using step_advance_ok [OF inv owner] by blast
  then have "calm_step ent w (w\<lparr>w_rcu := s, w_iter := None\<rparr>)"
    using step_iter_drop [OF iter, of s "()" ent] by (simp add: rim_drop_def calm_step_def)
  with s cur show ?thesis by (auto simp: rim_drop_def)
qed

lemma remove_selected_ok:
  assumes inv: "world_inv ent w" and free: "slab_free w"
  shows "\<exists>s. remove_selected P (w_rcu w) = (s, Inr (map fst (visible_items (rcu_storage (w_rcu w))))) \<and>
    rtranclp (calm_step ent) w (w\<lparr>w_rcu := s\<rparr>) \<and> rc_cur s = Suc (rc_cur (w_rcu w)) \<and>
    rvisible s = (\<lambda>i. case rvisible (w_rcu w) i of None \<Rightarrow> None | Some v \<Rightarrow> if P v then None else Some v)"
proof -
  let ?st = "rcu_storage (w_rcu w)"
  have borrow: "w_iter w = None" "w_entries w = []" using free by (simp_all add: slab_free_def)
  obtain rim where rim: "rcu_iter_mut_new (w_rcu w) = (w_rcu w, Inr rim)"
    "iter_items ?st (rim_iter rim) = visible_items ?st" "world_inv ent (w\<lparr>w_rcu := w_rcu w, w_iter := Some rim\<rparr>)" (is "world_inv ent ?w0")
    using step_iter_mut_ok [OF inv free] by blast
  have step0: "calm_step ent w ?w0" using step_iter_mut [OF free rim(1), of ent] by (simp add: calm_step_def)
  let ?ks = "iter_rest ?st (rim_iter rim)"
  obtain s1 rim1 where s1: "sweep P rim (w_rcu w) = (s1, Inr (rim1, map word_of_nat ?ks))"
    "rtranclp (calm_step ent) ?w0 (?w0\<lparr>w_rcu := s1, w_iter := Some rim1\<rparr>)" (is "rtranclp _ _ ?w1") "rc_cur s1 = rc_cur (w_rcu w)"
    "rvisible s1 = (\<lambda>i. if selected P (set ?ks) (rvisible (w_rcu w)) i then None else rvisible (w_rcu w) i)"
    using sweep_ok [OF rim(3), of rim ?ks "rvisible (w_rcu w)" P] borrow(2) by auto
  have inv1: "world_inv ent ?w1" by (rule world_steps_inv [OF calm_world [OF s1(2)] rim(3)])
  obtain s where s: "rim_drop s1 = (s, Inr ())" "rc_cur s = Suc (rc_cur s1)" "rvisible s = rvisible s1"
    "calm_step ent ?w1 (?w1\<lparr>w_rcu := s, w_iter := None\<rparr>)"
    using iter_drop_ok [OF inv1, of rim1] by auto
  have "?w1\<lparr>w_rcu := s, w_iter := None\<rparr> = w\<lparr>w_rcu := s\<rparr>" using borrow(1) by (cases w) simp
  then have steps: "rtranclp (calm_step ent) w (w\<lparr>w_rcu := s\<rparr>)"
    using step0 s1(2) s(4) by (metis converse_rtranclp_into_rtranclp rtranclp.rtrancl_into_rtrancl)
  have keys: "map word_of_nat ?ks = map fst (visible_items ?st)"
    by (simp add: iter_items_def item_of_def o_def flip: rim(2))
  have "unat i \<in> set ?ks" if "rvisible (w_rcu w) i = Some v" for i v
    using clear_hides [OF rim(3), of rim i] rim(2) that by (auto split: if_splits)
  then have "rvisible s = (\<lambda>i. case rvisible (w_rcu w) i of None \<Rightarrow> None | Some v \<Rightarrow> if P v then None else Some v)"
    using s(3) s1(4) by (auto simp: fun_eq_iff selected_def split: option.splits)
  moreover have "remove_selected P (w_rcu w) = (s, Inr (map fst (visible_items ?st)))"
    using rim(1) s1(1) s(1) keys by (simp add: remove_selected_def)
  ultimately show ?thesis using steps s(2) s1(3) by auto
qed

text \<open>
  C40. The removing iterator. In every program, iterating over the proxies and removing those whose item
  satisfies a condition visits each item present once, in the order of the indices; no call of it
  faults. Afterwards every reader, old or new, finds exactly the items that do not satisfy the condition, at
  their indices; one generation has been added, and no reader was dropped, so that what readers had found
  before stays readable for them.
\<close>

theorem iter_mut_removes_selected:
  assumes "entry_layout_ok ent" and "world_reach ent n w" and "slab_free w"
  shows "\<exists>s. remove_selected P (w_rcu w) = (s, Inr (map fst (visible_items (rcu_storage (w_rcu w))))) \<and>
    rc_cur s = Suc (rc_cur (w_rcu w)) \<and> rtranclp (calm_step ent) w (w\<lparr>w_rcu := s\<rparr>) \<and>
    (\<forall>r i. rcu_reader_get s r i = rbind (rcu_reader_get (w_rcu w) r i)
       (\<lambda>x. Inr (case x of None \<Rightarrow> None | Some v \<Rightarrow> if P v then None else Some v)))"
proof -
  have inv: "world_inv ent w" by (rule world_reach_inv [OF assms(2,1)])
  obtain s where s: "remove_selected P (w_rcu w) = (s, Inr (map fst (visible_items (rcu_storage (w_rcu w)))))"
    "rtranclp (calm_step ent) w (w\<lparr>w_rcu := s\<rparr>)" "rc_cur s = Suc (rc_cur (w_rcu w))"
    "rvisible s = (\<lambda>i. case rvisible (w_rcu w) i of None \<Rightarrow> None | Some v \<Rightarrow> if P v then None else Some v)"
    using remove_selected_ok [OF inv assms(3)] by blast
  have get: "rcu_reader_get (w_rcu w') r i = Inr (rvisible (w_rcu w') i)" if "world_inv ent w'" for w' :: "'a world" and r i
    using get_impl_eq that by (auto simp: rcu_reader_get_def reader_get_def cslab_visible_def world_inv_def rcu_inv_def intro: cslab_wf_storage)
  show ?thesis
    using s get [OF inv] get [OF world_steps_inv [OF calm_world [OF s(2)] inv]] by (intro exI [of _ s]) simp
qed

theorem iter_mut_removes_selected_witness:
  "\<exists>s. remove_selected (\<lambda>v. v = 7) (w_rcu demo_world) = (s, Inr [0]) \<and> rcu_reader_get s 0 0 = Inr None"
proof -
  have "map fst (visible_items (rcu_storage (w_rcu demo_world))) = [0]" by code_simp
  then show ?thesis
    using iter_mut_removes_selected [OF entry8_ok demo_world_reach demo_world_free, of "\<lambda>v. v = 7"] demo_get
    by (auto simp: demo_world_def)
qed

section \<open>The example of the documentation\<close>

definition iter_mut_example :: "unit res" where
  "iter_mut_example = run_test (rcu_with_fixed_capacity entry8 4)
     (abind (unwrap_ok (rcu_insert (10 :: int))) (\<lambda>_.
      abind (unwrap_ok (rcu_insert 11)) (\<lambda>_.
      abind (remove_selected (\<lambda>v. v mod 2 = 0)) (\<lambda>_.
      abind rcu_iter (\<lambda>it.
      abind (look (\<lambda>s. collect (excl_iter_next (rcu_storage s)) it)) (\<lambda>items.
      assert_eq (aret (map snd items)) [11]))))))"

lemma iter_mut_example_passes: "iter_mut_example = Inr ()"
  by (simp add: iter_mut_example_def remove_selected_def sweep_def test_eval slab_eval iter_eval rcu_eval)

end
