(* ===== verification/Cslab_Weak.thy ===== *)
theory Cslab_Weak
  imports Cslab_Iter
begin

text \<open>
  Readers that run concurrently with the writer of a \<open>Cslab\<close>, under the release-acquire memory model
  of Rust (\<open>src/cslab/src/lib.rs\<close>, the design notes and the accesses marked \<open>[Ii]\<close>, \<open>[Im]\<close>, \<open>[Ib]\<close>,
  \<open>[Rb]\<close>, \<open>[Ri]\<close>, \<open>[Gb]\<close>, \<open>[Gi]\<close>, \<open>[Sm]\<close>). The stores of the one writer form a log. A reader has a view: for
  every location, the length of the prefix of the log that it is known to have observed. An atomic
  load may return the contents of its location at any time from the view on; an acquire load of a
  release store brings the view of the whole memory up to that store. An access to an entry that is
  not ordered with a store to it is a data race, and undefined.
\<close>

section \<open>Stores and views\<close>

datatype mem_order = Relaxed | Acquire | Release

datatype loc = Loc_entry nat | Loc_word nat | Loc_frontier

datatype 'a store = St_entry nat "'a entry" | St_frontier usize mem_order | St_word nat usize mem_order

fun store_loc :: "'a store \<Rightarrow> loc" where
  "store_loc (St_entry i _) = Loc_entry i"
| "store_loc (St_frontier _ _) = Loc_frontier"
| "store_loc (St_word k _ _) = Loc_word k"

fun store_order :: "'a store \<Rightarrow> mem_order" where
  "store_order (St_entry _ _) = Relaxed"
| "store_order (St_frontier _ ord) = ord"
| "store_order (St_word _ _ ord) = ord"

fun apply_store :: "'a store \<Rightarrow> 'a cslab_storage \<Rightarrow> 'a cslab_storage" where
  "apply_store (St_entry i e) st = st\<lparr>st_table := (st_table st)[i := e]\<rparr>"
| "apply_store (St_frontier f _) st = st\<lparr>st_frontier := f\<rparr>"
| "apply_store (St_word k w _) st = st\<lparr>st_bitmap := (st_bitmap st)[k := w]\<rparr>"

text \<open>
  The memory after the first \<open>t\<close> stores, and the latest of them to a location (counted from one;
  zero for the initial contents).
\<close>

definition mem_at :: "'a cslab_storage \<Rightarrow> 'a store list \<Rightarrow> nat \<Rightarrow> 'a cslab_storage" where
  "mem_at init log t = fold apply_store (take t log) init"

fun last_store :: "'a store list \<Rightarrow> loc \<Rightarrow> nat \<Rightarrow> nat" where
  "last_store log l 0 = 0"
| "last_store log l (Suc t) = (if t < length log \<and> store_loc (log ! t) = l then Suc t else last_store log l t)"

type_synonym view = "loc \<Rightarrow> nat"

text \<open>The view after an atomic load of \<open>l\<close> that returned its contents at time \<open>t\<close>.\<close>

definition load_view :: "'a store list \<Rightarrow> loc \<Rightarrow> mem_order \<Rightarrow> nat \<Rightarrow> view \<Rightarrow> view" where
  "load_view log l ord t v =
     (let m = last_store log l t; v' = v(l := t) in
      if ord = Acquire \<and> 0 < m \<and> store_order (log ! (m - 1)) = Release then (\<lambda>x. max (v' x) m) else v')"

section \<open>The writer's stores\<close>

text \<open>What \<open>insert\<close>, \<open>mark_removed\<close> and \<open>finalize_remove\<close> store, in program order, with the order of each store.\<close>

definition insert_stores :: "'a cslab \<Rightarrow> 'a \<Rightarrow> 'a store list" where
  "insert_stores s item =
     (let idx = first_free s; st = storage s; k = unat (idx div 64) in
      [St_entry (unat idx) (Item item)] @
      (if idx \<ge> st_frontier st then [St_frontier (idx + 1) Relaxed] else []) @
      [St_word k (set_flag (st_bitmap st ! k) (unat idx)) Release])"

definition mark_stores :: "'a cslab \<Rightarrow> usize \<Rightarrow> 'a store list" where
  "mark_stores s idx =
     (let k = unat (idx div 64) in [St_word k (clear_flag (st_bitmap (storage s) ! k) (unat idx)) Release])"

definition finalize_stores :: "'a cslab \<Rightarrow> usize \<Rightarrow> 'a store list" where
  "finalize_stores s idx = [St_entry (unat idx) (Next_free (first_free s - idx - 1))]"

section \<open>Readers\<close>

text \<open>
  A read handle: the time it, or the handle it was cloned from, was taken from the writer; the view of
  the thread that uses it; and the indexes it found present, with the time of the flag it read.
\<close>

record handle =
  h_birth :: nat
  h_view :: view
  h_seen :: "(nat \<times> nat) list"

text \<open>
  The whole program: the writer's own state, the stores that other threads can read, those the
  writer's current operation has still to make, the handles, and the removals that are marked and not
  finalized, with the time at which the mark is complete.
\<close>

record 'a weak =
  wk_init :: "'a cslab_storage"
  wk_slab :: "'a cslab"
  wk_log :: "'a store list"
  wk_todo :: "'a store list"
  wk_handles :: "handle list"
  wk_marks :: "(usize \<times> nat) list"

definition wk_mem :: "'a weak \<Rightarrow> nat \<Rightarrow> 'a cslab_storage" where
  "wk_mem w t = mem_at (wk_init w) (wk_log w) t"

text \<open>
  Loads take the time \<open>t\<close> whose contents they return as an argument; \<open>None\<close> if the view excludes it.
\<close>

definition weak_load_word :: "'a weak \<Rightarrow> nat \<Rightarrow> nat \<Rightarrow> handle \<Rightarrow> (usize \<times> handle) option" where
  "weak_load_word w t k h =
     (if h_view h (Loc_word k) \<le> t \<and> t \<le> length (wk_log w)
      then Some (st_bitmap (wk_mem w t) ! k, h\<lparr>h_view := load_view (wk_log w) (Loc_word k) Acquire t (h_view h)\<rparr>)
      else None)"

definition weak_load_frontier :: "'a weak \<Rightarrow> nat \<Rightarrow> handle \<Rightarrow> (usize \<times> handle) option" where
  "weak_load_frontier w t h =
     (if h_view h Loc_frontier \<le> t \<and> t \<le> length (wk_log w)
      then Some (st_frontier (wk_mem w t), h\<lparr>h_view := load_view (wk_log w) Loc_frontier Relaxed t (h_view h)\<rparr>)
      else None)"

definition see :: "usize \<Rightarrow> nat \<Rightarrow> handle \<Rightarrow> handle" where
  "see idx t h = h\<lparr>h_seen := (unat idx, t) # h_seen h\<rparr>"

definition weak_contains_key :: "'a weak \<Rightarrow> nat \<Rightarrow> usize \<Rightarrow> handle \<Rightarrow> (bool \<times> handle) option" where
  "weak_contains_key w t idx h =
     (if idx \<ge> storage_len (wk_init w) then Some (False, h)
      else case weak_load_word w t (unat (idx div 64)) h of
        None \<Rightarrow> None
      | Some (b, h') \<Rightarrow> if flag_of b (unat idx) \<noteq> 0 then Some (True, see idx t h') else Some (False, h'))"

text \<open>Reading an entry: a race if a store to it is not in the view.\<close>

definition weak_get_unchecked :: "'a weak \<Rightarrow> usize \<Rightarrow> handle \<Rightarrow> 'a res" where
  "weak_get_unchecked w idx h =
     (if last_store (wk_log w) (Loc_entry (unat idx)) (length (wk_log w)) \<le> h_view h (Loc_entry (unat idx))
      then get_unchecked_impl (wk_mem w (length (wk_log w))) idx else Inl Undefined)"

definition weak_get :: "'a weak \<Rightarrow> nat \<Rightarrow> usize \<Rightarrow> handle \<Rightarrow> (('a option) res \<times> handle) option" where
  "weak_get w t idx h =
     (case weak_contains_key w t idx h of
        None \<Rightarrow> None
      | Some (b, h') \<Rightarrow>
          Some (if b then rbind (weak_get_unchecked w idx h') (\<lambda>v. Inr (Some v)) else Inr None, h'))"

text \<open>\<open>Iter::new\<close> and the loop of \<open>Iter::next\<close>, with a time for each word it loads.\<close>

definition weak_iter_new :: "'a weak \<Rightarrow> nat \<Rightarrow> handle \<Rightarrow> (iter res \<times> handle) option" where
  "weak_iter_new w t h =
     (case weak_load_frontier w t h of
        None \<Rightarrow> None
      | Some (f, h') \<Rightarrow>
          Some (rbind (rassert Panic_assert (f \<le> st_size (wk_init w))) (\<lambda>_. Inr \<lparr>it_head = 0, it_tail = f\<rparr>), h'))"

fun weak_iter_next_loop :: "'a weak \<Rightarrow> nat list \<Rightarrow> iter \<Rightarrow> handle \<Rightarrow> ((iter \<times> (usize \<times> 'a) option) res \<times> handle) option" where
  "weak_iter_next_loop w [] it h = None"
| "weak_iter_next_loop w (t # ts) it h =
     (case weak_load_word w t (unat (it_head it div 64)) h of
        None \<Rightarrow> None
      | Some (b, h') \<Rightarrow>
          let bme = drop_bit (unat (it_head it mod 64)) b; d = next_distance bme (it_head it) in
          (if d \<ge> it_tail it - it_head it then Some (Inr (it\<lparr>it_head := it_tail it\<rparr>, None), h')
           else let idx = it_head it + d in
             if bme \<noteq> 0 then
               (let h'' = see idx t h' in
                Some (rbind (weak_get_unchecked w idx h'') (\<lambda>v. Inr (it\<lparr>it_head := idx + 1\<rparr>, Some (idx, v))), h''))
             else weak_iter_next_loop w ts (it\<lparr>it_head := idx\<rparr>) h'))"

definition weak_iter_next :: "'a weak \<Rightarrow> nat list \<Rightarrow> iter \<Rightarrow> handle \<Rightarrow> ((iter \<times> (usize \<times> 'a) option) res \<times> handle) option" where
  "weak_iter_next w ts it h =
     (if it_head it \<ge> it_tail it then Some (Inr (it, None), h) else weak_iter_next_loop w ts it h)"

text \<open>The loop of \<open>Iter::next_back\<close>.\<close>

fun weak_iter_next_back_loop :: "'a weak \<Rightarrow> nat list \<Rightarrow> iter \<Rightarrow> handle \<Rightarrow> ((iter \<times> (usize \<times> 'a) option) res \<times> handle) option" where
  "weak_iter_next_back_loop w [] it h = None"
| "weak_iter_next_back_loop w (t # ts) it h =
     (let t1 = it_tail it - 1 in
      case weak_load_word w t (unat (t1 div 64)) h of
        None \<Rightarrow> None
      | Some (b, h') \<Rightarrow>
          let bme = push_bit (64 - (unat (t1 mod 64) + 1)) b; d = back_distance bme t1 in
          (if d \<ge> it_tail it - it_head it then Some (Inr (it\<lparr>it_tail := it_head it\<rparr>, None), h')
           else if bme \<noteq> 0 then
             (let idx = it_tail it - d - 1; h'' = see idx t h' in
              Some (rbind (weak_get_unchecked w idx h'') (\<lambda>v. Inr (it\<lparr>it_tail := idx\<rparr>, Some (idx, v))), h''))
           else weak_iter_next_back_loop w ts (it\<lparr>it_tail := it_tail it - d\<rparr>) h'))"

definition weak_iter_next_back :: "'a weak \<Rightarrow> nat list \<Rightarrow> iter \<Rightarrow> handle \<Rightarrow> ((iter \<times> (usize \<times> 'a) option) res \<times> handle) option" where
  "weak_iter_next_back w ts it h =
     (if it_tail it \<le> it_head it then Some (Inr (it, None), h) else weak_iter_next_back_loop w ts it h)"

section \<open>Programs\<close>

text \<open>
  One step of a program. The writer's operations are those of \<open>Cslab\<close>; each of their stores is a step of
  its own. A handle is taken from the writer between operations and passed on with a synchronization,
  or cloned; dropping it synchronizes with the writer. \<open>finalize_remove\<close> is called as its safety
  requirement says: when every handle taken before the mark has been dropped.
\<close>

inductive weak_step :: "'a weak \<Rightarrow> 'a weak \<Rightarrow> bool" where
  weak_insert: "wk_todo w = [] \<Longrightarrow> cslab_insert (wk_slab w) v = Inr (s', Inr idx) \<Longrightarrow>
    weak_step w (w\<lparr>wk_slab := s', wk_todo := insert_stores (wk_slab w) v\<rparr>)"
| weak_mark: "wk_todo w = [] \<Longrightarrow> cslab_mark_removed (wk_slab w) idx = Inr s' \<Longrightarrow>
    weak_step w (w\<lparr>wk_slab := s', wk_todo := mark_stores (wk_slab w) idx,
      wk_marks := (idx, length (wk_log w) + 1) # wk_marks w\<rparr>)"
| weak_finalize: "wk_todo w = [] \<Longrightarrow> (idx, t) \<in> set (wk_marks w) \<Longrightarrow> \<forall>h \<in> set (wk_handles w). t \<le> h_birth h \<Longrightarrow>
    cslab_finalize_remove (wk_slab w) idx = Inr (s', v) \<Longrightarrow>
    weak_step w (w\<lparr>wk_slab := s', wk_todo := finalize_stores (wk_slab w) idx,
      wk_marks := filter (\<lambda>(i, _). i \<noteq> idx) (wk_marks w)\<rparr>)"
| weak_store: "wk_todo w = e # es \<Longrightarrow> weak_step w (w\<lparr>wk_log := wk_log w @ [e], wk_todo := es\<rparr>)"
| weak_reader: "wk_todo w = [] \<Longrightarrow>
    weak_step w (w\<lparr>wk_handles := \<lparr>h_birth = length (wk_log w), h_view = (\<lambda>_. length (wk_log w)), h_seen = []\<rparr> # wk_handles w\<rparr>)"
| weak_clone: "h \<in> set (wk_handles w) \<Longrightarrow> weak_step w (w\<lparr>wk_handles := h\<lparr>h_seen := []\<rparr> # wk_handles w\<rparr>)"
| weak_drop: "wk_handles w = hs1 @ h # hs2 \<Longrightarrow> weak_step w (w\<lparr>wk_handles := hs1 @ hs2\<rparr>)"
| weak_read: "wk_handles w = hs1 @ h # hs2 \<Longrightarrow> weak_contains_key w t idx h = Some (b, h') \<Longrightarrow>
    weak_step w (w\<lparr>wk_handles := hs1 @ h' # hs2\<rparr>)"
| weak_frontier: "wk_handles w = hs1 @ h # hs2 \<Longrightarrow> weak_iter_new w t h = Some (r, h') \<Longrightarrow>
    weak_step w (w\<lparr>wk_handles := hs1 @ h' # hs2\<rparr>)"
| weak_next: "wk_handles w = hs1 @ h # hs2 \<Longrightarrow> weak_iter_next w ts it h = Some (r, h') \<Longrightarrow>
    it_tail it \<le> st_size (wk_init w) \<Longrightarrow> weak_step w (w\<lparr>wk_handles := hs1 @ h' # hs2\<rparr>)"
| weak_next_back: "wk_handles w = hs1 @ h # hs2 \<Longrightarrow> weak_iter_next_back w ts it h = Some (r, h') \<Longrightarrow>
    it_tail it \<le> st_size (wk_init w) \<Longrightarrow> weak_step w (w\<lparr>wk_handles := hs1 @ h' # hs2\<rparr>)"

inductive weak_reach :: "layout \<Rightarrow> usize \<Rightarrow> 'a weak \<Rightarrow> bool" for ent n where
  weak_start: "cslab_with_fixed_capacity ent n = Inr s \<Longrightarrow>
    weak_reach ent n \<lparr>wk_init = storage s, wk_slab = s, wk_log = [], wk_todo = [], wk_handles = [], wk_marks = []\<rparr>"
| weak_more: "weak_reach ent n w \<Longrightarrow> weak_step w w' \<Longrightarrow> weak_reach ent n w'"

text \<open>The writer can make all the stores of its current operation.\<close>

lemma weak_reach_steps: "rtranclp weak_step w w' \<Longrightarrow> weak_reach ent n w \<Longrightarrow> weak_reach ent n w'"
  by (induction rule: rtranclp_induct) (auto intro: weak_more)

lemma weak_flush_steps: "rtranclp weak_step w (w\<lparr>wk_log := wk_log w @ wk_todo w, wk_todo := []\<rparr>)"
proof (induction "wk_todo w" arbitrary: w)
  case Nil
  then have "w\<lparr>wk_log := wk_log w @ wk_todo w, wk_todo := []\<rparr> = w" by simp
  then show ?case by simp
next
  case (Cons e es)
  let ?w = "w\<lparr>wk_log := wk_log w @ [e], wk_todo := es\<rparr>"
  have "weak_step w ?w" by (rule weak_store [OF Cons.hyps(2) [symmetric]])
  moreover have "rtranclp weak_step ?w (w\<lparr>wk_log := wk_log w @ wk_todo w, wk_todo := []\<rparr>)"
    using Cons.hyps(1) [of ?w] by (simp add: Cons.hyps(2) [symmetric])
  ultimately show ?case by (rule converse_rtranclp_into_rtranclp)
qed

lemma weak_flush:
  "weak_reach ent n w \<Longrightarrow> weak_reach ent n (w\<lparr>wk_log := wk_log w @ wk_todo w, wk_todo := []\<rparr>)"
  by (rule weak_reach_steps [OF weak_flush_steps])

section \<open>The log\<close>

lemma mem_at_0 [simp]: "mem_at init log 0 = init"
  by (simp add: mem_at_def)

lemma mem_at_Suc: "t < length log \<Longrightarrow> mem_at init log (Suc t) = apply_store (log ! t) (mem_at init log t)"
  by (simp add: mem_at_def take_Suc_conv_app_nth)

lemma mem_at_append [simp]: "t \<le> length log \<Longrightarrow> mem_at init (log @ es) t = mem_at init log t"
  by (simp add: mem_at_def)

lemma mem_at_snoc: "mem_at init (log @ [e]) (Suc (length log)) = apply_store e (mem_at init log (length log))"
  by (simp add: mem_at_def)

lemma mem_at_all: "mem_at init log (length log) = fold apply_store log init"
  by (simp add: mem_at_def)

lemma last_store_le: "last_store log l t \<le> t"
  by (induction t) auto

lemma last_store_mono: "t \<le> t' \<Longrightarrow> last_store log l t \<le> last_store log l t'"
proof (induction t' rule: dec_induct)
  case (step n)
  then show ?case using last_store_le [of log l n] by auto
qed simp

lemma last_store_append [simp]: "t \<le> length log \<Longrightarrow> last_store (log @ es) l t = last_store log l t"
  by (induction t) (auto simp: nth_append)

lemma last_store_snoc:
  "last_store (log @ [e]) l (Suc (length log)) = (if store_loc e = l then Suc (length log) else last_store log l (length log))"
  by simp

lemma last_store_between:
  assumes "last_store log l t \<le> p" and "p \<le> t"
  shows "last_store log l p = last_store log l t"
  using assms(2,1) by (induction t rule: dec_induct) (auto split: if_splits)

lemma last_store_at:
  assumes "0 < last_store log l t"
  shows "last_store log l t \<le> length log \<and> store_loc (log ! (last_store log l t - 1)) = l"
  using assms by (induction t) (auto split: if_splits)

text \<open>A location keeps its contents while there is no store to it.\<close>

lemma entry_stable:
  assumes "last_store log (Loc_entry i) t \<le> p" and "p \<le> t" and "t \<le> length log"
  shows "st_table (mem_at init log t) ! i = st_table (mem_at init log p) ! i"
  using assms(2,1,3)
proof (induction t rule: dec_induct)
  case (step n)
  have "store_loc (log ! n) \<noteq> Loc_entry i" using step.prems step.hyps by (auto split: if_splits)
  then have "st_table (mem_at init log (Suc n)) ! i = st_table (mem_at init log n) ! i"
    using step.prems by (cases "log ! n") (simp_all add: mem_at_Suc)
  then show ?case using step by (auto split: if_splits)
qed simp

lemma word_stable:
  assumes "last_store log (Loc_word k) t \<le> p" and "p \<le> t" and "t \<le> length log"
  shows "st_bitmap (mem_at init log t) ! k = st_bitmap (mem_at init log p) ! k"
  using assms(2,1,3)
proof (induction t rule: dec_induct)
  case (step n)
  have "store_loc (log ! n) \<noteq> Loc_word k" using step.prems step.hyps by (auto split: if_splits)
  then have "st_bitmap (mem_at init log (Suc n)) ! k = st_bitmap (mem_at init log n) ! k"
    using step.prems by (cases "log ! n") (simp_all add: mem_at_Suc)
  then show ?case using step by (auto split: if_splits)
qed simp

lemma mem_at_lengths:
  "length (st_table (mem_at init log t)) = length (st_table init)"
  "length (st_bitmap (mem_at init log t)) = length (st_bitmap init)"
  "st_size (mem_at init log t) = st_size init"
proof -
  have "length (st_table (fold apply_store es init)) = length (st_table init) \<and>
    length (st_bitmap (fold apply_store es init)) = length (st_bitmap init) \<and> st_size (fold apply_store es init) = st_size init" for es
  proof (induction es rule: rev_induct)
    case (snoc e es)
    then show ?case by (cases e) simp_all
  qed simp
  then show "length (st_table (mem_at init log t)) = length (st_table init)"
    "length (st_bitmap (mem_at init log t)) = length (st_bitmap init)" "st_size (mem_at init log t) = st_size init"
    by (simp_all add: mem_at_def)
qed

text \<open>The stores of an operation have the effect of the operation.\<close>

lemma raise_frontier_value:
  "raise_frontier st idx = Inr st' \<Longrightarrow> st' = st\<lparr>st_frontier := (if idx \<ge> st_frontier st then idx + 1 else st_frontier st)\<rparr>"
  by (auto simp: raise_frontier_def uadd_def split: if_splits)

lemma insert_stores_effect:
  assumes "cslab_insert s v = Inr (s', Inr idx)"
  shows "idx = first_free s" and "unat idx < length (st_table (storage s))"
    and "fold apply_store (insert_stores s v) (storage s) = storage s'"
  using assms unfolding cslab_insert_def insert_stores_def Let_def
  by (auto simp: res_simps store_flags_def load_flags_def dest!: raise_frontier_value split: if_splits)

lemma mark_stores_effect:
  assumes "cslab_mark_removed s idx = Inr s'"
  shows "fold apply_store (mark_stores s idx) (storage s) = storage s'"
  using assms unfolding cslab_mark_removed_def mark_stores_def Let_def
  by (auto simp: res_simps store_flags_def load_flags_def)

lemma finalize_stores_effect:
  assumes "cslab_finalize_remove s idx = Inr (s', v)"
  shows "fold apply_store (finalize_stores s idx) (storage s) = storage s'"
  using assms unfolding cslab_finalize_remove_def finalize_stores_def Let_def
  by (auto simp: res_simps ssub_def split: if_splits)

end
