(* ===== verification/Cslab_Weak_Inv.thy ===== *)
theory Cslab_Weak_Inv
  imports Cslab_Weak
begin

text \<open>
  The invariant of concurrent readers: whatever flag a reader can still read as set belongs to an
  entry that has not been stored to since, and the release store that set it brings that entry and
  the frontier into the reader's view. One lemma per store of the writer and per load of a reader.
\<close>

section \<open>The invariant\<close>

text \<open>
  \<open>flagged\<close>: the flag of index \<open>i\<close> is set at time \<open>t\<close>. \<open>known_safe\<close> for a word and a bound: whatever the
  word's contents are read at a time from the bound on, a set flag was written by a release store,
  and there is no store to the entry behind that one.
\<close>

definition flagged :: "'a cslab_storage \<Rightarrow> 'a store list \<Rightarrow> nat \<Rightarrow> nat \<Rightarrow> bool" where
  "flagged init F t i \<longleftrightarrow> flag_at (st_bitmap (mem_at init F t)) i"

definition known_safe :: "'a cslab_storage \<Rightarrow> 'a store list \<Rightarrow> nat \<Rightarrow> nat \<Rightarrow> bool" where
  "known_safe init F k b \<longleftrightarrow>
     (\<forall>t i. b \<le> t \<and> t \<le> length F \<and> i div 64 = k \<and> flagged init F t i \<longrightarrow>
        0 < last_store F (Loc_word k) t \<and> store_order (F ! (last_store F (Loc_word k) t - 1)) = Release \<and>
        last_store F (Loc_entry i) (length F) \<le> last_store F (Loc_word k) t)"

definition hist_ok :: "'a cslab_storage \<Rightarrow> 'a store list \<Rightarrow> bool" where
  "hist_ok init F \<longleftrightarrow> (\<forall>t \<le> length F. storage_wf (mem_at init F t)) \<and>
     (\<forall>t < length F. st_frontier (mem_at init F t) \<le> st_frontier (mem_at init F (Suc t)))"

definition handle_ok :: "'a cslab_storage \<Rightarrow> 'a store list \<Rightarrow> nat \<Rightarrow> handle \<Rightarrow> bool" where
  "handle_ok init F n h \<longleftrightarrow>
     (\<forall>l. h_birth h \<le> h_view h l \<and> h_view h l \<le> n) \<and> (\<forall>k. known_safe init F k (h_view h (Loc_word k))) \<and>
     (\<forall>(i, t) \<in> set (h_seen h). h_birth h \<le> t \<and> t \<le> n \<and> flagged init F t i \<and>
        last_store F (Loc_entry i) (length F) \<le> min t (h_view h (Loc_entry i)) \<and>
        i < unat (st_frontier (mem_at init F (h_view h Loc_frontier))))"

definition mark_ok :: "'a cslab_storage \<Rightarrow> 'a store list \<Rightarrow> usize \<times> nat \<Rightarrow> bool" where
  "mark_ok init F = (\<lambda>(i, t). t \<le> length F \<and> slot_at (mem_at init F (length F)) (unat i) \<noteq> None \<and>
     (\<forall>p. t \<le> p \<and> p \<le> length F \<longrightarrow> \<not> flagged init F p (unat i)))"

definition log_inv :: "'a cslab_storage \<Rightarrow> 'a store list \<Rightarrow> nat \<Rightarrow> handle list \<Rightarrow> (usize \<times> nat) list \<Rightarrow> bool" where
  "log_inv init F n hs ms \<longleftrightarrow> hist_ok init F \<and> (\<forall>k. known_safe init F k (length F)) \<and>
     (\<forall>h \<in> set hs. handle_ok init F n h) \<and> (\<forall>m \<in> set ms. mark_ok init F m)"

definition weak_inv :: "'a weak \<Rightarrow> bool" where
  "weak_inv w \<longleftrightarrow> cslab_wf (wk_slab w) \<and>
     storage (wk_slab w) = mem_at (wk_init w) (wk_log w @ wk_todo w) (length (wk_log w @ wk_todo w)) \<and>
     log_inv (wk_init w) (wk_log w @ wk_todo w) (length (wk_log w)) (wk_handles w) (wk_marks w)"

lemma flagged_append [simp]: "t \<le> length F \<Longrightarrow> flagged init (F @ es) t i = flagged init F t i"
  by (simp add: flagged_def)

lemma flagged_snoc_iff:
  assumes "store_loc e \<noteq> Loc_word (i div 64)"
  shows "flagged init (F @ [e]) (Suc (length F)) i \<longleftrightarrow> flagged init F (length F) i"
  using assms by (cases e) (auto simp: flagged_def mem_at_snoc flag_at_def)

lemma known_safe_mono:
  assumes "known_safe init F k b" and "b \<le> c"
  shows "known_safe init F k c"
  unfolding known_safe_def
proof (intro allI impI, elim conjE)
  fix t i assume "c \<le> t" "t \<le> length F" "i div 64 = k" "flagged init F t i"
  moreover have "b \<le> t" using assms(2) \<open>c \<le> t\<close> by (rule order_trans)
  ultimately show "0 < last_store F (Loc_word k) t \<and> store_order (F ! (last_store F (Loc_word k) t - 1)) = Release \<and>
      last_store F (Loc_entry i) (length F) \<le> last_store F (Loc_word k) t"
    using assms(1) unfolding known_safe_def by blast
qed

lemma known_safeD:
  assumes "known_safe init F (i div 64) b" and "b \<le> t" and "t \<le> length F" and "flagged init F t i"
  shows "0 < last_store F (Loc_word (i div 64)) t"
    and "store_order (F ! (last_store F (Loc_word (i div 64)) t - 1)) = Release"
    and "last_store F (Loc_entry i) (length F) \<le> last_store F (Loc_word (i div 64)) t"
  using assms unfolding known_safe_def by blast+

lemma known_safe_snoc:
  assumes safe: "known_safe init F k b" and b: "b \<le> length F"
    and entry: "\<And>i t. store_loc e = Loc_entry i \<Longrightarrow> i div 64 = k \<Longrightarrow> b \<le> t \<Longrightarrow> t \<le> length F \<Longrightarrow> \<not> flagged init F t i"
    and rel: "\<And>j. store_loc e = Loc_word j \<Longrightarrow> store_order e = Release"
  shows "known_safe init (F @ [e]) k b"
  unfolding known_safe_def
proof (intro allI impI, elim conjE)
  fix t i assume t: "b \<le> t" "t \<le> length (F @ [e])" and k: "i div 64 = k" and set: "flagged init (F @ [e]) t i"
  let ?m = "last_store (F @ [e]) (Loc_word k) t"
  show "0 < ?m \<and> store_order ((F @ [e]) ! (?m - 1)) = Release \<and> last_store (F @ [e]) (Loc_entry i) (length (F @ [e])) \<le> ?m"
  proof (cases "t = Suc (length F) \<and> store_loc e = Loc_word k")
    case True
    then show ?thesis using rel last_store_le [of F "Loc_entry i" "length F"] by (auto simp: nth_append)
  next
    case False
    define p where "p = min t (length F)"
    have p: "b \<le> p" "p \<le> length F" using t b by (auto simp: p_def)
    have fl: "flagged init F p i"
      using set False k t flagged_snoc_iff [of e i init F] by (cases "t \<le> length F") (auto simp: p_def le_Suc_eq)
    have m: "?m = last_store F (Loc_word k) p"
      using False t by (cases "t \<le> length F") (auto simp: p_def le_Suc_eq)
    note old = known_safeD [OF safe [folded k] p fl, unfolded k]
    have "store_loc e \<noteq> Loc_entry i" using entry [OF _ k p] fl by blast
    then show ?thesis using old last_store_at [OF old(1)] m by (auto simp: nth_append)
  qed
qed

text \<open>A flag that can be read as set is that of an occupied slot, whose item has not changed since.\<close>

lemma seen_slot:
  assumes "hist_ok init F" and "flagged init F t i" and "last_store F (Loc_entry i) (length F) \<le> t"
    and "t \<le> p" and "p \<le> length F"
  shows "\<exists>v. slot_at (mem_at init F p) i = Some v \<and> slot_at (mem_at init F t) i = Some v"
proof -
  have wf: "storage_wf (mem_at init F t)" using assms by (simp add: hist_ok_def)
  obtain v where v: "slot_at (mem_at init F t) i = Some v"
    using storage_wf_dests(6) [OF wf] assms(2) by (auto simp: flagged_def)
  moreover have "st_table (mem_at init F p) ! i = st_table (mem_at init F t) ! i"
    using entry_stable [of F i p t init] last_store_mono [OF assms(5), of F "Loc_entry i"] assms(3-5) by simp
  ultimately show ?thesis by (simp add: slot_at_Some_iff mem_at_lengths)
qed

lemma readable_slot:
  assumes "hist_ok init F" and "known_safe init F (i div 64) b" and "b \<le> t" and "t \<le> length F" and "flagged init F t i"
  shows "slot_at (mem_at init F (length F)) i \<noteq> None"
proof -
  have "last_store F (Loc_entry i) (length F) \<le> t"
    using known_safeD(3) [OF assms(2-5)] last_store_le [of F "Loc_word (i div 64)" t] by linarith
  then show ?thesis using seen_slot [OF assms(1,5) _ assms(4) order_refl] by auto
qed

section \<open>The writer keeps the invariant\<close>

lemma hist_ok_snoc:
  assumes "hist_ok init F" and "storage_wf (apply_store e (mem_at init F (length F)))"
    and "st_frontier (mem_at init F (length F)) \<le> st_frontier (apply_store e (mem_at init F (length F)))"
  shows "hist_ok init (F @ [e])"
  using assms unfolding hist_ok_def by (auto simp: mem_at_snoc le_Suc_eq less_Suc_eq Suc_le_eq)

lemma handle_ok_snoc:
  assumes h: "handle_ok init F n h" and n: "n \<le> length F"
    and entry: "\<And>i t. store_loc e = Loc_entry i \<Longrightarrow> h_view h (Loc_word (i div 64)) \<le> t \<Longrightarrow> t \<le> length F \<Longrightarrow> \<not> flagged init F t i"
    and seen: "\<And>i t. store_loc e = Loc_entry i \<Longrightarrow> (i, t) \<notin> set (h_seen h)"
    and rel: "\<And>j. store_loc e = Loc_word j \<Longrightarrow> store_order e = Release"
  shows "handle_ok init (F @ [e]) n h"
  unfolding handle_ok_def
proof (intro conjI allI ballI)
  fix k
  have "h_view h (Loc_word k) \<le> length F" using h n unfolding handle_ok_def by (meson order_trans)
  then show "known_safe init (F @ [e]) k (h_view h (Loc_word k))"
    using h entry rel by (intro known_safe_snoc) (auto simp: handle_ok_def)
next
  fix x assume x: "x \<in> set (h_seen h)"
  obtain i t where it: "x = (i, t)" by (cases x)
  have "store_loc e \<noteq> Loc_entry i" using seen [of i t] x it by blast
  moreover have "h_view h Loc_frontier \<le> length F" using h n unfolding handle_ok_def by (meson order_trans)
  ultimately show "case x of (i, t) \<Rightarrow> h_birth h \<le> t \<and> t \<le> n \<and> flagged init (F @ [e]) t i \<and>
      last_store (F @ [e]) (Loc_entry i) (length (F @ [e])) \<le> min t (h_view h (Loc_entry i)) \<and>
      i < unat (st_frontier (mem_at init (F @ [e]) (h_view h Loc_frontier)))"
    using h n x it by (fastforce simp: handle_ok_def)
qed (use h in \<open>simp_all add: handle_ok_def\<close>)

lemma mark_ok_snoc:
  assumes "mark_ok init F (i, t)" and "slot_at (apply_store e (mem_at init F (length F))) (unat i) \<noteq> None"
    and "\<not> flagged init (F @ [e]) (Suc (length F)) (unat i)"
  shows "mark_ok init (F @ [e]) (i, t)"
  using assms unfolding mark_ok_def by (auto simp: mem_at_snoc le_Suc_eq)

text \<open>One more store, to an entry of which no reader can have read the flag as set, or a release store to a word.\<close>

lemma log_inv_snoc:
  assumes inv: "log_inv init F n hs ms" and n: "n \<le> length F"
    and wf: "storage_wf (apply_store e (mem_at init F (length F)))"
    and fr: "st_frontier (mem_at init F (length F)) \<le> st_frontier (apply_store e (mem_at init F (length F)))"
    and now: "\<And>i. store_loc e = Loc_entry i \<Longrightarrow> \<not> flagged init F (length F) i"
    and unread: "\<And>i h t. store_loc e = Loc_entry i \<Longrightarrow> h \<in> set hs \<Longrightarrow> h_view h (Loc_word (i div 64)) \<le> t \<Longrightarrow>
      t \<le> length F \<Longrightarrow> \<not> flagged init F t i"
    and unseen: "\<And>i h t. store_loc e = Loc_entry i \<Longrightarrow> h \<in> set hs \<Longrightarrow> (i, t) \<notin> set (h_seen h)"
    and rel: "\<And>j. store_loc e = Loc_word j \<Longrightarrow> store_order e = Release"
    and marks: "\<And>i t. (i, t) \<in> set ms \<Longrightarrow> slot_at (apply_store e (mem_at init F (length F))) (unat i) \<noteq> None \<and>
      \<not> flagged init (F @ [e]) (Suc (length F)) (unat i)"
  shows "log_inv init (F @ [e]) n hs ms"
  unfolding log_inv_def
proof (intro conjI allI ballI)
  show "hist_ok init (F @ [e])" using inv wf fr by (intro hist_ok_snoc) (simp_all add: log_inv_def)
  fix k
  have "known_safe init (F @ [e]) k (length F)"
    using inv now rel by (intro known_safe_snoc) (auto simp: log_inv_def dest: le_antisym)
  then show "known_safe init (F @ [e]) k (length (F @ [e]))" by (rule known_safe_mono) simp
next
  fix h assume "h \<in> set hs"
  then show "handle_ok init (F @ [e]) n h"
    using inv n unread unseen rel by (intro handle_ok_snoc) (auto simp: log_inv_def)
next
  fix m assume m: "m \<in> set ms"
  obtain i t where it: "m = (i, t)" by (cases m)
  with m inv marks show "mark_ok init (F @ [e]) m" by (auto simp: log_inv_def intro!: mark_ok_snoc)
qed

text \<open>A store to the entry of a free slot, and of one whose removal every handle has been told of.\<close>

lemma free_slot_unread:
  assumes "log_inv init F n hs ms" and "n \<le> length F" and "slot_at (mem_at init F (length F)) i = None"
  shows "\<not> flagged init F (length F) i"
    and "h \<in> set hs \<Longrightarrow> h_view h (Loc_word (i div 64)) \<le> t \<Longrightarrow> t \<le> length F \<Longrightarrow> \<not> flagged init F t i"
    and "h \<in> set hs \<Longrightarrow> (i, t) \<notin> set (h_seen h)"
proof -
  have hist: "hist_ok init F" using assms(1) by (simp add: log_inv_def)
  show "\<not> flagged init F (length F) i"
    using readable_slot [OF hist _ order_refl order_refl, of i] assms(1,3) by (auto simp: log_inv_def)
  show "\<not> flagged init F t i" if "h \<in> set hs" "h_view h (Loc_word (i div 64)) \<le> t" "t \<le> length F"
    using readable_slot [OF hist _ that(2,3), of i] assms(1,3) that(1) by (auto simp: log_inv_def handle_ok_def)
  show "(i, t) \<notin> set (h_seen h)" if h: "h \<in> set hs"
  proof
    assume "(i, t) \<in> set (h_seen h)"
    then have "flagged init F t i" "last_store F (Loc_entry i) (length F) \<le> t" "t \<le> length F"
      using assms(1,2) h by (fastforce simp: log_inv_def handle_ok_def)+
    then show False using seen_slot [OF hist _ _ _ order_refl] assms(3) by fastforce
  qed
qed

lemma told_slot_unread:
  assumes "log_inv init F n hs ms" and "n \<le> length F" and "mark_ok init F (i, m)" and "\<forall>h \<in> set hs. m \<le> h_birth h"
  shows "\<not> flagged init F (length F) (unat i)"
    and "h \<in> set hs \<Longrightarrow> h_view h l \<le> t \<Longrightarrow> t \<le> length F \<Longrightarrow> \<not> flagged init F t (unat i)"
    and "h \<in> set hs \<Longrightarrow> (unat i, t) \<notin> set (h_seen h)"
proof -
  have clear: "\<not> flagged init F p (unat i)" if "m \<le> p" "p \<le> length F" for p
    using assms(3) that by (simp add: mark_ok_def)
  show "\<not> flagged init F (length F) (unat i)" using assms(3) by (intro clear) (simp_all add: mark_ok_def)
  show "\<not> flagged init F t (unat i)" if h: "h \<in> set hs" and t: "h_view h l \<le> t" "t \<le> length F"
  proof -
    have "h_birth h \<le> h_view h l" using assms(1) h by (simp add: log_inv_def handle_ok_def)
    then have "m \<le> t" using assms(4) h t(1) by (meson order_trans)
    then show ?thesis using t(2) by (rule clear)
  qed
  show "(unat i, t) \<notin> set (h_seen h)" if h: "h \<in> set hs"
  proof
    assume "(unat i, t) \<in> set (h_seen h)"
    then have "h_birth h \<le> t" "t \<le> length F" "flagged init F t (unat i)"
      using assms(1,2) h by (fastforce simp: log_inv_def handle_ok_def)+
    then show False using clear [of t] assms(4) h by (meson order_trans)
  qed
qed

lemma slot_at_update [simp]:
  "slot_at (st\<lparr>st_frontier := f\<rparr>) j = slot_at st j" "slot_at (st\<lparr>st_bitmap := bm\<rparr>) j = slot_at st j"
  by (simp_all add: slot_at_def)

lemma entry_store_slot:
  "slot_at (st\<lparr>st_table := (st_table st)[i := e]\<rparr>) j =
     (if j = i \<and> i < length (st_table st) then (case e of Item v \<Rightarrow> Some v | Next_free _ \<Rightarrow> None) else slot_at st j)"
  by (auto simp: slot_at_def nth_list_update)

lemma entry_store_wf:
  assumes "storage_wf st" and "\<not> flag_at (st_bitmap st) i"
  shows "storage_wf (apply_store (St_entry i e) st)"
proof -
  have "slot_at (apply_store (St_entry i e) st) j \<noteq> None" if "flag_at (st_bitmap st) j" for j
    using that assms storage_wf_dests(6) [OF assms(1) that] by (auto simp: entry_store_slot)
  then show ?thesis using assms(1) by (simp add: storage_wf_def)
qed

lemma frontier_store_wf:
  assumes "storage_wf st" and "st_frontier st \<le> f" and "f \<le> st_size st"
  shows "storage_wf (apply_store (St_frontier f ord) st)"
  using assms by (auto simp: storage_wf_def word_le_nat_alt)

lemma word_store_flag:
  assumes "k < length (st_bitmap st)" and "k = i div 64"
  shows "flag_at (st_bitmap (apply_store (St_word k (set_flag (st_bitmap st ! k) i) ord) st)) j \<longleftrightarrow> j = i \<or> flag_at (st_bitmap st) j"
    and "flag_at (st_bitmap (apply_store (St_word k (clear_flag (st_bitmap st ! k) i) ord) st)) j \<longleftrightarrow> j \<noteq> i \<and> flag_at (st_bitmap st) j"
  using flag_at_set [of i "st_bitmap st" j] flag_at_clear [of i "st_bitmap st" j] assms by simp_all

lemma log_inv_frontier:
  assumes inv: "log_inv init F n hs ms" and n: "n \<le> length F" and st: "mem_at init F (length F) = st"
    and f: "st_frontier st \<le> f" "f \<le> st_size st"
  shows "log_inv init (F @ [St_frontier f ord]) n hs ms"
proof (rule log_inv_snoc [OF inv n])
  have wf: "storage_wf st" using inv st by (auto simp: log_inv_def hist_ok_def)
  then show "storage_wf (apply_store (St_frontier f ord) (mem_at init F (length F)))"
    unfolding st using f by (rule frontier_store_wf)
  fix i t assume "(i, t) \<in> set ms"
  then have m: "mark_ok init F (i, t)" using inv by (auto simp: log_inv_def)
  then have "\<not> flagged init F (length F) (unat i)" by (simp add: mark_ok_def)
  then show "slot_at (apply_store (St_frontier f ord) (mem_at init F (length F))) (unat i) \<noteq> None \<and>
      \<not> flagged init (F @ [St_frontier f ord]) (Suc (length F)) (unat i)"
    using m by (simp add: mark_ok_def flagged_snoc_iff)
qed (use st f in simp_all)

text \<open>
  Stores of a word: a new flag, of an index not marked and whose entry has an item and is below the
  frontier, and a cleared flag.
\<close>

lemma log_inv_word:
  assumes inv: "log_inv init F n hs ms" and n: "n \<le> length F" and st: "mem_at init F (length F) = st"
    and wf: "storage_wf (apply_store (St_word k w Release) st)"
    and marks: "\<And>i t. (i, t) \<in> set ms \<Longrightarrow> \<not> flag_at (st_bitmap (apply_store (St_word k w Release) st)) (unat i)"
  shows "log_inv init (F @ [St_word k w Release]) n hs ms"
proof (rule log_inv_snoc [OF inv n])
  fix i t assume it: "(i, t) \<in> set ms"
  then have "mark_ok init F (i, t)" using inv by (auto simp: log_inv_def)
  then show "slot_at (apply_store (St_word k w Release) (mem_at init F (length F))) (unat i) \<noteq> None \<and>
      \<not> flagged init (F @ [St_word k w Release]) (Suc (length F)) (unat i)"
    using marks [OF it] st by (simp add: mark_ok_def flagged_def mem_at_snoc)
qed (use st wf in simp_all)

lemma log_inv_entry:
  assumes inv: "log_inv init F n hs ms" and n: "n \<le> length F" and st: "mem_at init F (length F) = st"
    and unread: "\<not> flagged init F (length F) i"
      "\<And>h t. h \<in> set hs \<Longrightarrow> h_view h (Loc_word (i div 64)) \<le> t \<Longrightarrow> t \<le> length F \<Longrightarrow> \<not> flagged init F t i"
      "\<And>h t. h \<in> set hs \<Longrightarrow> (i, t) \<notin> set (h_seen h)"
    and marks: "\<And>j t. (j, t) \<in> set ms \<Longrightarrow> unat j \<noteq> i"
  shows "log_inv init (F @ [St_entry i e]) n hs ms"
proof (rule log_inv_snoc [OF inv n])
  have "storage_wf st" using inv st by (auto simp: log_inv_def hist_ok_def)
  then show "storage_wf (apply_store (St_entry i e) (mem_at init F (length F)))"
    unfolding st using unread(1) st by (intro entry_store_wf) (simp_all add: flagged_def)
  fix j t assume jt: "(j, t) \<in> set ms"
  then have "mark_ok init F (j, t)" using inv by (auto simp: log_inv_def)
  moreover from this have "\<not> flagged init F (length F) (unat j)" by (simp add: mark_ok_def)
  ultimately show "slot_at (apply_store (St_entry i e) (mem_at init F (length F))) (unat j) \<noteq> None \<and>
      \<not> flagged init (F @ [St_entry i e]) (Suc (length F)) (unat j)"
    using marks [OF jt] by (simp add: mark_ok_def flagged_snoc_iff entry_store_slot)
qed (use unread in auto)

lemma marks_slot:
  assumes "log_inv init F n hs ms" and "(j, t) \<in> set ms"
  shows "slot_at (mem_at init F (length F)) (unat j) \<noteq> None" and "\<not> flagged init F (length F) (unat j)"
  using assms by (auto simp: log_inv_def mark_ok_def)

lemma log_inv_insert:
  assumes inv: "log_inv init F n hs ms" and n: "n \<le> length F" and st: "storage s = mem_at init F (length F)"
    and wf: "cslab_wf s" and free: "unat (first_free s) < unat (st_size (storage s))"
  shows "log_inv init (F @ insert_stores s v) n hs ms"
proof -
  define st idx k where defs: "st = storage s" "idx = first_free s" "k = unat idx div 64"
  have st_wf: "storage_wf st" and idx: "unat idx < unat (st_size st)" and none: "slot_at st (unat idx) = None"
    using cslab_wf_storage [OF wf] free first_free_cases(2) [OF wf free] by (simp_all add: defs)
  have k: "k < length (st_bitmap st)" using load_flags_ok(2) [OF st_wf idx] by (simp add: defs(3))
  have marks: "unat j \<noteq> unat idx" "\<not> flag_at (st_bitmap st) (unat j)" if "(j, t) \<in> set ms" for j t
    using marks_slot [OF inv that] none st by (auto simp: defs(1) flagged_def)
  have "log_inv init (F @ [St_entry (unat idx) (Item v)]) n hs ms"
    using st none marks(1)
    by (intro log_inv_entry [OF inv n refl] free_slot_unread [OF inv n]) (auto simp: defs(1))
  moreover have "mem_at init (F @ [St_entry (unat idx) (Item v)]) (length (F @ [St_entry (unat idx) (Item v)])) =
      st\<lparr>st_table := (st_table st)[unat idx := Item v]\<rparr>"
    using st by (simp add: mem_at_snoc defs(1))
  moreover define F2 where "F2 = F @ [St_entry (unat idx) (Item v)] @ (if idx \<ge> st_frontier st then [St_frontier (idx + 1) Relaxed] else [])"
  moreover define st2 where "st2 = st\<lparr>st_table := (st_table st)[unat idx := Item v],
      st_frontier := (if idx \<ge> st_frontier st then idx + 1 else st_frontier st)\<rparr>"
  moreover have succ: "unat (idx + 1) = unat idx + 1"
    using idx storage_wf_dests(1) [OF st_wf] by (subst unat_add_no_wrap) simp_all
  ultimately have F2: "log_inv init F2 n hs ms" "mem_at init F2 (length F2) = st2"
    using n idx log_inv_frontier [of init "F @ [St_entry (unat idx) (Item v)]" n hs ms _ "idx + 1" Relaxed]
    by (auto simp: mem_at_def word_le_nat_alt)
  define w where "w = set_flag (st_bitmap st ! k) (unat idx)"
  have "apply_store (St_word k w Release) st2 = fill_slot st idx v"
    by (simp add: st2_def w_def fill_slot_def defs(3))
  then have "storage_wf (apply_store (St_word k w Release) st2)" using fill_slot_wf [OF st_wf idx] by simp
  moreover have "\<not> flag_at (st_bitmap (apply_store (St_word k w Release) st2)) (unat j)" if "(j, t) \<in> set ms" for j t
    using marks [OF that] word_store_flag(1) [of k st2 "unat idx" Release "unat j"] k by (simp add: st2_def w_def defs(3))
  moreover have "n \<le> length F2" using n by (simp add: F2_def)
  ultimately have "log_inv init (F2 @ [St_word k w Release]) n hs ms"
    using F2 by (intro log_inv_word [where st = st2]) auto
  moreover have "F @ insert_stores s v = F2 @ [St_word k w Release]"
    by (simp add: insert_stores_def F2_def w_def defs Let_def unat_div_64)
  ultimately show ?thesis by simp
qed

lemma log_inv_mark:
  assumes inv: "log_inv init F n hs ms" and n: "n \<le> length F" and st: "storage s = mem_at init F (length F)"
    and wf: "cslab_wf s" and set: "flag_at (st_bitmap (storage s)) (unat idx)"
  shows "log_inv init (F @ mark_stores s idx) n hs ((idx, Suc (length F)) # ms)"
proof -
  define st k where defs: "st = storage s" "k = unat idx div 64"
  define w where "w = clear_flag (st_bitmap st ! k) (unat idx)"
  have st_wf: "storage_wf st" and idx: "unat idx < unat (st_size st)"
    using cslab_wf_storage [OF wf] set storage_wf_dests(7) by (auto simp: defs)
  have k: "k < length (st_bitmap st)" using load_flags_ok(2) [OF st_wf idx] by (simp add: defs)
  have "apply_store (St_word k w Release) st = hide_slot st idx" by (simp add: w_def hide_slot_def defs)
  then have "storage_wf (apply_store (St_word k w Release) st)" using hide_slot_wf [OF st_wf idx] by simp
  moreover have flags: "flag_at (st_bitmap (apply_store (St_word k w Release) st)) j \<longleftrightarrow> j \<noteq> unat idx \<and> flag_at (st_bitmap st) j" for j
    using word_store_flag(2) [of k st "unat idx" Release j] k by (simp add: w_def defs)
  moreover have "\<not> flag_at (st_bitmap st) (unat j)" if "(j, t) \<in> set ms" for j t
    using marks_slot(2) [OF inv that] st by (simp add: defs flagged_def)
  ultimately have new: "log_inv init (F @ [St_word k w Release]) n hs ms"
    using st by (intro log_inv_word [OF inv n, where st = st]) (auto simp: defs(1))
  have stores: "mark_stores s idx = [St_word k w Release]" by (simp add: mark_stores_def w_def defs Let_def unat_div_64)
  have "slot_at st (unat idx) \<noteq> None" using storage_wf_dests(6) [OF st_wf] set by (simp add: defs)
  then have "mark_ok init (F @ [St_word k w Release]) (idx, Suc (length F))"
    using flags [of "unat idx"] st by (auto simp: mark_ok_def flagged_def mem_at_snoc defs(1) dest!: le_antisym)
  then show ?thesis using new stores by (simp add: log_inv_def)
qed

lemma log_inv_finalize:
  assumes inv: "log_inv init F n hs ms" and n: "n \<le> length F"
    and m: "(idx, t) \<in> set ms" and told: "\<forall>h \<in> set hs. t \<le> h_birth h"
  shows "log_inv init (F @ finalize_stores s idx) n hs (filter (\<lambda>(i, _). i \<noteq> idx) ms)"
proof -
  have fewer: "log_inv init F n hs (filter (\<lambda>(i, _). i \<noteq> idx) ms)" using inv by (simp add: log_inv_def)
  have "mark_ok init F (idx, t)" using inv m by (auto simp: log_inv_def)
  note unread = told_slot_unread [OF inv n this told]
  show ?thesis
    unfolding finalize_stores_def
    by (rule log_inv_entry [OF fewer n refl unread(1) unread(2,3)]) (auto simp: word_unat_eq_iff)
qed

section \<open>Readers keep the invariant\<close>

lemma load_view_bounds:
  assumes "v l \<le> t"
  shows "v x \<le> load_view log l ord t v x" and "load_view log l ord t v x \<le> max (v x) t"
  using assms last_store_le [of log l t] by (auto simp: load_view_def Let_def le_max_iff_disj)

lemma frontier_mono:
  assumes "hist_ok init F" and "t \<le> t'" and "t' \<le> length F"
  shows "unat (st_frontier (mem_at init F t)) \<le> unat (st_frontier (mem_at init F t'))"
  using assms(2,3)
proof (induction t' rule: dec_induct)
  case (step u)
  have "st_frontier (mem_at init F u) \<le> st_frontier (mem_at init F (Suc u))" using assms(1) step.prems by (simp add: hist_ok_def)
  then show ?case using step by (simp add: word_le_nat_alt)
qed simp

lemma handle_ok_load:
  assumes "handle_ok init F n h" and "h_view h l \<le> t" and "t \<le> n" and hist: "hist_ok init F" and n: "n \<le> length F"
  shows "handle_ok init F n (h\<lparr>h_view := load_view log l ord t (h_view h)\<rparr>)"
proof -
  note mono = load_view_bounds(1) [of "h_view h", OF assms(2)] and upper = load_view_bounds(2) [of "h_view h", OF assms(2)]
  have "known_safe init F k (load_view log l ord t (h_view h) (Loc_word k))" for k
    using assms(1) by (intro known_safe_mono [OF _ mono]) (simp add: handle_ok_def)
  moreover have "h_birth h \<le> load_view log l ord t (h_view h) x" for x
    using assms(1) mono [of x] unfolding handle_ok_def by (meson order_trans)
  moreover have top: "load_view log l ord t (h_view h) x \<le> n" for x
  proof -
    have "max (h_view h x) t \<le> n" using assms(1,3) by (simp add: handle_ok_def)
    then show ?thesis by (rule order_trans [OF upper])
  qed
  moreover have "last_store F (Loc_entry i) (length F) \<le> load_view log l ord t (h_view h) (Loc_entry i)"
    if "(i, u) \<in> set (h_seen h)" for i u
  proof -
    have "last_store F (Loc_entry i) (length F) \<le> h_view h (Loc_entry i)" using assms(1) that by (auto simp: handle_ok_def)
    then show ?thesis using mono by (rule order_trans)
  qed
  moreover have "i < unat (st_frontier (mem_at init F (load_view log l ord t (h_view h) Loc_frontier)))"
    if "(i, u) \<in> set (h_seen h)" for i u
  proof -
    have "i < unat (st_frontier (mem_at init F (h_view h Loc_frontier)))" using assms(1) that by (auto simp: handle_ok_def)
    also have "\<dots> \<le> unat (st_frontier (mem_at init F (load_view log l ord t (h_view h) Loc_frontier)))"
      using order_trans [OF top n] by (rule frontier_mono [OF hist mono])
    finally show ?thesis .
  qed
  ultimately show ?thesis using assms(1) by (auto simp: handle_ok_def)
qed

lemma hist_okD: "hist_ok init (log @ es) \<Longrightarrow> t \<le> length log \<Longrightarrow> storage_wf (mem_at init log t)"
  unfolding hist_ok_def by (metis length_append mem_at_append trans_le_add1)

text \<open>An acquire load that finds a flag set brings the entry into view.\<close>

lemma see_ok:
  assumes h: "handle_ok init (log @ es) (length log) h" and t: "h_view h (Loc_word (unat idx div 64)) \<le> t" "t \<le> length log"
    and set: "flagged init log t (unat idx)" and hist: "hist_ok init (log @ es)"
  shows "handle_ok init (log @ es) (length log)
      (see idx t (h\<lparr>h_view := load_view log (Loc_word (unat idx div 64)) Acquire t (h_view h)\<rparr>))"
proof -
  let ?F = "log @ es" and ?i = "unat idx" and ?l = "Loc_word (unat idx div 64)"
  let ?v = "load_view log ?l Acquire t (h_view h)"
  have known: "known_safe init ?F (?i div 64) (h_view h ?l)" using h by (simp add: handle_ok_def)
  note safe = known_safeD [OF known t(1)]
  have m: "0 < last_store log ?l t" "store_order (log ! (last_store log ?l t - 1)) = Release"
    "last_store ?F (Loc_entry ?i) (length ?F) \<le> last_store log ?l t"
    using safe t(2) set last_store_at [of log ?l t] by (auto simp: nth_append split: if_splits)
  have "last_store log ?l t \<le> ?v (Loc_entry ?i)" using m(1,2) by (simp add: load_view_def Let_def)
  then have "last_store ?F (Loc_entry ?i) (length ?F) \<le> min t (?v (Loc_entry ?i))"
    using m(3) last_store_le [of log ?l t] by simp
  moreover have "h_birth h \<le> t" using h t(1) unfolding handle_ok_def by (meson order_trans)
  moreover have "unat idx < unat (st_frontier (mem_at init ?F (?v Loc_frontier)))"
  proof -
    let ?m = "last_store log ?l t"
    have "flagged init log ?m ?i"
      using word_stable [of log "?i div 64" t ?m init] last_store_le [of log ?l t] t(2) set
      by (simp add: flagged_def flag_at_def mem_at_lengths)
    moreover have "?m \<le> length log" using last_store_le [of log ?l t] t(2) by linarith
    ultimately have "?i < unat (st_frontier (mem_at init ?F ?m))"
      using storage_wf_dests(5) [OF hist_okD [OF hist], of ?m ?i] by (simp add: flagged_def)
    also have "\<dots> \<le> unat (st_frontier (mem_at init ?F (?v Loc_frontier)))"
    proof (rule frontier_mono [OF hist])
      show "?m \<le> ?v Loc_frontier" using m(1,2) by (simp add: load_view_def Let_def)
      have "max (h_view h Loc_frontier) t \<le> length log" using h t(2) by (simp add: handle_ok_def)
      then have "?v Loc_frontier \<le> length log" by (rule order_trans [OF load_view_bounds(2) [of "h_view h", OF t(1)]])
      then show "?v Loc_frontier \<le> length ?F" by simp
    qed
    finally show ?thesis .
  qed
  ultimately show ?thesis
    using handle_ok_load [OF h t hist, where log = log and ord = Acquire] t(2) set by (simp add: handle_ok_def see_def del: mem_at_append)
qed

lemma flag_of_word:
  fixes idx :: usize
  assumes "storage_wf (mem_at init log t)" and "unat idx < unat (st_size init)"
  shows "flag_of (st_bitmap (mem_at init log t) ! (unat idx div 64)) (unat idx) \<noteq> 0 \<longleftrightarrow> flagged init log t (unat idx)"
  using load_flags_ok(2) [OF assms(1), of idx] assms(2)
  by (simp add: flagged_def flag_at_word unat_div_64 mem_at_lengths)

lemma weak_contains_key_ok:
  assumes hist: "hist_ok (wk_init w) (wk_log w @ es)" and h: "handle_ok (wk_init w) (wk_log w @ es) (length (wk_log w)) h"
    and r: "weak_contains_key w t idx h = Some (b, h')"
  shows "handle_ok (wk_init w) (wk_log w @ es) (length (wk_log w)) h'"
    and "b \<Longrightarrow> (unat idx, t) \<in> set (h_seen h')" and "h_birth h' = h_birth h"
    and "b \<Longrightarrow> h_view h (Loc_word (unat idx div 64)) \<le> t \<and> t \<le> length (wk_log w) \<and> flagged (wk_init w) (wk_log w) t (unat idx)"
proof -
  have "handle_ok (wk_init w) (wk_log w @ es) (length (wk_log w)) h' \<and> (b \<longrightarrow> (unat idx, t) \<in> set (h_seen h')) \<and> h_birth h' = h_birth h \<and>
     (b \<longrightarrow> h_view h (Loc_word (unat idx div 64)) \<le> t \<and> t \<le> length (wk_log w) \<and> flagged (wk_init w) (wk_log w) t (unat idx))"
  proof (cases "idx \<ge> storage_len (wk_init w)")
    case True
    then show ?thesis using r h by (auto simp: weak_contains_key_def)
  next
    case False
    then have idx: "unat idx < unat (st_size (wk_init w))" by (simp add: storage_len_def word_le_nat_alt)
    have t: "h_view h (Loc_word (unat idx div 64)) \<le> t" "t \<le> length (wk_log w)"
      using r False by (auto simp: weak_contains_key_def weak_load_word_def unat_div_64 split: if_splits)
    note word = flag_of_word [OF hist_okD [OF hist t(2)] idx]
    show ?thesis
      using r False t see_ok [OF h t _ hist] handle_ok_load [OF h t hist]
      by (auto simp: weak_contains_key_def weak_load_word_def wk_mem_def word unat_div_64 see_def split: if_splits simp del: flag_of_zero_iff)
  qed
  then show "handle_ok (wk_init w) (wk_log w @ es) (length (wk_log w)) h'"
    and "b \<Longrightarrow> (unat idx, t) \<in> set (h_seen h')" and "h_birth h' = h_birth h"
    and "b \<Longrightarrow> h_view h (Loc_word (unat idx div 64)) \<le> t \<and> t \<le> length (wk_log w) \<and> flagged (wk_init w) (wk_log w) t (unat idx)" by auto
qed

lemma trailing_zeros_shifted:
  fixes w :: usize
  assumes "bme \<noteq> 0" and "bme = drop_bit m w"
  shows "trailing_zeros bme < 64 - m"
  using trailing_zeros_spec(2) [OF assms(1)] assms(2) bit_imp_le_length [of w "m + trailing_zeros bme"]
  by (auto simp: bit_drop_bit_eq)

lemma leading_zeros_shifted:
  fixes w :: usize
  assumes "bme \<noteq> 0" and "bme = push_bit (64 - (m + 1)) w" and "m < 64"
  shows "leading_zeros bme \<le> m"
proof (rule ccontr)
  assume "\<not> leading_zeros bme \<le> m"
  then have "63 - leading_zeros bme < 64 - (m + 1)" using leading_zeros_spec(1) [OF assms(1)] assms(3) by linarith
  then show False using leading_zeros_spec(2) [OF assms(1)] assms(2) by (simp add: bit_push_bit_iff)
qed

lemma same_word_below:
  assumes "d \<le> t mod (64 :: nat)"
  shows "(t - d) div 64 = t div 64"
proof -
  have "t - d = (t mod 64 - d) + t div 64 * 64" using assms div_mult_mod_eq [of t 64] by linarith
  moreover have "(t mod 64 - d) div 64 = 0" by (rule div_less) (simp add: less_imp_diff_less)
  ultimately show ?thesis by simp
qed

text \<open>What a call of an iterator does: the handle stays in order, and an item it delivers is one whose flag it saw.\<close>

definition iter_delivers :: "'a weak \<Rightarrow> 'a store list \<Rightarrow> handle \<Rightarrow> (iter \<times> (usize \<times> 'a) option) res \<Rightarrow> handle \<Rightarrow> bool" where
  "iter_delivers w es h x h' \<longleftrightarrow>
     handle_ok (wk_init w) (wk_log w @ es) (length (wk_log w)) h' \<and> h_birth h' = h_birth h \<and>
     (\<forall>it idx v. x = Inr (it, Some (idx, v)) \<longrightarrow> (\<exists>t. (unat idx, t) \<in> set (h_seen h') \<and> weak_get_unchecked w idx h' = Inr v)) \<and>
     (\<forall>e. x = Inl e \<longrightarrow> (\<exists>idx t. (unat idx, t) \<in> set (h_seen h') \<and> weak_get_unchecked w idx h' = Inl e))"

lemma iter_delivers_found:
  assumes "handle_ok (wk_init w) (wk_log w @ es) (length (wk_log w)) h" and "unat idx div 64 = k"
    and "h_view h (Loc_word k) \<le> t" and "t \<le> length (wk_log w)" and "flagged (wk_init w) (wk_log w) t (unat idx)"
    and hist: "hist_ok (wk_init w) (wk_log w @ es)"
    and "h2 = see idx t (h\<lparr>h_view := load_view (wk_log w) (Loc_word k) Acquire t (h_view h)\<rparr>)"
  shows "iter_delivers w es h (rbind (weak_get_unchecked w idx h2) (\<lambda>v. Inr (it, Some (idx, v)))) h2"
proof -
  have "handle_ok (wk_init w) (wk_log w @ es) (length (wk_log w)) h2"
    using see_ok [OF assms(1), of idx t] assms(2-7) by simp
  moreover have "(unat idx, t) \<in> set (h_seen h2)" "h_birth h2 = h_birth h" by (simp_all add: assms(7) see_def)
  ultimately show ?thesis by (auto simp: iter_delivers_def res_simps)
qed

lemma unat_less_max: "unat (a :: usize) < 2 ^ 64"
  using unsigned_less [of a] by simp

lemma weak_iter_next_loop_ok:
  assumes hist: "hist_ok (wk_init w) (wk_log w @ es)" and h: "handle_ok (wk_init w) (wk_log w @ es) (length (wk_log w)) h"
    and it: "it_head it < it_tail it" "it_tail it \<le> st_size (wk_init w)"
    and r: "weak_iter_next_loop w ts it h = Some (x, h')"
  shows "iter_delivers w es h x h'"
  using h it r
proof (induction ts arbitrary: it h)
  case (Cons t ts)
  define hd k b where defs: "hd = it_head it" "k = unat hd div 64" "b = st_bitmap (mem_at (wk_init w) (wk_log w) t) ! k"
  define bme d where bme: "bme = drop_bit (unat hd mod 64) b" "d = next_distance bme hd"
  define h1 where "h1 = h\<lparr>h_view := load_view (wk_log w) (Loc_word k) Acquire t (h_view h)\<rparr>"
  have t: "h_view h (Loc_word k) \<le> t" "t \<le> length (wk_log w)"
    using Cons.prems(4) by (auto simp: weak_load_word_def defs unat_div_64 split: if_splits)
  have h1: "handle_ok (wk_init w) (wk_log w @ es) (length (wk_log w)) h1" "h_birth h1 = h_birth h"
    using handle_ok_load [OF Cons.prems(1) t hist] by (simp_all add: h1_def)
  have run: "weak_iter_next_loop w (t # ts) it h =
     (if d \<ge> it_tail it - hd then Some (Inr (it\<lparr>it_head := it_tail it\<rparr>, None), h1)
      else if bme \<noteq> 0 then
        (let h'' = see (hd + d) t h1 in
         Some (rbind (weak_get_unchecked w (hd + d) h'') (\<lambda>v. Inr (it\<lparr>it_head := hd + d + 1\<rparr>, Some (hd + d, v))), h''))
      else weak_iter_next_loop w ts (it\<lparr>it_head := hd + d\<rparr>) h1)"
    using t by (simp add: weak_load_word_def wk_mem_def bme defs h1_def Let_def unat_div_64 unat_mod)
  have hd: "unat hd < unat (it_tail it)" "unat (it_tail it) \<le> unat (st_size (wk_init w))"
    using Cons.prems(2,3) by (simp_all add: defs word_less_nat_alt word_le_nat_alt)
  have k: "k < length (st_bitmap (mem_at (wk_init w) (wk_log w) t))"
    using load_flags_ok(2) [OF hist_okD [OF hist t(2)], of hd] hd by (simp add: defs mem_at_lengths)
  have d: "unat hd + unat d < unat (it_tail it)" "unat (hd + d) = unat hd + unat d" if "\<not> d \<ge> it_tail it - hd"
  proof -
    show "unat hd + unat d < unat (it_tail it)" using that hd by (simp add: word_le_nat_alt unat_sub_no_wrap)
    then show "unat (hd + d) = unat hd + unat d" using unat_less_max [of "it_tail it"] by (intro unat_add_no_wrap) simp
  qed
  have dist: "unat d = (if bme = 0 then 64 - unat hd mod 64 else trailing_zeros bme)"
    unfolding bme(2) by (rule next_distance_eq [OF bme(1)])
  consider (over) "d \<ge> it_tail it - hd" | (more) "\<not> d \<ge> it_tail it - hd" "bme = 0" | (found) "\<not> d \<ge> it_tail it - hd" "bme \<noteq> 0" by blast
  then show ?case
  proof cases
    case over
    then show ?thesis using Cons.prems(4) run h1 by (auto simp: iter_delivers_def)
  next
    case more
    then have "hd + d < it_tail it" using d by (simp add: word_less_nat_alt)
    then show ?thesis
      using Cons.IH [OF h1(1), of "it\<lparr>it_head := hd + d\<rparr>"] Cons.prems(3,4) run more h1(2) by (simp add: iter_delivers_def)
  next
    case found
    have "flag_at (st_bitmap (mem_at (wk_init w) (wk_log w) t)) (unat hd + unat d)"
      using next_word(2) [OF k [unfolded defs(2)] _ dist] found by (simp add: bme(1) defs)
    then have fl: "flagged (wk_init w) (wk_log w) t (unat (hd + d))" using d(2) found by (simp add: flagged_def)
    have same: "unat (hd + d) div 64 = k"
      using div_mod_same_word(2) [OF trailing_zeros_shifted [OF found(2) bme(1)]] dist found d(2) by (simp add: defs(2))
    show ?thesis
      using iter_delivers_found [OF Cons.prems(1) same t fl hist refl] Cons.prems(4) run found by (simp add: h1_def Let_def)
  qed
qed simp

lemma weak_iter_next_back_loop_ok:
  assumes hist: "hist_ok (wk_init w) (wk_log w @ es)" and h: "handle_ok (wk_init w) (wk_log w @ es) (length (wk_log w)) h"
    and it: "it_head it < it_tail it" "it_tail it \<le> st_size (wk_init w)"
    and r: "weak_iter_next_back_loop w ts it h = Some (x, h')"
  shows "iter_delivers w es h x h'"
  using h it r
proof (induction ts arbitrary: it h)
  case (Cons t ts)
  define t1 k b where defs: "t1 = it_tail it - 1" "k = unat t1 div 64" "b = st_bitmap (mem_at (wk_init w) (wk_log w) t) ! k"
  define bme d where bme: "bme = push_bit (64 - (unat t1 mod 64 + 1)) b" "d = back_distance bme t1"
  define h1 where "h1 = h\<lparr>h_view := load_view (wk_log w) (Loc_word k) Acquire t (h_view h)\<rparr>"
  have t: "h_view h (Loc_word k) \<le> t" "t \<le> length (wk_log w)"
    using Cons.prems(4) by (auto simp: weak_load_word_def defs Let_def unat_div_64 split: if_splits)
  have h1: "handle_ok (wk_init w) (wk_log w @ es) (length (wk_log w)) h1" "h_birth h1 = h_birth h"
    using handle_ok_load [OF Cons.prems(1) t hist] by (simp_all add: h1_def)
  have run: "weak_iter_next_back_loop w (t # ts) it h =
     (if d \<ge> it_tail it - it_head it then Some (Inr (it\<lparr>it_tail := it_head it\<rparr>, None), h1)
      else if bme \<noteq> 0 then
        (let idx = it_tail it - d - 1; h'' = see idx t h1 in
         Some (rbind (weak_get_unchecked w idx h'') (\<lambda>v. Inr (it\<lparr>it_tail := idx\<rparr>, Some (idx, v))), h''))
      else weak_iter_next_back_loop w ts (it\<lparr>it_tail := it_tail it - d\<rparr>) h1)"
    using t by (simp add: weak_load_word_def wk_mem_def bme defs h1_def Let_def unat_div_64 unat_mod)
  have tl: "unat (it_head it) < unat (it_tail it)" "unat (it_tail it) \<le> unat (st_size (wk_init w))"
    using Cons.prems(2,3) by (simp_all add: word_less_nat_alt word_le_nat_alt)
  then have t1: "unat t1 = unat (it_tail it) - 1" by (simp add: defs(1) unat_sub_no_wrap)
  have k: "k < length (st_bitmap (mem_at (wk_init w) (wk_log w) t))"
    using load_flags_ok(2) [OF hist_okD [OF hist t(2)], of t1] tl t1 by (simp add: defs mem_at_lengths)
  have d: "unat (it_head it) + unat d < unat (it_tail it)" "unat (it_tail it - d) = unat (it_tail it) - unat d"
    "unat (it_tail it - d - 1) = unat t1 - unat d" if "\<not> d \<ge> it_tail it - it_head it"
  proof -
    show lt: "unat (it_head it) + unat d < unat (it_tail it)" using that tl by (simp add: word_le_nat_alt unat_sub_no_wrap)
    then show td: "unat (it_tail it - d) = unat (it_tail it) - unat d" by (intro unat_sub_no_wrap) simp
    then show "unat (it_tail it - d - 1) = unat t1 - unat d" using lt t1 by (simp add: unat_sub_no_wrap)
  qed
  have dist: "unat d = (if bme = 0 then unat t1 mod 64 + 1 else leading_zeros bme)"
    unfolding bme(2) by (rule back_distance_eq)
  consider (over) "d \<ge> it_tail it - it_head it" | (more) "\<not> d \<ge> it_tail it - it_head it" "bme = 0"
    | (found) "\<not> d \<ge> it_tail it - it_head it" "bme \<noteq> 0" by blast
  then show ?case
  proof cases
    case over
    then show ?thesis using Cons.prems(4) run h1 by (auto simp: iter_delivers_def)
  next
    case more
    then have "it_head it < it_tail it - d" "it_tail it - d \<le> st_size (wk_init w)" using d(1,2) tl by (simp_all add: word_less_nat_alt word_le_nat_alt)
    then show ?thesis
      using Cons.IH [OF h1(1), of "it\<lparr>it_tail := it_tail it - d\<rparr>"] Cons.prems(4) run more h1(2) by (simp add: iter_delivers_def)
  next
    case found
    have "flag_at (st_bitmap (mem_at (wk_init w) (wk_log w) t)) (unat t1 - unat d)"
      using back_word(2) [OF k [unfolded defs(2)] _ dist] found by (simp add: bme(1) defs)
    then have fl: "flagged (wk_init w) (wk_log w) t (unat (it_tail it - d - 1))" using d(3) found by (simp add: flagged_def)
    have "unat d \<le> unat t1 mod 64" using leading_zeros_shifted [OF found(2) bme(1)] dist found by simp
    then have same: "unat (it_tail it - d - 1) div 64 = k" using same_word_below d(3) found by (simp add: defs(2))
    show ?thesis
      using iter_delivers_found [OF Cons.prems(1) same t fl hist refl] Cons.prems(4) run found by (simp add: h1_def Let_def)
  qed
qed simp

section \<open>Every program keeps the invariant\<close>

lemma weak_inv_handles:
  assumes "weak_inv w" and "wk_handles w = hs1 @ h # hs2" and "handle_ok (wk_init w) (wk_log w @ wk_todo w) (length (wk_log w)) h'"
  shows "weak_inv (w\<lparr>wk_handles := hs1 @ h' # hs2\<rparr>)"
  using assms by (auto simp: weak_inv_def log_inv_def)

lemma weak_invD:
  assumes "weak_inv w"
  shows "hist_ok (wk_init w) (wk_log w @ wk_todo w)"
    and "h \<in> set (wk_handles w) \<Longrightarrow> handle_ok (wk_init w) (wk_log w @ wk_todo w) (length (wk_log w)) h"
  using assms by (auto simp: weak_inv_def log_inv_def)

lemma weak_inv_writer:
  assumes "weak_inv w" and "wk_todo w = []"
  shows "cslab_wf (wk_slab w)" and "storage (wk_slab w) = mem_at (wk_init w) (wk_log w) (length (wk_log w))"
    and "log_inv (wk_init w) (wk_log w) (length (wk_log w)) (wk_handles w) (wk_marks w)"
  using assms by (simp_all add: weak_inv_def)

lemma weak_inv_op:
  assumes inv: "weak_inv w" and todo: "wk_todo w = []" and wf: "cslab_wf s'"
    and stores: "fold apply_store es (storage (wk_slab w)) = storage s'"
    and log: "log_inv (wk_init w) (wk_log w @ es) (length (wk_log w)) (wk_handles w) ms"
  shows "weak_inv (w\<lparr>wk_slab := s', wk_todo := es, wk_marks := ms\<rparr>)"
  using wf log stores weak_inv_writer(2) [OF inv todo] by (simp add: weak_inv_def mem_at_def)

lemma weak_inv_step:
  assumes "weak_step w w'" and inv: "weak_inv w"
  shows "weak_inv w'"
  using assms(1)
proof cases
  case (weak_insert v s' idx)
  note w = weak_inv_writer [OF inv weak_insert(2)]
  have free: "unat (first_free (wk_slab w)) < unat (st_size (storage (wk_slab w)))"
    using cslab_insert_full [OF w(1), of v] weak_insert(3) by (cases "unat (first_free (wk_slab w)) < unat (st_size (storage (wk_slab w)))") auto
  have "cslab_wf s'" using cslab_insert_ok [OF w(1) free, of v] weak_insert(3) by auto
  then have "weak_inv (w\<lparr>wk_slab := s', wk_todo := insert_stores (wk_slab w) v, wk_marks := wk_marks w\<rparr>)"
    using insert_stores_effect(3) [OF weak_insert(3)] log_inv_insert [OF w(3) order_refl w(2,1) free]
    by (intro weak_inv_op [OF inv weak_insert(2)])
  then show ?thesis using weak_insert(1) by simp
next
  case (weak_mark idx s')
  note w = weak_inv_writer [OF inv weak_mark(2)]
  have set: "flag_at (st_bitmap (storage (wk_slab w))) (unat idx)"
    using cslab_mark_removed_panics [OF w(1), of idx] weak_mark(3) by auto
  have "cslab_wf s'" using cslab_mark_removed_ok [OF w(1) set] weak_mark(3) by auto
  then show ?thesis
    using mark_stores_effect [OF weak_mark(3)] log_inv_mark [OF w(3) order_refl w(2,1) set] weak_mark(1)
    by (auto intro!: weak_inv_op [OF inv weak_mark(2)])
next
  case (weak_finalize idx t s' v)
  note w = weak_inv_writer [OF inv weak_finalize(2)]
  obtain u where "slot_at (storage (wk_slab w)) (unat idx) = Some u" "\<not> flag_at (st_bitmap (storage (wk_slab w))) (unat idx)"
    using marks_slot [OF w(3) weak_finalize(3)] w(2) by (auto simp: flagged_def)
  then have "cslab_wf s'" using cslab_finalize_remove_ok [OF w(1)] weak_finalize(5) by (metis Pair_inject sum.inject(2))
  then show ?thesis
    using finalize_stores_effect [OF weak_finalize(5)] log_inv_finalize [OF w(3) order_refl weak_finalize(3,4)] weak_finalize(1)
    by (auto intro!: weak_inv_op [OF inv weak_finalize(2)])
next
  case (weak_store e es)
  have "handle_ok (wk_init w) F (Suc n) h" if "handle_ok (wk_init w) F n h" for F n h
    using that unfolding handle_ok_def by (fastforce intro: le_SucI)
  then show ?thesis using inv weak_store by (auto simp: weak_inv_def log_inv_def)
next
  case weak_reader
  then show ?thesis using inv by (auto simp: weak_inv_def log_inv_def handle_ok_def)
next
  case (weak_clone h)
  have "handle_ok (wk_init w) F n (h\<lparr>h_seen := []\<rparr>)" if "handle_ok (wk_init w) F n h" for F n
    using that by (simp add: handle_ok_def)
  then show ?thesis using inv weak_clone by (auto simp: weak_inv_def log_inv_def)
next
  case (weak_drop hs1 h hs2)
  then show ?thesis using inv by (auto simp: weak_inv_def log_inv_def)
next
  case (weak_read hs1 h hs2 t idx b h')
  have h: "handle_ok (wk_init w) (wk_log w @ wk_todo w) (length (wk_log w)) h" using weak_invD(2) [OF inv, of h] weak_read(2) by simp
  show ?thesis
    using weak_inv_handles [OF inv weak_read(2) weak_contains_key_ok(1) [OF weak_invD(1) [OF inv] h weak_read(3)]] weak_read(1) by simp
next
  case (weak_frontier hs1 h hs2 t r h')
  then have "handle_ok (wk_init w) (wk_log w @ wk_todo w) (length (wk_log w)) h'"
    using handle_ok_load [OF weak_invD(2) [OF inv, of h] _ _ weak_invD(1) [OF inv]]
    by (auto simp: weak_iter_new_def weak_load_frontier_def split: option.splits if_splits)
  then show ?thesis using weak_inv_handles [OF inv weak_frontier(2)] weak_frontier(1) by simp
next
  case (weak_next hs1 h hs2 ts it r h')
  have h: "handle_ok (wk_init w) (wk_log w @ wk_todo w) (length (wk_log w)) h" using weak_invD(2) [OF inv, of h] weak_next(2) by simp
  then have "handle_ok (wk_init w) (wk_log w @ wk_todo w) (length (wk_log w)) h'"
    using weak_iter_next_loop_ok [OF weak_invD(1) [OF inv] h _ weak_next(4)] weak_next(3)
    by (auto simp: weak_iter_next_def iter_delivers_def not_le split: if_splits)
  then show ?thesis using weak_inv_handles [OF inv weak_next(2)] weak_next(1) by simp
next
  case (weak_next_back hs1 h hs2 ts it r h')
  have h: "handle_ok (wk_init w) (wk_log w @ wk_todo w) (length (wk_log w)) h" using weak_invD(2) [OF inv, of h] weak_next_back(2) by simp
  then have "handle_ok (wk_init w) (wk_log w @ wk_todo w) (length (wk_log w)) h'"
    using weak_iter_next_back_loop_ok [OF weak_invD(1) [OF inv] h _ weak_next_back(4)] weak_next_back(3)
    by (auto simp: weak_iter_next_back_def iter_delivers_def not_le split: if_splits)
  then show ?thesis using weak_inv_handles [OF inv weak_next_back(2)] weak_next_back(1) by simp
qed

lemma weak_reach_inv:
  assumes "entry_layout_ok ent" and "weak_reach ent n w"
  shows "weak_inv w"
  using assms(2)
proof induction
  case (weak_start s)
  note new = cslab_new_ok [OF assms(1) weak_start]
  have "known_safe (storage s) [] k 0" for k using new(4) by (auto simp: known_safe_def flagged_def)
  then show ?case using new(1) cslab_wf_storage [OF new(1)] by (simp add: weak_inv_def log_inv_def hist_ok_def)
qed (rule weak_inv_step)

end
