(* ===== verification/Cslab_Weak_Props.thy ===== *)
theory Cslab_Weak_Props
  imports Cslab_Weak_Inv Cslab_Props
begin

text \<open>
  What readers of a \<open>Cslab\<close> rely on while the writer works: reads do not race and return items that
  were visible, found items stay, iterators cover what was found, and removals that a handle was
  told of are not seen by it.
\<close>

section \<open>What readers can rely on\<close>

text \<open>An index that was found present can be read, without a race, and holds the item that was visible then.\<close>

lemma seen_readable:
  assumes inv: "weak_inv w" and h: "handle_ok (wk_init w) (wk_log w @ wk_todo w) (length (wk_log w)) h"
    and seen: "(unat idx, t) \<in> set (h_seen h)"
  shows "\<exists>v. visible_at (wk_mem w t) (unat idx) = Some v \<and> weak_get_unchecked w idx h = Inr v"
proof -
  let ?F = "wk_log w @ wk_todo w" and ?n = "length (wk_log w)" and ?l = "Loc_entry (unat idx)"
  have t: "t \<le> ?n" "flagged (wk_init w) ?F t (unat idx)" "last_store ?F ?l (length ?F) \<le> t" "last_store ?F ?l (length ?F) \<le> h_view h ?l"
    using h seen by (fastforce simp: handle_ok_def)+
  obtain v where v: "slot_at (mem_at (wk_init w) ?F ?n) (unat idx) = Some v" "slot_at (mem_at (wk_init w) ?F t) (unat idx) = Some v"
    using seen_slot [OF weak_invD(1) [OF inv] t(2,3,1)] by auto
  have "last_store (wk_log w) ?l ?n \<le> h_view h ?l"
    using last_store_mono [of ?n "length ?F" ?F ?l] t(4) by simp
  then show ?thesis
    using v t(1,2) get_unchecked_impl_eq [of "wk_mem w ?n" idx v]
    by (auto simp: weak_get_unchecked_def wk_mem_def visible_at_def flagged_def)
qed

text \<open>What a lookup returns: nothing, or an item that was visible at the time its flag shows, which is after the handle was taken.\<close>

lemma get_found:
  assumes inv: "weak_inv w" and h: "h \<in> set (wk_handles w)" and get: "weak_get w t idx h = Some (r, h')"
  shows "r = Inr None \<or> (\<exists>v. r = Inr (Some v) \<and> h_birth h \<le> t \<and> t \<le> length (wk_log w) \<and> visible_at (wk_mem w t) (unat idx) = Some v)"
proof -
  have ok: "handle_ok (wk_init w) (wk_log w @ wk_todo w) (length (wk_log w)) h" by (rule weak_invD(2) [OF inv h])
  obtain b where b: "weak_contains_key w t idx h = Some (b, h')" using get by (auto simp: weak_get_def split: option.splits)
  note found = weak_contains_key_ok [OF weak_invD(1) [OF inv] ok b]
  have "h_birth h \<le> t \<and> t \<le> length (wk_log w)" if b
    using found(4) [OF that] ok unfolding handle_ok_def by (meson order_trans)
  then show ?thesis using get b seen_readable [OF inv found(1) found(2)] by (cases b) (auto simp: weak_get_def)
qed

text \<open>
  C1. Concurrent reads are safe under release and acquire. In every program of one writer and any number
  of readers, whatever stale flags a reader's loads return: \<open>get\<close> neither races nor reads an entry
  without item, and an item it returns was visible at the time its flag shows; so do the iterators,
  from both ends. An index found present stays readable, with the same item, as long as the handle
  lives, and the writer's next store is never to such an entry.
\<close>

theorem concurrent_reads_safe:
  assumes "entry_layout_ok ent" and "weak_reach ent n w" and "h \<in> set (wk_handles w)"
  shows "(\<forall>t idx r h'. weak_get w t idx h = Some (r, h') \<longrightarrow>
       r = Inr None \<or> (\<exists>v. r = Inr (Some v) \<and> h_birth h \<le> t \<and> visible_at (wk_mem w t) (unat idx) = Some v)) \<and>
    (\<forall>ts it r h'. it_tail it \<le> st_size (wk_init w) \<longrightarrow>
       weak_iter_next w ts it h = Some (r, h') \<or> weak_iter_next_back w ts it h = Some (r, h') \<longrightarrow>
       (\<exists>it' x. r = Inr (it', x) \<and> (\<forall>idx v. x = Some (idx, v) \<longrightarrow>
          (\<exists>t. h_birth h \<le> t \<and> t \<le> length (wk_log w) \<and> visible_at (wk_mem w t) (unat idx) = Some v)))) \<and>
    (\<forall>idx t. (unat idx, t) \<in> set (h_seen h) \<longrightarrow>
       (\<exists>v. visible_at (wk_mem w t) (unat idx) = Some v \<and> weak_get_unchecked w idx h = Inr v) \<and>
       (\<forall>e es. wk_todo w = e # es \<longrightarrow> store_loc e \<noteq> Loc_entry (unat idx)))"
proof (intro conjI allI impI)
  have inv: "weak_inv w" by (rule weak_reach_inv [OF assms(1,2)])
  have h: "handle_ok (wk_init w) (wk_log w @ wk_todo w) (length (wk_log w)) h" by (rule weak_invD(2) [OF inv assms(3)])
  note hist = weak_invD(1) [OF inv]
  show "r = Inr None \<or> (\<exists>v. r = Inr (Some v) \<and> h_birth h \<le> t \<and> visible_at (wk_mem w t) (unat idx) = Some v)"
    if "weak_get w t idx h = Some (r, h')" for t idx r h'
    using get_found [OF inv assms(3) that] by blast
  show "\<exists>it' x. r = Inr (it', x) \<and> (\<forall>idx v. x = Some (idx, v) \<longrightarrow>
      (\<exists>t. h_birth h \<le> t \<and> t \<le> length (wk_log w) \<and> visible_at (wk_mem w t) (unat idx) = Some v))"
    if "it_tail it \<le> st_size (wk_init w)" "weak_iter_next w ts it h = Some (r, h') \<or> weak_iter_next_back w ts it h = Some (r, h')"
    for ts it r h'
  proof (cases "it_head it < it_tail it")
    case True
    then have del: "iter_delivers w (wk_todo w) h r h'"
      using weak_iter_next_loop_ok [OF hist h True that(1)] weak_iter_next_back_loop_ok [OF hist h True that(1)] that(2)
      by (auto simp: weak_iter_next_def weak_iter_next_back_def not_le [symmetric])
    then have h': "handle_ok (wk_init w) (wk_log w @ wk_todo w) (length (wk_log w)) h'" "h_birth h' = h_birth h" by (simp_all add: iter_delivers_def)
    have times: "h_birth h \<le> t \<and> t \<le> length (wk_log w)" if "(i, t) \<in> set (h_seen h')" for i t
      using h' that by (auto simp: handle_ok_def)
    show ?thesis using del seen_readable [OF inv h'(1)] times by (cases r) (fastforce simp: iter_delivers_def)+
  next
    case False
    then show ?thesis using that(2) by (auto simp: weak_iter_next_def weak_iter_next_back_def not_less)
  qed
  fix idx :: usize and t assume seen: "(unat idx, t) \<in> set (h_seen h)"
  show "\<exists>v. visible_at (wk_mem w t) (unat idx) = Some v \<and> weak_get_unchecked w idx h = Inr v"
    by (rule seen_readable [OF inv h seen])
  fix e es assume todo: "wk_todo w = e # es"
  have "last_store (wk_log w @ e # es) (Loc_entry (unat idx)) (length (wk_log w @ e # es)) \<le> length (wk_log w)"
    using h seen todo by (fastforce simp: handle_ok_def)
  moreover have "last_store (wk_log w @ e # es) (Loc_entry (unat idx)) (Suc (length (wk_log w))) \<le>
      last_store (wk_log w @ e # es) (Loc_entry (unat idx)) (length (wk_log w @ e # es))" by (rule last_store_mono) simp
  ultimately show "store_loc e \<noteq> Loc_entry (unat idx)" by (auto simp: nth_append split: if_splits)
qed

text \<open>
  C19. The order of the other stores. An iterator made by a reader, from whatever frontier its relaxed load
  returns, does not fail its assertion and covers every index the reader has found present. A handle
  taken after a removal was marked never finds that index present, until the removal is finalized; so
  when \<open>finalize_remove\<close> may be called, no handle can find it present or has found it so.
\<close>

theorem frontier_and_removal_order:
  assumes "entry_layout_ok ent" and "weak_reach ent n w" and "h \<in> set (wk_handles w)"
  shows "(\<forall>u r h'. weak_iter_new w u h = Some (r, h') \<longrightarrow>
       (\<exists>it. r = Inr it \<and> it_head it = 0 \<and> (\<forall>(i, t) \<in> set (h_seen h). i < unat (it_tail it)))) \<and>
    (\<forall>idx m. (idx, m) \<in> set (wk_marks w) \<longrightarrow> m \<le> h_birth h \<longrightarrow>
       (\<forall>t. (unat idx, t) \<notin> set (h_seen h)) \<and>
       (\<forall>t r h'. weak_get w t idx h = Some (r, h') \<longrightarrow> r = Inr None))"
proof (intro conjI allI impI)
  have inv: "weak_inv w" by (rule weak_reach_inv [OF assms(1,2)])
  have h: "handle_ok (wk_init w) (wk_log w @ wk_todo w) (length (wk_log w)) h" by (rule weak_invD(2) [OF inv assms(3)])
  note hist = weak_invD(1) [OF inv]
  show "\<exists>it. r = Inr it \<and> it_head it = 0 \<and> (\<forall>(i, t) \<in> set (h_seen h). i < unat (it_tail it))"
    if new: "weak_iter_new w u h = Some (r, h')" for u r h'
  proof -
    let ?f = "st_frontier (mem_at (wk_init w) (wk_log w) u)"
    have u: "h_view h Loc_frontier \<le> u" "u \<le> length (wk_log w)"
      using new by (auto simp: weak_iter_new_def weak_load_frontier_def split: option.splits if_splits)
    have "?f \<le> st_size (wk_init w)"
      using storage_wf_dests(4) [OF hist_okD [OF hist u(2)]] by (simp add: word_le_nat_alt mem_at_lengths)
    then have r: "r = Inr \<lparr>it_head = 0, it_tail = ?f\<rparr>"
      using new u by (simp add: weak_iter_new_def weak_load_frontier_def wk_mem_def rassert_def)
    have "i < unat ?f" if "(i, t) \<in> set (h_seen h)" for i t
    proof -
      have "i < unat (st_frontier (mem_at (wk_init w) (wk_log w @ wk_todo w) (h_view h Loc_frontier)))"
        using h that by (auto simp: handle_ok_def)
      also have "\<dots> \<le> unat ?f" using frontier_mono [OF hist u(1)] u(2) by simp
      finally show ?thesis .
    qed
    then show ?thesis using r by auto
  qed
  fix idx m assume mark: "(idx, m) \<in> set (wk_marks w)" and told: "m \<le> h_birth h"
  have "mark_ok (wk_init w) (wk_log w @ wk_todo w) (idx, m)" using inv mark by (simp add: weak_inv_def log_inv_def)
  then have clear: "\<not> flagged (wk_init w) (wk_log w @ wk_todo w) t (unat idx)" if "h_birth h \<le> t" "t \<le> length (wk_log w)" for t
    using told that unfolding mark_ok_def by (auto simp del: flagged_append)
  show "(unat idx, t) \<notin> set (h_seen h)" for t
    using h clear [of t] by (fastforce simp: handle_ok_def)
  show "r = Inr None" if "weak_get w t idx h = Some (r, h')" for t r h'
    using get_found [OF inv assms(3) that] clear [of t] by (auto simp: visible_at_def flagged_def wk_mem_def split: if_splits)
qed

section \<open>A run\<close>

text \<open>
  A slab of two; a handle taken at the start; item 7 inserted at index 0, in three stores; index 0
  marked as removed, in one; a handle taken then. The first handle may still read the flag of index 0
  as the insertion stored it.
\<close>

definition demo_handle :: "nat \<Rightarrow> handle" where
  "demo_handle t = \<lparr>h_birth = t, h_view = (\<lambda>_. t), h_seen = []\<rparr>"

definition demo_marked :: "nat cslab" where
  "demo_marked = demo_slab\<lparr>in_use := 0, storage := (storage demo_slab)\<lparr>st_bitmap := [0]\<rparr>\<rparr>"

definition weak_demo :: "nat weak" where
  "weak_demo =
     \<lparr>wk_init = \<lparr>st_size = 2, st_frontier = 0, st_table = [Next_free 0, Next_free 0], st_bitmap = [0]\<rparr>,
      wk_slab = demo_marked,
      wk_log = [St_entry 0 (Item 7), St_frontier 1 Relaxed, St_word 0 1 Release, St_word 0 0 Release],
      wk_todo = [], wk_handles = [demo_handle 4, demo_handle 0], wk_marks = [(0, 4)]\<rparr>"

lemma demo_mark_removed: "cslab_mark_removed demo_slab 0 = Inr demo_marked"
  by (simp add: cslab_mark_removed_def demo_marked_def demo_slab_def ssub_def usub_def
      load_flags_def store_flags_def flag_of_def clear_flag_def res_simps)

lemma weak_demo_reach: "weak_reach entry8 2 weak_demo"
proof -
  let ?new = "\<lparr>first_free = 0, in_use = 0, allocated = 0, storage =
       \<lparr>st_size = 2, st_frontier = 0, st_table = [Next_free 0, Next_free 0 :: nat entry], st_bitmap = [0]\<rparr>\<rparr>"
  let ?w0 = "\<lparr>wk_init = storage ?new, wk_slab = ?new, wk_log = [], wk_todo = [], wk_handles = [demo_handle 0], wk_marks = []\<rparr>"
  let ?w1 = "?w0\<lparr>wk_slab := demo_slab, wk_log := [St_entry 0 (Item 7), St_frontier 1 Relaxed, St_word 0 1 Release]\<rparr>"
  have four: "Suc (Suc (Suc (Suc 0))) = 4" by simp
  have "weak_reach entry8 2 ?w0"
    using weak_more [OF weak_start [OF demo_new] weak_reader] by (simp add: demo_handle_def)
  from weak_flush [OF weak_more [OF this weak_insert [of ?w0 7 demo_slab 0]]] demo_insert
  have "weak_reach entry8 2 ?w1" by (simp add: insert_stores_def set_flag_def)
  from weak_flush [OF weak_more [OF this weak_mark [of ?w1 0 demo_marked]]] demo_mark_removed
  have "weak_reach entry8 2 (weak_demo\<lparr>wk_handles := [demo_handle 0]\<rparr>)"
    by (simp add: mark_stores_def clear_flag_def demo_slab_def weak_demo_def four)
  from weak_more [OF this weak_reader] show ?thesis by (simp add: weak_demo_def demo_handle_def four)
qed

lemma last_store_numeral:
  "last_store log l (numeral k) =
    (if pred_numeral k < length log \<and> store_loc (log ! pred_numeral k) = l then numeral k else last_store log l (pred_numeral k))"
  by (simp add: numeral_eq_Suc)

lemmas weak_eval = last_store_numeral weak_contains_key_def weak_load_word_def load_view_def storage_len_def wk_mem_def mem_at_def see_def
  weak_demo_def demo_handle_def flag_of_def

theorem concurrent_reads_safe_witness:
  "weak_reach entry8 2 weak_demo \<and> visible_at (wk_mem weak_demo 3) 0 = Some 7 \<and> visible_at (wk_mem weak_demo 4) 0 = None \<and>
    (\<exists>h'. weak_get weak_demo 3 0 (demo_handle 0) = Some (Inr (Some 7), h'))"
proof -
  have mem: "demo_handle 0 \<in> set (wk_handles weak_demo)" by (simp add: weak_demo_def)
  note safe = concurrent_reads_safe [OF entry8_ok weak_demo_reach mem, THEN conjunct1, rule_format]
  have now: "visible_at (wk_mem weak_demo 3) 0 = Some 7" "visible_at (wk_mem weak_demo 4) 0 = None"
    by code_simp+
  obtain h' where "weak_contains_key weak_demo 3 0 (demo_handle 0) = Some (True, h')"
    by (simp add: weak_eval)
  then obtain r where get: "weak_get weak_demo 3 0 (demo_handle 0) = Some (r, h')" "r \<noteq> Inr None"
    by (cases "weak_get_unchecked weak_demo 0 h'") (simp_all add: weak_get_def)
  show ?thesis using safe [OF get(1)] get now weak_demo_reach by auto
qed

theorem frontier_and_removal_order_witness:
  "weak_reach entry8 2 weak_demo \<and> (0, 4) \<in> set (wk_marks weak_demo) \<and>
    (\<exists>h'. weak_get weak_demo 4 0 (demo_handle 4) = Some (Inr None, h'))"
proof -
  have mem: "demo_handle 4 \<in> set (wk_handles weak_demo)" "(0, 4) \<in> set (wk_marks weak_demo)" "4 \<le> h_birth (demo_handle 4)"
    by (simp_all add: weak_demo_def demo_handle_def)
  note order = frontier_and_removal_order [OF entry8_ok weak_demo_reach mem(1), THEN conjunct2, rule_format, OF mem(2,3), THEN conjunct2, rule_format]
  have "weak_get weak_demo 4 0 (demo_handle 4) \<noteq> None" by (simp add: weak_get_def weak_eval)
  then obtain r h' where "weak_get weak_demo 4 0 (demo_handle 4) = Some (r, h')" by auto
  then show ?thesis using order mem(2) weak_demo_reach by blast
qed

end
