(* ===== verification/Rcu_Weak.thy ===== *)
theory Rcu_Weak
  imports Rcu_Props Cslab_Weak_Props "HOL-Library.Multiset"
begin

text \<open>
  \<open>RcuCslab\<close> keeps the protocol that \<open>Cslab\<close> asks of its users: every program that uses an \<open>RcuCslab\<close>
  is a program of one writer and its readers in the release-acquire model, in which a removal is
  finalized only when every handle taken before its mark is gone. So what holds for readers there
  holds for the readers of an \<open>RcuCslab\<close>.
\<close>

section \<open>Handles and generations\<close>

text \<open>
  \<open>ps\<close> pairs the generation of every handle of the \<open>RcuCslab\<close> with its handle in the release-acquire
  model. A pending removal of generation \<open>g\<close> is marked there, and the handles of every later
  generation were taken after the mark.
\<close>

definition tagged :: "'a rcu \<Rightarrow> (nat \<times> handle) list \<Rightarrow> 'a weak \<Rightarrow> bool" where
  "tagged s ps w \<longleftrightarrow> wk_slab w = rc_writer s \<and> map snd ps = wk_handles w \<and>
     (\<forall>g. \<forall>i \<in> set (pending_of s g). \<exists>t. (i, t) \<in> set (wk_marks w) \<and> (\<forall>(r, h) \<in> set ps. g < r \<longrightarrow> t \<le> h_birth h))"

definition rcu_weak_sim :: "'a world \<Rightarrow> 'a weak \<Rightarrow> bool" where
  "rcu_weak_sim W w \<longleftrightarrow> (\<exists>ps. mset (map fst ps) = mset (world_handles W) \<and> tagged (w_rcu W) ps w)"

lemma tagged_same: "rc_writer s' = rc_writer s \<Longrightarrow> pending_of s' = pending_of s \<Longrightarrow> tagged s' ps w = tagged s ps w"
  by (simp add: tagged_def)

lemma tagged_pending:
  assumes "tagged s ps w" and "i \<in> set (pending_of s g)"
  obtains t where "(i, t) \<in> set (wk_marks w)" and "\<And>r h. (r, h) \<in> set ps \<Longrightarrow> g < r \<Longrightarrow> t \<le> h_birth h"
proof -
  obtain t where t: "(i, t) \<in> set (wk_marks w)" and all: "\<forall>(r, h) \<in> set ps. g < r \<longrightarrow> t \<le> h_birth h"
    using assms unfolding tagged_def by meson
  show thesis by (rule that [OF t]) (use all in auto)
qed

lemma tagged_flush:
  assumes "tagged s ps w"
  shows "\<exists>w'. rtranclp weak_step w w' \<and> wk_todo w' = [] \<and> tagged s ps w'"
  using weak_flush_steps [of w] assms
  by (intro exI [of _ "w\<lparr>wk_log := wk_log w @ wk_todo w, wk_todo := []\<rparr>"]) (simp add: tagged_def)

section \<open>Handles come and go\<close>

lemma tagged_drop:
  assumes "tagged s (ps1 @ (r, h) # ps2) w"
  shows "\<exists>w'. weak_step w w' \<and> wk_todo w' = wk_todo w \<and> tagged s (ps1 @ ps2) w'"
proof -
  let ?w = "w\<lparr>wk_handles := map snd ps1 @ map snd ps2\<rparr>"
  have "wk_handles w = map snd ps1 @ h # map snd ps2" using assms by (simp add: tagged_def)
  then have "weak_step w ?w" by (rule weak_drop)
  moreover have "tagged s (ps1 @ ps2) ?w" using assms by (fastforce simp: tagged_def)
  ultimately show ?thesis by (intro exI [of _ ?w]) simp
qed

lemma tagged_reader:
  assumes "tagged s ps w" and "wk_todo w = []" and inv: "weak_inv w"
  shows "\<exists>h w'. weak_step w w' \<and> wk_todo w' = [] \<and> tagged s ((r, h) # ps) w'"
proof -
  let ?h = "\<lparr>h_birth = length (wk_log w), h_view = (\<lambda>_. length (wk_log w)), h_seen = []\<rparr>"
  let ?w = "w\<lparr>wk_handles := ?h # wk_handles w\<rparr>"
  have "t \<le> length (wk_log w)" if "(i, t) \<in> set (wk_marks w)" for i t
  proof -
    have "mark_ok (wk_init w) (wk_log w @ wk_todo w) (i, t)" using inv that by (simp add: weak_inv_def log_inv_def)
    then show ?thesis using assms(2) by (simp add: mark_ok_def)
  qed
  then have "tagged s ((r, ?h) # ps) ?w" using assms(1) by (fastforce simp: tagged_def)
  then show ?thesis using weak_reader [OF assms(2)] assms(2) by (intro exI [of _ ?h] exI [of _ ?w]) simp
qed

lemma tagged_clone:
  assumes "tagged s ps w" and "(r, h) \<in> set ps"
  shows "\<exists>h' w'. weak_step w w' \<and> wk_todo w' = wk_todo w \<and> tagged s ((r, h') # ps) w'"
proof -
  let ?h = "h\<lparr>h_seen := []\<rparr>"
  let ?w = "w\<lparr>wk_handles := ?h # wk_handles w\<rparr>"
  have "wk_handles w = map snd ps" using assms(1) by (simp add: tagged_def)
  then have "h \<in> set (wk_handles w)" using imageI [OF assms(2), of snd] by simp
  then have "weak_step w ?w" by (rule weak_clone)
  moreover have "tagged s ((r, ?h) # ps) ?w" using assms by (fastforce simp: tagged_def)
  ultimately show ?thesis by (intro exI [of _ ?h] exI [of _ ?w]) simp
qed

section \<open>The writer's operations\<close>

lemma tagged_insert:
  assumes "tagged s ps w" and "wk_todo w = []" and "cslab_insert (rc_writer s) v = Inr (x, Inr i)"
  shows "\<exists>w'. rtranclp weak_step w w' \<and> tagged (s\<lparr>rc_writer := x\<rparr>) ps w'"
proof -
  let ?w = "w\<lparr>wk_slab := x, wk_todo := insert_stores (wk_slab w) v\<rparr>"
  have "weak_step w ?w" using assms by (intro weak_insert) (simp_all add: tagged_def)
  moreover have "tagged (s\<lparr>rc_writer := x\<rparr>) ps ?w" using assms(1) by (simp add: tagged_def pending_of_def)
  ultimately show ?thesis by blast
qed

lemma tagged_mark:
  assumes "tagged s ps w" and "wk_todo w = []" and "cslab_mark_removed (rc_writer s) i = Inr (rc_writer s')"
    and "\<forall>k. pending_of s' k = (if k = g then pending_of s g @ [i] else pending_of s k)"
    and "\<forall>r \<in> set (map fst ps). r \<le> g"
  shows "\<exists>w'. rtranclp weak_step w w' \<and> tagged s' ps w'"
proof -
  let ?w = "w\<lparr>wk_slab := rc_writer s', wk_todo := mark_stores (wk_slab w) i, wk_marks := (i, length (wk_log w) + 1) # wk_marks w\<rparr>"
  have "weak_step w ?w" using assms(1-3) by (intro weak_mark) (simp_all add: tagged_def)
  moreover have "\<exists>t. (j, t) \<in> set (wk_marks ?w) \<and> (\<forall>(r, h) \<in> set ps. k < r \<longrightarrow> t \<le> h_birth h)"
    if "j \<in> set (pending_of s' k)" for j k
  proof (cases "j \<in> set (pending_of s k)")
    case True
    then obtain t where "(j, t) \<in> set (wk_marks w)" "\<And>r h. (r, h) \<in> set ps \<Longrightarrow> k < r \<Longrightarrow> t \<le> h_birth h"
      using tagged_pending [OF assms(1)] by blast
    then show ?thesis by auto
  next
    case False
    then have "k = g" "j = i" using that assms(4) by (auto split: if_splits)
    then show ?thesis using assms(5) by (intro exI [of _ "length (wk_log w) + 1"]) fastforce
  qed
  ultimately show ?thesis using assms(1) by (intro exI [of _ ?w]) (simp add: tagged_def)
qed

text \<open>Finalizing a list of removals, each marked before every handle was taken.\<close>

lemma finalize_run:
  assumes "wk_todo w = []" and "distinct is" and "finalize_list is (wk_slab w) = (x, Inr vs)"
    and "\<forall>i \<in> set is. \<exists>t. (i, t) \<in> set (wk_marks w) \<and> (\<forall>h \<in> set (wk_handles w). t \<le> h_birth h)"
  shows "\<exists>w'. rtranclp weak_step w w' \<and> wk_todo w' = [] \<and> wk_slab w' = x \<and> wk_handles w' = wk_handles w \<and>
    wk_marks w' = filter (\<lambda>(i, t). i \<notin> set is) (wk_marks w)"
  using assms
proof (induction "is" arbitrary: w vs)
  case Nil
  then show ?case by (intro exI [of _ w]) simp
next
  case (Cons i "is")
  obtain x1 v vs' where x1: "cslab_finalize_remove (wk_slab w) i = Inr (x1, v)" "finalize_list is x1 = (x, Inr vs')"
    using Cons.prems(3) by (auto simp: abind_def lift_writer_def aret_def split: prod.splits sum.splits)
  obtain t where t: "(i, t) \<in> set (wk_marks w)" "\<forall>h \<in> set (wk_handles w). t \<le> h_birth h" using Cons.prems(4) by auto
  let ?w = "w\<lparr>wk_slab := x1, wk_todo := finalize_stores (wk_slab w) i, wk_marks := filter (\<lambda>(j, _). j \<noteq> i) (wk_marks w)\<rparr>"
  let ?w1 = "?w\<lparr>wk_log := wk_log ?w @ wk_todo ?w, wk_todo := []\<rparr>"
  have "rtranclp weak_step w ?w1"
    using weak_finalize [OF Cons.prems(1) t x1(1)] weak_flush_steps [of ?w] by (rule converse_rtranclp_into_rtranclp)
  moreover obtain w' where w': "rtranclp weak_step ?w1 w'" "wk_todo w' = []" "wk_slab w' = x" "wk_handles w' = wk_handles ?w1"
    "wk_marks w' = filter (\<lambda>(j, t). j \<notin> set is) (wk_marks ?w1)"
  proof -
    have "\<forall>j \<in> set is. \<exists>t. (j, t) \<in> set (wk_marks ?w1) \<and> (\<forall>h \<in> set (wk_handles ?w1). t \<le> h_birth h)"
      using Cons.prems(2,4) by fastforce
    then show thesis using Cons.IH [of ?w1 vs'] x1(2) Cons.prems(2) that by auto
  qed
  moreover have "filter (\<lambda>(j, t). j \<notin> set is) (filter (\<lambda>(j, t). j \<noteq> i) (wk_marks w)) = filter (\<lambda>(j, t). j \<notin> set (i # is)) (wk_marks w)"
    by (auto intro!: filter_cong)
  ultimately show ?case by (intro exI [of _ w']) (auto intro: rtranclp_trans)
qed

text \<open>The generations that a release frees are older than every handle that is left.\<close>

lemma tagged_finalized:
  assumes tag: "tagged s ps w" and todo: "wk_todo w = []" and inv: "rcu_inv s ext lo" "rcu_inv s' ext' hi"
    and fin: "finalized s s' lo hi" "lo \<le> hi" "hi \<le> ngens s" and later: "\<forall>r \<in> set (map fst ps). hi \<le> r"
  shows "\<exists>w'. rtranclp weak_step w w' \<and> wk_todo w' = [] \<and> tagged s' ps w'"
proof -
  let ?is = "pending_in s lo hi"
  have split: "pending_in s lo (ngens s) = ?is @ pending_in s hi (ngens s)" by (rule pending_in_split [OF fin(2,3)])
  have dist: "distinct (pending_in s lo (ngens s))" using rcu_invD(4) [OF inv(1)] by (simp add: pending_wf_def)
  have slab: "wk_slab w = rc_writer s" "map snd ps = wk_handles w" using tag by (simp_all add: tagged_def)
  obtain vs where run: "finalize_list ?is (wk_slab w) = (rc_writer s', Inr vs)" using fin(1) slab by (auto simp: finalized_def)
  have told: "\<exists>t. (i, t) \<in> set (wk_marks w) \<and> (\<forall>h \<in> set (wk_handles w). t \<le> h_birth h)" if "i \<in> set ?is" for i
  proof -
    obtain g where g: "g < hi" "i \<in> set (pending_of s g)" using \<open>i \<in> set ?is\<close> by (auto simp: set_pending_in)
    obtain t where t: "(i, t) \<in> set (wk_marks w)" "\<And>r h. (r, h) \<in> set ps \<Longrightarrow> g < r \<Longrightarrow> t \<le> h_birth h"
      using tagged_pending [OF tag g(2)] by blast
    have "t \<le> h_birth h" if h: "h \<in> set (wk_handles w)" for h
    proof -
      obtain r where r: "(r, h) \<in> set ps" using h by (auto simp flip: slab(2))
      then have "hi \<le> r" using later by fastforce
      then show ?thesis using t(2) [OF r] g(1) by simp
    qed
    then show ?thesis using t(1) by blast
  qed
  obtain w' where w': "rtranclp weak_step w w'" "wk_todo w' = []" "wk_slab w' = rc_writer s'" "wk_handles w' = wk_handles w"
    "wk_marks w' = filter (\<lambda>(i, t). i \<notin> set ?is) (wk_marks w)"
    using finalize_run [OF todo _ run] told dist split by auto
  have "\<exists>t. (i, t) \<in> set (wk_marks w') \<and> (\<forall>(r, h) \<in> set ps. g < r \<longrightarrow> t \<le> h_birth h)" if i: "i \<in> set (pending_of s' g)" for i g
  proof -
    have "hi \<le> g" by (rule pending_bounds(1) [OF inv(2) i])
    then have same: "i \<in> set (pending_of s g)" using i fin(1) by (simp add: finalized_def)
    have "g < ngens s" by (rule pending_bounds(2) [OF inv(1) same])
    then have "i \<in> set (pending_in s hi (ngens s))" using same \<open>hi \<le> g\<close> by (auto simp: set_pending_in)
    then have "i \<notin> set ?is" using dist split by auto
    moreover obtain t where "(i, t) \<in> set (wk_marks w)" "\<And>r h. (r, h) \<in> set ps \<Longrightarrow> g < r \<Longrightarrow> t \<le> h_birth h"
      using tagged_pending [OF tag same] by blast
    ultimately show ?thesis unfolding w'(5) by auto
  qed
  then show ?thesis using w' slab(2) by (intro exI [of _ w']) (simp add: tagged_def)
qed

section \<open>The simulation\<close>

text \<open>A release of one of the references that \<open>ext\<close> counts; the handles that are left are counted beside it.\<close>

lemma tagged_arc_drop:
  assumes "tagged s ps w" and "wk_todo w = []" and inv: "rcu_inv s ext lo" and "0 < ext g"
    and left: "\<forall>r \<in> set (map fst ps). 0 < (ext(g := ext g - 1)) r" and "arc_drop g s = (s', x)"
  shows "\<exists>w'. rtranclp weak_step w w' \<and> tagged s' ps w'"
proof -
  obtain hi where hi: "lo \<le> hi" "rcu_inv s' (ext(g := ext g - 1)) hi" "freed s s' lo hi"
    using arc_drop_ok [OF inv assms(4)] assms(6) by auto
  have fin: "finalized s s' lo hi" "ngens s' = ngens s" using hi(3) by (simp_all add: freed_def)
  have "\<forall>r \<in> set (map fst ps). hi \<le> r" using left gens_wfD(4) [OF rcu_invD(3) [OF hi(2)]] by blast
  then show ?thesis
    using tagged_finalized [OF assms(1,2) inv hi(2) fin(1) hi(1)] gens_wfD(1) [OF rcu_invD(3) [OF hi(2)]] fin(2) by auto
qed

lemma tagged_advance:
  assumes "tagged s ps w" and "wk_todo w = []" and inv: "rcu_inv s ext lo" and cur: "Suc (rc_cur s) = ngens s"
    and "0 < ext (rc_cur s)" and left: "\<forall>r \<in> set (map fst ps). 0 < (ext(rc_cur s := ext (rc_cur s) - 1)) r"
    and "advance_generation s = (s', x)"
  shows "\<exists>w'. rtranclp weak_step w w' \<and> wk_todo w' = [] \<and> tagged s' ps w'"
proof -
  obtain hi where hi: "lo \<le> hi" "rcu_inv s' (ext(ngens s := 1, rc_cur s := ext (rc_cur s) - 1)) hi" "finalized s s' lo hi"
    using advance_ok [OF inv cur assms(5)] assms(7) by auto
  note gens = gens_wfD(4) [OF rcu_invD(3) [OF hi(2)]]
  have n: "hi \<le> ngens s" using gens [of "ngens s"] cur by simp
  have "hi \<le> r" if "0 < (ext(rc_cur s := ext (rc_cur s) - 1)) r" for r
    using that gens [of r] n by (cases "r = ngens s"; cases "r = rc_cur s") simp_all
  then have "\<forall>r \<in> set (map fst ps). hi \<le> r" using left by blast
  then show ?thesis using tagged_finalized [OF assms(1,2) inv hi(2,3,1) n] by blast
qed

text \<open>The references of a program count its handles.\<close>

lemma refs_handle: "r \<in># mset (world_handles W) \<Longrightarrow> 0 < world_refs W r"
  using ext_handle by simp

lemma refs_without:
  assumes "r \<in># mset (world_handles W) - {#g#}"
  shows "0 < ((world_refs W)(g := world_refs W g - 1)) r"
proof -
  have "0 < count (mset (world_handles W) - {#g#}) r" by (rule iffD2 [OF count_greater_zero_iff assms])
  then show ?thesis unfolding count_diff count_mset by (auto simp: world_refs_def split: if_splits)
qed

lemma refs_without_cur:
  assumes "r \<in># mset (world_handles W)" and "rc_owner (w_rcu W)"
  shows "0 < ((world_refs W)(rc_cur (w_rcu W) := world_refs W (rc_cur (w_rcu W)) - 1)) r"
proof -
  have "0 < count (mset (world_handles W)) r" by (rule iffD2 [OF count_greater_zero_iff assms(1)])
  then show ?thesis using assms(2) unfolding count_mset by (auto simp: world_refs_def)
qed

lemma sim_split:
  assumes "mset (map fst ps) = M" and "r \<in># M"
  obtains ps1 h ps2 where "ps = ps1 @ (r, h) # ps2" and "mset (map fst (ps1 @ ps2)) = M - {#r#}"
proof -
  have "r \<in> set (map fst ps)" using assms by (metis set_mset_mset)
  then obtain h where "(r, h) \<in> set ps" by auto
  then obtain ps1 ps2 where ps: "ps = ps1 @ (r, h) # ps2" by (meson split_list)
  then have "mset (map fst (ps1 @ ps2)) = M - {#r#}" using assms(1) by auto
  with ps show thesis by (rule that)
qed

text \<open>A handle is dropped, and its reference released.\<close>

lemma sim_release:
  assumes sim: "mset (map fst ps) = mset (world_handles W)" "tagged s ps w"
    and todo: "wk_todo w = []" and inv: "rcu_inv s (world_refs W) lo" and g: "g \<in> set (world_handles W)"
    and drop: "arc_drop g s = (s', x)"
  shows "\<exists>ps' w'. rtranclp weak_step w w' \<and> mset (map fst ps') = mset (world_handles W) - {#g#} \<and> tagged s' ps' w'"
proof -
  obtain ps1 h ps2 where ps: "ps = ps1 @ (g, h) # ps2" "mset (map fst (ps1 @ ps2)) = mset (world_handles W) - {#g#}"
    using sim_split [OF sim(1), of g] g by auto
  obtain w1 where w1: "weak_step w w1" "wk_todo w1 = []" "tagged s (ps1 @ ps2) w1"
    using tagged_drop [of s ps1 g h ps2 w] sim(2) ps(1) todo by auto
  have "\<forall>r \<in> set (map fst (ps1 @ ps2)). 0 < ((world_refs W)(g := world_refs W g - 1)) r"
    using refs_without [of _ W g] unfolding ps(2) [symmetric] by auto
  then obtain w' where "rtranclp weak_step w1 w'" "tagged s' (ps1 @ ps2) w'"
    using tagged_arc_drop [OF w1(3,2) inv ext_handle [OF g] _ drop] by blast
  with w1(1) ps(2) show ?thesis by (blast intro: converse_rtranclp_into_rtranclp)
qed

lemma release_pending: "writer_release ent s = (s', x) \<Longrightarrow> rc_writer s' = rc_writer s \<and> pending_of s' = pending_of s"
  by (auto simp: writer_release_def split: if_splits option.splits sum.splits)

lemma weak_inv_steps: "rtranclp weak_step w w' \<Longrightarrow> weak_inv w \<Longrightarrow> weak_inv w'"
  by (induction rule: rtranclp_induct) (auto dest: weak_inv_step)

text \<open>
  One lemma per kind of call. \<open>w\<close> is the release-acquire program with the stores of the last
  operation made, \<open>ps\<close> the pairing.
\<close>

lemma sim_insert:
  assumes "tagged s ps w" and "wk_todo w = []" and "\<not> rc_poisoned s" and "rcu_insert v s = (s', Inr r)"
  shows "\<exists>w'. rtranclp weak_step w w' \<and> tagged s' ps w'"
proof -
  obtain x where x: "cslab_insert (rc_writer s) v = Inr (x, r)" "s' = s\<lparr>rc_writer := x\<rparr>"
    using assms(3,4) by (auto simp: rcu_insert_def with_writer_def lift_writer_def split: sum.splits prod.splits)
  show ?thesis
  proof (cases r)
    case (Inl u)
    then have "x = rc_writer s" using x(1) by (auto simp: cslab_insert_def Let_def res_simps split: if_splits)
    then show ?thesis using assms(1) x(2) by (intro exI [of _ w]) simp
  next
    case (Inr i)
    then show ?thesis using tagged_insert [OF assms(1,2)] x by blast
  qed
qed

lemma sim_gen_mark:
  assumes "tagged s ps w" and "wk_todo w = []" and inv: "rcu_inv s ext lo" and g: "0 < ext g"
    and "gen_mark_removed g i s = (s', Inr ())" and "\<forall>r \<in> set (map fst ps). r \<le> g"
  shows "\<exists>w'. rtranclp weak_step w w' \<and> tagged s' ps w'" and "rcu_inv s' ext lo"
proof -
  have "rvisible s i \<noteq> None" using mark_absent_faults [OF inv, of i g] assms(5) by auto
  then obtain v where vis: "rvisible s i = Some v" by blast
  note bounds = gens_wfD(4,5) [OF rcu_invD(3) [OF inv] g]
  show inv': "rcu_inv s' ext lo" using gen_mark_ok [OF inv bounds vis] assms(5) by auto
  have pend: "\<forall>k. pending_of s' k = (if k = g then pending_of s g @ [i] else pending_of s k)"
    using gen_mark_ok [OF inv bounds vis] assms(5) by auto
  have "cslab_mark_removed (rc_writer s) i = Inr (rc_writer s')"
    using assms(5) rcu_invD(2) [OF inv] gens_wfD(2) [OF rcu_invD(3) [OF inv] bounds]
    by (auto simp: gen_mark_removed_def abind_def with_writer_def lift_writer_def with_inner_def res_simps
        split: sum.splits prod.splits if_splits option.splits)
  then show "\<exists>w'. rtranclp weak_step w w' \<and> tagged s' ps w'"
    by (rule tagged_mark [OF assms(1,2) _ pend assms(6)])
qed

lemma clone_same:
  assumes "arc_clone g s = (s', Inr u)"
  shows "rc_writer s' = rc_writer s" and "pending_of s' = pending_of s" and "rc_cur s' = rc_cur s"
proof -
  obtain gn where gn: "gen_at s g = Some gn" and s': "s' = set_gen g (Some (gn\<lparr>g_strong := g_strong gn + 1\<rparr>)) s"
    using assms by (auto simp: arc_clone_def split: option.splits)
  show "rc_writer s' = rc_writer s" "rc_cur s' = rc_cur s" by (simp_all add: s' set_gen_def)
  show "pending_of s' = pending_of s" using gn by (auto simp: s' pending_of_def gen_at_set_gen fun_eq_iff)
qed

lemma sim_reader:
  assumes "tagged s ps w" and "wk_todo w = []" and "weak_inv w" and "rcu_reader s = (s', Inr g)"
  shows "\<exists>h w'. rtranclp weak_step w w' \<and> tagged s' ((g, h) # ps) w'"
proof -
  obtain u where "arc_clone (rc_cur s) s = (s', Inr u)"
    using assms(4) by (auto simp: rcu_reader_def abind_def split: prod.splits sum.splits)
  note same = clone_same [OF this]
  obtain h w' where "weak_step w w'" "tagged s ((g, h) # ps) w'" using tagged_reader [OF assms(1-3)] by blast
  then show ?thesis using tagged_same [OF same(1,2)] by blast
qed

lemma sim_wrap:
  assumes "tagged s ps w" and "wk_todo w = []" and "weak_inv w" and "rim_wrap rim x s = (s', Inr (rim', y))"
  shows "\<exists>ps' w'. rtranclp weak_step w w' \<and> tagged s' ps' w' \<and>
    mset (map fst ps') = mset (map re_gen (option_list y)) + mset (map fst ps)"
proof (cases y)
  case None
  then have "s' = s" using assms(4)
    by (auto simp: rim_wrap_def abind_def split: sum.splits option.splits prod.splits)
  then show ?thesis using assms(1) None by (intro exI [of _ ps] exI [of _ w]) simp
next
  case (Some e)
  then obtain u where "arc_clone (rc_cur s) s = (s', Inr u)" and e: "re_gen e = rc_cur s"
    using assms(4) by (auto simp: rim_wrap_def abind_def split: sum.splits option.splits prod.splits)
  note same = clone_same [OF this(1)]
  obtain h w' where "weak_step w w'" "tagged s ((rc_cur s, h) # ps) w'" using tagged_reader [OF assms(1-3)] by blast
  then show ?thesis using tagged_same [OF same(1,2)] e Some
    by (intro exI [of _ "(rc_cur s, h) # ps"] exI [of _ w']) auto
qed

lemma sim_schedule:
  assumes tag: "tagged s ps w" "wk_todo w = []" and weak: "weak_inv w" and inv: "rcu_inv s ext lo"
    and cur: "Suc (rc_cur s) = ngens s" "0 < ext (rc_cur s)"
    and left: "\<forall>r \<in> set (map fst ps). 0 < (ext(rc_cur s := ext (rc_cur s) - 1)) r"
    and "rcu_schedule_finalization s = (s', Inr g)"
  shows "\<exists>h w'. rtranclp weak_step w w' \<and> tagged s' ((g, h) # ps) w'"
proof -
  obtain s1 where s1: "advance_generation s = (s1, Inr ())" "rcu_reader s1 = (s', Inr g)"
    using assms(8) by (auto simp: rcu_schedule_finalization_def abind_def split: prod.splits sum.splits)
  obtain w1 where w1: "rtranclp weak_step w w1" "wk_todo w1 = []" "tagged s1 ps w1"
    using tagged_advance [OF tag inv cur left s1(1)] by blast
  obtain h w2 where "rtranclp weak_step w1 w2" "tagged s' ((g, h) # ps) w2"
    using sim_reader [OF w1(3,2) weak_inv_steps [OF w1(1) weak] s1(2)] by blast
  then show ?thesis using w1(1) by (meson rtranclp_trans)
qed

lemma sim_entry_remove:
  assumes sim: "mset (map fst ps) = mset (world_handles W)" and tag: "tagged s ps w" "wk_todo w = []"
    and inv: "rcu_inv s (world_refs W) lo" and g: "re_gen e \<in> set (world_handles W)"
    and upper: "\<forall>r \<in> set (map fst ps). r \<le> re_gen e" and "entry_remove e s = (s', Inr ())"
  shows "\<exists>ps' w'. rtranclp weak_step w w' \<and> mset (map fst ps') = mset (world_handles W) - {#re_gen e#} \<and> tagged s' ps' w'"
proof -
  obtain s1 where s1: "gen_mark_removed (re_gen e) (re_idx e) s = (s1, Inr ())" "arc_drop (re_gen e) s1 = (s', Inr ())"
    using assms(7) by (auto simp: entry_remove_def entry_drop_def after_Inr_iff)
  note mark = sim_gen_mark [OF tag inv ext_handle [OF g] s1(1) upper]
  obtain w1 where w1: "rtranclp weak_step w w1" "wk_todo w1 = []" "tagged s1 ps w1"
    using mark(1) tagged_flush by (meson rtranclp_trans)
  obtain ps' w2 where "rtranclp weak_step w1 w2" "tagged s' ps' w2" "mset (map fst ps') = mset (world_handles W) - {#re_gen e#}"
    using sim_release [OF sim w1(3,2) mark(2) g s1(2)] by blast
  then show ?thesis using w1(1) by (meson rtranclp_trans)
qed

lemma simI:
  "\<exists>w'. rtranclp weak_step w w' \<and> tagged (w_rcu W') ps w' \<Longrightarrow> mset (map fst ps) = mset (world_handles W') \<Longrightarrow>
    \<exists>w'. rtranclp weak_step w w' \<and> rcu_weak_sim W' w'"
  unfolding rcu_weak_sim_def by blast

lemma mset_handles:
  "mset (world_handles (W\<lparr>w_rcu := s\<rparr>)) = mset (world_handles W)"
  "mset (world_handles (W\<lparr>w_rcu := s, w_iter := x\<rparr>)) = mset (world_handles W)"
  "mset (world_handles (W\<lparr>w_rcu := s, w_readers := g # w_readers W\<rparr>)) = add_mset g (mset (world_handles W))"
  "mset (world_handles (W\<lparr>w_rcu := s, w_iter := x, w_entries := es @ w_entries W\<rparr>)) = mset (map re_gen es) + mset (world_handles W)"
  "g \<in> set (w_readers W) \<Longrightarrow>
    mset (world_handles (W\<lparr>w_rcu := s, w_readers := remove1 g (w_readers W)\<rparr>)) = mset (world_handles W) - {#g#}"
  "e \<in> set (w_entries W) \<Longrightarrow>
    mset (world_handles (W\<lparr>w_rcu := s, w_entries := remove1 e (w_entries W)\<rparr>)) = mset (world_handles W) - {#re_gen e#}"
proof (simp_all add: world_handles_def)
  assume "e \<in> set (w_entries W)"
  then have "mset (w_entries W) = add_mset e (mset (w_entries W) - {#e#})" by simp
  then have "image_mset re_gen (mset (w_entries W)) = add_mset (re_gen e) (image_mset re_gen (mset (w_entries W) - {#e#}))"
    by (metis image_mset_add_mset)
  then show "mset (w_readers W) + image_mset re_gen (mset (w_entries W) - {#e#}) =
      mset (w_readers W) + image_mset re_gen (mset (w_entries W)) - {#re_gen e#}" by simp
qed

lemma sim_step:
  assumes inv: "world_inv ent W" and step: "world_step ent W W'" and weak: "weak_inv w" and todo: "wk_todo w = []"
    and sim: "mset (map fst ps) = mset (world_handles W)" and tag: "tagged (w_rcu W) ps w"
  shows "\<exists>w'. rtranclp weak_step w w' \<and> rcu_weak_sim W' w'"
proof -
  let ?s = "w_rcu W" and ?c = "rc_cur (w_rcu W)"
  obtain lo where rcu: "rcu_inv ?s (world_refs W) lo" and cur: "rc_owner ?s \<Longrightarrow> Suc ?c = ngens ?s"
    using inv by (auto simp: world_inv_def)
  have handles: "set (map fst ps) = set (world_handles W)" using sim by (metis set_mset_mset)
  have left_cur: "\<forall>r \<in> set (map fst ps). 0 < ((world_refs W)(?c := world_refs W ?c - 1)) r" if "rc_owner ?s"
    using refs_without_cur [OF _ that] unfolding handles by simp
  note advance = tagged_advance [OF tag todo rcu cur ext_cur left_cur]
  from step show ?thesis
  proof cases
    case (step_insert v s r)
    show ?thesis
      using sim_insert [OF tag todo rcu_invD(2) [OF rcu] step_insert(3)] sim step_insert(1)
      by (intro simI [of w W' ps]) (simp_all add: mset_handles del: mset_map)
  next
    case (step_mark i s u)
    then have owner: "rc_owner ?s" by (simp add: slab_free_def)
    have "\<exists>w'. rtranclp weak_step w w' \<and> tagged s ps w'"
      using sim_gen_mark(1) [OF tag todo rcu ext_cur [OF owner], of i s] handles_upto_cur [OF inv owner] step_mark(3)
      unfolding handles by (simp add: rcu_mark_removed_def)
    then show ?thesis using sim step_mark(1) by (intro simI [of w W' ps]) (simp_all add: mset_handles del: mset_map)
  next
    case (step_reader s g)
    obtain h where "\<exists>w'. rtranclp weak_step w w' \<and> tagged s ((g, h) # ps) w'"
      using sim_reader [OF tag todo weak step_reader(3)] by blast
    then show ?thesis using sim step_reader(1) by (intro simI [of w W' "(g, h) # ps"]) (simp_all add: mset_handles del: mset_map)
  next
    case (step_schedule s g)
    then have owner: "rc_owner ?s" by (simp add: slab_free_def)
    obtain h where "\<exists>w'. rtranclp weak_step w w' \<and> tagged s ((g, h) # ps) w'"
      using sim_schedule [OF tag todo weak rcu cur [OF owner] ext_cur [OF owner] left_cur [OF owner] step_schedule(3)] by blast
    then show ?thesis using sim step_schedule(1) by (intro simI [of w W' "(g, h) # ps"]) (simp_all add: mset_handles del: mset_map)
  next
    case (step_clone g s g')
    then obtain u where u: "arc_clone g ?s = (s, Inr u)" "g' = g"
      by (auto simp: rcu_reader_clone_def abind_def aret_def split: prod.splits sum.splits)
    have "g \<in> set (map fst ps)" using step_clone(2) unfolding handles by (simp add: world_handles_def)
    then obtain h0 where "(g, h0) \<in> set ps" by auto
    then obtain h w1 where "weak_step w w1" "tagged ?s ((g, h) # ps) w1" using tagged_clone [OF tag] by blast
    then have "\<exists>w'. rtranclp weak_step w w' \<and> tagged s ((g, h) # ps) w'"
      using tagged_same [OF clone_same(1,2) [OF u(1)]] by blast
    then show ?thesis using sim step_clone(1) u(2) by (intro simI [of w W' "(g, h) # ps"]) (simp_all add: mset_handles del: mset_map)
  next
    case (step_reader_drop g s u)
    then have g: "g \<in> set (world_handles W)" by (simp add: world_handles_def)
    obtain s1 where s1: "arc_drop g ?s = (s1, Inr ())" "writer_release ent s1 = (s, Inr ())"
      using step_reader_drop(3) by (auto simp: rcu_reader_drop_def after_Inr_iff)
    note same = release_pending [OF s1(2)]
    obtain ps' where ps': "\<exists>w'. rtranclp weak_step w w' \<and> tagged s1 ps' w'" "mset (map fst ps') = mset (world_handles W) - {#g#}"
      using sim_release [OF sim tag todo rcu g s1(1)] by blast
    then show ?thesis using tagged_same [of s s1] same step_reader_drop(1,2)
      by (intro simI [of w W' ps']) (simp_all add: mset_handles del: mset_map)
  next
    case (step_iter_mut s rim)
    obtain rim' where "rcu_iter_mut_new ?s = (?s, Inr rim')" using step_iter_mut_ok [OF inv step_iter_mut(2)] by blast
    then have "s = ?s" using step_iter_mut(3) by simp
    then show ?thesis using sim tag step_iter_mut(1) by (intro simI [of w W' ps]) (auto simp: world_handles_def)
  next
    case (step_next rim s rim' x)
    then obtain ps' where "\<exists>w'. rtranclp weak_step w w' \<and> tagged s ps' w'"
      "mset (map fst ps') = mset (map re_gen (option_list x)) + mset (map fst ps)"
      using sim_wrap [OF tag todo weak] unfolding rim_next_def by blast
    then show ?thesis using sim step_next(1) by (intro simI [of w W' ps']) (simp_all add: mset_handles del: mset_map)
  next
    case (step_next_back rim s rim' x)
    then obtain ps' where "\<exists>w'. rtranclp weak_step w w' \<and> tagged s ps' w'"
      "mset (map fst ps') = mset (map re_gen (option_list x)) + mset (map fst ps)"
      using sim_wrap [OF tag todo weak] unfolding rim_next_back_def by blast
    then show ?thesis using sim step_next_back(1) by (intro simI [of w W' ps']) (simp_all add: mset_handles del: mset_map)
  next
    case (step_iter_drop rim s u)
    then have owner: "rc_owner ?s" using inv by (auto simp: world_inv_def iter_mut_ok_def)
    have "\<exists>w'. rtranclp weak_step w w' \<and> tagged s ps w'"
      using advance [OF owner owner owner] step_iter_drop(3) unfolding rim_drop_def by blast
    then show ?thesis using sim step_iter_drop(1) by (intro simI [of w W' ps]) (simp_all add: mset_handles del: mset_map)
  next
    case (step_entry_drop e s u)
    then have g: "re_gen e \<in> set (world_handles W)" by (simp add: world_handles_def)
    obtain ps' where ps': "\<exists>w'. rtranclp weak_step w w' \<and> tagged s ps' w'"
      "mset (map fst ps') = mset (world_handles W) - {#re_gen e#}"
      using sim_release [OF sim tag todo rcu g] step_entry_drop(3) unfolding entry_drop_def by blast
    then show ?thesis using step_entry_drop(1,2) by (intro simI [of w W' ps']) (simp_all add: mset_handles del: mset_map)
  next
    case (step_drop s u)
    then have owner: "rc_owner ?s" by (simp add: slab_free_def)
    let ?s0 = "?s\<lparr>rc_owner := False\<rparr>"
    have rcu0: "rcu_inv ?s0 (world_refs W) lo" using rcu by simp
    obtain s1 where s1: "arc_drop ?c ?s0 = (s1, Inr ())" "writer_release ent s1 = (s, Inr ())"
      using step_drop(3) by (auto simp: rcu_drop_def after_Inr_iff)
    note same = release_pending [OF s1(2)]
    have "tagged ?s0 ps w" using tag by (simp add: tagged_def)
    then have "\<exists>w'. rtranclp weak_step w w' \<and> tagged s1 ps w'"
      by (rule tagged_arc_drop [OF _ todo rcu0 ext_cur [OF owner] left_cur [OF owner] s1(1)])
    then show ?thesis using tagged_same [of s s1] same step_drop(1) sim
      by (intro simI [of w W' ps]) (simp_all add: mset_handles del: mset_map)
  next
    case (step_entry_remove e s u)
    let ?g = "re_gen e"
    have g: "?g \<in> set (world_handles W)" using step_entry_remove(2) by (simp add: world_handles_def)
    have upper: "\<forall>r \<in> set (map fst ps). r \<le> ?g"
      using inv step_entry_remove(2) unfolding handles by (auto simp: world_inv_def entries_ok_def)
    obtain ps' where ps': "\<exists>w'. rtranclp weak_step w w' \<and> tagged s ps' w'" "mset (map fst ps') = mset (world_handles W) - {#?g#}"
      using sim_entry_remove [OF sim tag todo rcu g upper] step_entry_remove(3) by auto
    then show ?thesis using ps' step_entry_remove(1,2) by (intro simI [of w W' ps']) (simp_all add: mset_handles del: mset_map)
  qed
qed

lemma world_step_sim:
  assumes ent: "entry_layout_ok ent" and "world_inv ent W" and "world_step ent W W'" and reach: "weak_reach ent n w" and "rcu_weak_sim W w"
  shows "\<exists>w'. rtranclp weak_step w w' \<and> rcu_weak_sim W' w'"
proof -
  obtain ps where ps: "mset (map fst ps) = mset (world_handles W)" "tagged (w_rcu W) ps w"
    using assms(5) by (auto simp: rcu_weak_sim_def simp del: mset_map)
  obtain w1 where w1: "rtranclp weak_step w w1" "wk_todo w1 = []" "tagged (w_rcu W) ps w1" using tagged_flush [OF ps(2)] by blast
  have "weak_inv w1" by (rule weak_inv_steps [OF w1(1) weak_reach_inv [OF ent reach]])
  then show ?thesis using sim_step [OF assms(2,3) _ w1(2) ps(1) w1(3)] w1(1) by (meson rtranclp_trans)
qed

lemma world_start_sim:
  assumes "rcu_with_fixed_capacity ent n = Inr s"
  shows "\<exists>w. weak_reach ent n w \<and> rcu_weak_sim (world_start s) w"
proof -
  obtain x where x: "cslab_with_fixed_capacity ent n = Inr x"
    and s: "s = \<lparr>rc_capacity = n, rc_writer = x, rc_poisoned = False, rc_gens = [Some new_gen], rc_cur = 0, rc_owner = True, rc_dropped = []\<rparr>"
    using assms by (auto simp: rcu_with_fixed_capacity_def res_simps)
  have "pending_of s g = []" for g by (simp add: s pending_of_def gen_at_def new_gen_def)
  then show ?thesis
    using weak_start [OF x] by (auto simp: rcu_weak_sim_def tagged_def world_start_def world_handles_def s intro!: exI)
qed

lemma world_reach_sim:
  assumes "entry_layout_ok ent" and "world_reach ent n W"
  shows "\<exists>w. weak_reach ent n w \<and> rcu_weak_sim W w"
  using assms(2)
proof induction
  case (reach_start s)
  then show ?case by (rule world_start_sim)
next
  case (reach_step W W')
  then show ?case
    using world_step_sim [OF assms(1) world_reach_inv [OF reach_step.hyps(1) assms(1)] reach_step.hyps(2)] weak_reach_steps by meson
qed

text \<open>What a handle has found present is in its slot, whatever stores the writer has still to make.\<close>

lemma sim_seen_slot:
  assumes inv: "weak_inv w" and sim: "rcu_weak_sim W w" and h: "h \<in> set (wk_handles w)" and seen: "(unat idx, t) \<in> set (h_seen h)"
  shows "\<exists>v. visible_at (wk_mem w t) (unat idx) = Some v \<and> rslot (w_rcu W) idx = Some v"
proof -
  let ?F = "wk_log w @ wk_todo w"
  have "\<forall>(i, t) \<in> set (h_seen h). t \<le> length (wk_log w) \<and> flagged (wk_init w) ?F t i \<and> last_store ?F (Loc_entry i) (length ?F) \<le> t"
    using weak_invD(2) [OF inv h] by (auto simp: handle_ok_def)
  then have t: "t \<le> length (wk_log w)" "flagged (wk_init w) ?F t (unat idx)" "last_store ?F (Loc_entry (unat idx)) (length ?F) \<le> t"
    using seen by auto
  obtain v where v: "slot_at (mem_at (wk_init w) ?F (length ?F)) (unat idx) = Some v" "slot_at (mem_at (wk_init w) ?F t) (unat idx) = Some v"
    using seen_slot [OF weak_invD(1) [OF inv] t(2,3) _ order_refl] t(1) by auto
  have "rcu_storage (w_rcu W) = mem_at (wk_init w) ?F (length ?F)"
    using inv sim by (auto simp: weak_inv_def rcu_weak_sim_def tagged_def)
  then show ?thesis using v t(1,2) by (auto simp: cslab_slot_def wk_mem_def visible_at_def flagged_def)
qed

text \<open>A load by a reader, or one of the stores of the writer's current operation.\<close>

definition weak_quiet :: "'a weak \<Rightarrow> 'a weak \<Rightarrow> bool" where
  "weak_quiet w w' \<longleftrightarrow> weak_step w w' \<and> wk_slab w' = wk_slab w \<and> wk_marks w' = wk_marks w \<and>
     map h_birth (wk_handles w') = map h_birth (wk_handles w)"

lemma weak_quiet_sim:
  assumes "rcu_weak_sim W w" and "weak_quiet w w'"
  shows "rcu_weak_sim W w'"
proof -
  obtain ps where ps: "mset (map fst ps) = mset (world_handles W)" "tagged (w_rcu W) ps w"
    using assms(1) by (auto simp: rcu_weak_sim_def simp del: mset_map)
  let ?ps = "zip (map fst ps) (wk_handles w')"
  have births: "map h_birth (wk_handles w') = map (h_birth \<circ> snd) ps" "wk_handles w = map snd ps"
    using assms(2) ps(2) by (auto simp: weak_quiet_def tagged_def simp flip: map_map)
  then have len: "length (wk_handles w') = length ps" by (metis length_map)
  have birth: "\<exists>h'. (r, h') \<in> set ps \<and> h_birth h' = h_birth h" if rh: "(r, h) \<in> set ?ps" for r h
  proof -
    obtain i where i: "i < length ps" "r = fst (ps ! i)" "h = wk_handles w' ! i" using rh len by (auto simp: set_zip)
    have "h_birth h = h_birth (snd (ps ! i))" using arg_cong [OF births(1), of "\<lambda>l. l ! i"] i len by simp
    then show ?thesis using i nth_mem [OF i(1)] by (intro exI [of _ "snd (ps ! i)"]) simp
  qed
  have "\<exists>t. (i, t) \<in> set (wk_marks w') \<and> (\<forall>(r, h) \<in> set ?ps. g < r \<longrightarrow> t \<le> h_birth h)"
    if i: "i \<in> set (pending_of (w_rcu W) g)" for i g
  proof -
    obtain t where t: "(i, t) \<in> set (wk_marks w)" "\<And>r h. (r, h) \<in> set ps \<Longrightarrow> g < r \<Longrightarrow> t \<le> h_birth h"
      using tagged_pending [OF ps(2) i] by blast
    have "t \<le> h_birth h" if "(r, h) \<in> set ?ps" "g < r" for r h using birth [OF that(1)] t(2) that(2) by metis
    then show ?thesis using t(1) assms(2) by (intro exI [of _ t]) (auto simp: weak_quiet_def)
  qed
  then have "tagged (w_rcu W) ?ps w'"
    using ps(2) assms(2) len by (simp add: tagged_def weak_quiet_def)
  moreover have "mset (map fst ?ps) = mset (world_handles W)" using ps(1) len by simp
  ultimately show ?thesis unfolding rcu_weak_sim_def by blast
qed

text \<open>
  C3. An \<open>RcuCslab\<close> keeps the protocol of \<open>Cslab\<close> in the release-acquire model. Its new slab corresponds
  to a program there; every call of a program that uses it, with all the finalizations the call
  causes, is a run of the writer and of the handles there, in which no removal is finalized before
  every handle taken before its mark is gone; loads by readers and the single stores of a call keep
  the correspondence; and what a handle has found present, however stale the flag it read, is still
  the item in its slot.
\<close>

theorem rcu_slab_keeps_protocol:
  assumes "entry_layout_ok ent"
  shows "(\<forall>s. rcu_with_fixed_capacity ent n = Inr s \<longrightarrow> (\<exists>w. weak_reach ent n w \<and> rcu_weak_sim (world_start s) w)) \<and>
    (\<forall>W W' w. world_reach ent n W \<and> world_step ent W W' \<and> weak_reach ent n w \<and> rcu_weak_sim W w \<longrightarrow>
       (\<exists>w'. rtranclp weak_step w w' \<and> weak_reach ent n w' \<and> rcu_weak_sim W' w')) \<and>
    (\<forall>W w w'. rcu_weak_sim W w \<and> weak_quiet w w' \<longrightarrow> rcu_weak_sim W w') \<and>
    (\<forall>W w h idx t. weak_reach ent n w \<and> rcu_weak_sim W w \<and> h \<in> set (wk_handles w) \<and> (unat idx, t) \<in> set (h_seen h) \<longrightarrow>
       (\<exists>v. visible_at (wk_mem w t) (unat idx) = Some v \<and> rslot (w_rcu W) idx = Some v))"
proof (intro conjI allI impI; (elim conjE)?)
  show "\<exists>w. weak_reach ent n w \<and> rcu_weak_sim (world_start s) w" if "rcu_with_fixed_capacity ent n = Inr s" for s
    by (rule world_start_sim [OF that])
  show "\<exists>w'. rtranclp weak_step w w' \<and> weak_reach ent n w' \<and> rcu_weak_sim W' w'"
    if "world_reach ent n W" "world_step ent W W'" "weak_reach ent n w" "rcu_weak_sim W w" for W W' w
    using world_step_sim [OF assms world_reach_inv [OF that(1) assms] that(2-4)] weak_reach_steps [OF _ that(3)] by blast
  show "rcu_weak_sim W w'" if "rcu_weak_sim W w" "weak_quiet w w'" for W w w'
    by (rule weak_quiet_sim [OF that])
  show "\<exists>v. visible_at (wk_mem w t) (unat idx) = Some v \<and> rslot (w_rcu W) idx = Some v"
    if "weak_reach ent n w" "rcu_weak_sim W w" "h \<in> set (wk_handles w)" "(unat idx, t) \<in> set (h_seen h)" for W w h t and idx :: usize
    by (rule sim_seen_slot [OF weak_reach_inv [OF assms that(1)] that(2-4)])
qed

theorem rcu_slab_keeps_protocol_witness:
  "\<exists>w w'. weak_reach entry8 2 w \<and> rcu_weak_sim demo_world w \<and> rtranclp weak_step w w' \<and>
    rcu_weak_sim (demo_world\<lparr>w_rcu := fst (rcu_mark_removed 0 demo_rcu)\<rparr>) w'"
proof -
  have "world_step entry8 demo_world (demo_world\<lparr>w_rcu := fst (rcu_mark_removed 0 demo_rcu)\<rparr>)"
    by (rule step_mark [OF demo_world_free, of 0 _ "()"]) (simp add: demo_mark demo_world_def)
  moreover obtain w where "weak_reach entry8 2 w" "rcu_weak_sim demo_world w"
    using world_reach_sim [OF entry8_ok demo_world_reach] by blast
  ultimately show ?thesis
    using rcu_slab_keeps_protocol [OF entry8_ok, THEN conjunct2, THEN conjunct1] demo_world_reach by blast
qed

end
