(* ===== verification/Cslab_Loom.thy ===== *)
theory Cslab_Loom
  imports Cslab_Weak_Props Cslab_Tests
begin

text \<open>
  The tests of \<open>src/cslab/src/lib.rs\<close> that run under \<open>loom\<close>, which explores the interleavings of their
  threads. The two on \<open>Cslab\<close> are the runs of two threads over the release-acquire memory, store by
  store; the one on \<open>RcuCslab\<close> interleaves whole operations. That they pass is shown for every run.
\<close>

section \<open>A reader beside an insertion\<close>

text \<open>
  The main thread takes a reader, spawns the thread that looks up index 0, and inserts 123. The run
  ends with the result of the lookup; the thread drops the reader with its last statement.
\<close>

definition loom_start :: "int cslab \<Rightarrow> int weak" where
  "loom_start s = \<lparr>wk_init = storage s, wk_slab = s, wk_log = [], wk_todo = [],
     wk_handles = [\<lparr>h_birth = 0, h_view = (\<lambda>_. 0), h_seen = []\<rparr>], wk_marks = []\<rparr>"

inductive insert_get_run :: "bool \<Rightarrow> int weak \<Rightarrow> ((int option) res) option \<Rightarrow> bool" where
  ig_spawn: "cslab_with_fixed_capacity entry8 4 = Inr s \<Longrightarrow> insert_get_run False (loom_start s) None"
| ig_insert: "insert_get_run False w r \<Longrightarrow> cslab_insert (wk_slab w) 123 = Inr (s', Inr idx) \<Longrightarrow>
    insert_get_run True (w\<lparr>wk_slab := s', wk_todo := insert_stores (wk_slab w) 123\<rparr>) r"
| ig_store: "insert_get_run b w r \<Longrightarrow> wk_todo w = e # es \<Longrightarrow>
    insert_get_run b (w\<lparr>wk_log := wk_log w @ [e], wk_todo := es\<rparr>) r"
| ig_get: "insert_get_run b w None \<Longrightarrow> wk_handles w = [h] \<Longrightarrow> weak_get w t 0 h = Some (r, h') \<Longrightarrow>
    insert_get_run b (w\<lparr>wk_handles := []\<rparr>) (Some r)"

definition loom0 :: "int cslab" where
  "loom0 = \<lparr>first_free = 0, in_use = 0, allocated = 0, storage =
     \<lparr>st_size = 4, st_frontier = 0, st_table = [Next_free 0, Next_free 0, Next_free 0, Next_free 0], st_bitmap = [0]\<rparr>\<rparr>"

definition loom1 :: "int cslab" where
  "loom1 = \<lparr>first_free = 1, in_use = 1, allocated = 1, storage =
     \<lparr>st_size = 4, st_frontier = 1, st_table = [Item 123, Next_free 0, Next_free 0, Next_free 0], st_bitmap = [1]\<rparr>\<rparr>"

definition loom2 :: "int cslab" where
  "loom2 = loom1\<lparr>in_use := 0, storage := (storage loom1)\<lparr>st_bitmap := [0]\<rparr>\<rparr>"

definition loom3 :: "int cslab" where
  "loom3 = loom2\<lparr>first_free := 0, allocated := 0, storage := (storage loom2)\<lparr>st_table :=
     [Next_free 0, Next_free 0, Next_free 0, Next_free 0]\<rparr>\<rparr>"

lemma loom_slabs:
  "cslab_with_fixed_capacity entry8 4 = Inr loom0" "cslab_insert loom0 123 = Inr (loom1, Inr 0)"
  "cslab_mark_removed loom1 0 = Inr loom2" "cslab_finalize_remove loom2 0 = Inr (loom3, 123)"
  by (simp_all add: slab_eval loom0_def loom1_def loom2_def loom3_def)

lemma loom_stores:
  "insert_stores loom0 123 = [St_entry 0 (Item 123), St_frontier 1 Relaxed, St_word 0 1 Release]"
  "mark_stores loom1 0 = [St_word 0 0 Release]" "finalize_stores loom2 0 = [St_entry 0 (Next_free 0)]"
  by (simp_all add: insert_stores_def mark_stores_def finalize_stores_def loom0_def loom1_def loom2_def set_flag_def clear_flag_def)

text \<open>All stores of the two tests in order, and what a lookup of index 0 can return among them.\<close>

definition loom_log :: "int store list" where
  "loom_log = [St_entry 0 (Item 123), St_frontier 1 Relaxed, St_word 0 1 Release, St_word 0 0 Release, St_entry 0 (Next_free 0)]"

definition loom_handle :: "nat \<Rightarrow> handle" where
  "loom_handle b = \<lparr>h_birth = b, h_view = (\<lambda>_. b), h_seen = []\<rparr>"

lemma loom_flags:
  assumes "k \<le> 5" and "t \<le> k"
  shows "st_bitmap (mem_at (storage loom0) (take k loom_log) t) ! 0 = (if t = 3 then 1 else 0)"
proof -
  have "min t k = t" using assms(2) by simp
  moreover have "t \<in> {0, 1, 2, 3, 4, 5}" using assms by auto
  ultimately show ?thesis by (auto simp: mem_at_def take_take loom_log_def loom0_def)
qed

lemma loom_entry:
  assumes "3 \<le> k" and "k \<le> 4"
  shows "last_store (take k loom_log) (Loc_entry 0) k = 1" "last_store (take k loom_log) (Loc_word 0) 3 = 3"
    "st_table (mem_at (storage loom0) (take k loom_log) k) ! 0 = Item 123"
proof -
  have "k = 3 \<or> k = 4" using assms by auto
  then show "last_store (take k loom_log) (Loc_entry 0) k = 1" "last_store (take k loom_log) (Loc_word 0) 3 = 3"
    "st_table (mem_at (storage loom0) (take k loom_log) k) ! 0 = Item 123"
    by (auto simp: last_store_numeral mem_at_def loom_log_def loom0_def)
qed

lemma loom_get:
  assumes w: "wk_init w = storage loom0" "wk_log w = take k loom_log" "k \<le> 5"
    and get: "weak_get w t 0 (loom_handle b) = Some (r, h')" and b: "k = 5 \<longrightarrow> b = 4"
  shows "b \<le> t \<and> t \<le> k \<and> r = (if t = 3 then Inr (Some 123) else Inr None)"
proof -
  have len: "length (wk_log w) = k" using w by (simp add: loom_log_def)
  have st: "storage_len (wk_init w) = 4" by (simp add: w storage_len_def loom0_def)
  have t: "b \<le> t" "t \<le> k"
    using get len st by (auto simp: weak_get_def weak_contains_key_def weak_load_word_def loom_handle_def split: option.splits if_splits)
  show ?thesis
  proof (cases "t = 3")
    case True
    then have k: "3 \<le> k" "k \<le> 4" using t b w(3) by auto
    have "get_unchecked_impl (wk_mem w k) 0 = Inr 123"
      using loom_entry(3) [OF k] mem_at_lengths(1) [of "storage loom0" "take k loom_log" k]
      by (simp add: get_unchecked_impl_def wk_mem_def w loom0_def index_def entry_item_def)
    then show ?thesis
      using get len st t True k loom_flags [OF w(3) t(2)] loom_entry(1,2) [OF k]
      by (simp add: weak_get_def weak_contains_key_def weak_load_word_def weak_get_unchecked_def wk_mem_def w
          flag_of_def loom_handle_def load_view_def see_def loom_log_def)
  next
    case False
    then show ?thesis
      using get len st t loom_flags [OF w(3) t(2)]
      by (simp add: weak_get_def weak_contains_key_def weak_load_word_def wk_mem_def w flag_of_def loom_handle_def)
  qed
qed

lemma store_log:
  assumes "log = take k L" and "todo = drop k (take n L)" and "todo = e # es" and "n \<le> length L"
  shows "log @ [e] = take (Suc k) L" and "es = drop (Suc k) (take n L)" and "Suc k \<le> n"
proof -
  have k: "k < n"
  proof (rule ccontr)
    assume "\<not> k < n"
    then have "drop k (take n L) = []" by simp
    with assms(2,3) show False by simp
  qed
  then show "Suc k \<le> n" by simp
  from k have "drop k (take n L) = take n L ! k # drop (Suc k) (take n L)"
    using Cons_nth_drop_Suc [of k "take n L"] assms(4) by simp
  with assms(2,3) k have e: "e = L ! k" "es = drop (Suc k) (take n L)" by simp_all
  then show "es = drop (Suc k) (take n L)" by simp
  show "log @ [e] = take (Suc k) L" using e k assms(1,4) by (simp add: take_Suc_conv_app_nth)
qed

lemma insert_get_inv:
  assumes "insert_get_run b w r"
  shows "wk_init w = storage loom0 \<and>
    (if b then \<exists>k \<le> 3. wk_log w = take k loom_log \<and> wk_todo w = drop k (take 3 loom_log)
     else wk_slab w = loom0 \<and> wk_log w = [] \<and> wk_todo w = []) \<and>
    (case r of None \<Rightarrow> wk_handles w = [loom_handle 0] | Some x \<Rightarrow> wk_handles w = [] \<and> x \<in> {Inr None, Inr (Some 123)})"
  using assms
proof induction
  case (ig_spawn s)
  then show ?case by (simp add: loom_slabs loom_start_def loom_handle_def)
next
  case (ig_insert w r s' idx)
  then have "wk_slab w = loom0" by simp
  then have "insert_stores (wk_slab w) 123 = drop 0 (take 3 loom_log)" by (simp add: loom_stores loom_log_def)
  with ig_insert show ?case by (auto intro: exI [of _ 0] split: option.splits)
next
  case (ig_store b w r e es)
  show ?case
  proof (cases b)
    case True
    then obtain k where k: "k \<le> 3" "wk_log w = take k loom_log" "wk_todo w = drop k (take 3 loom_log)"
      using ig_store.IH by auto
    note next_store = store_log [OF k(2,3) ig_store.hyps(2)]
    have "3 \<le> length loom_log" by (simp add: loom_log_def)
    with next_store ig_store.IH True show ?thesis by (auto intro!: exI [of _ "Suc k"] split: option.splits)
  next
    case False
    with ig_store show ?thesis by simp
  qed
next
  case (ig_get b w h t r h')
  obtain k where k: "k \<le> 3" "wk_log w = take k loom_log" using ig_get.IH by (cases b) auto
  have "r \<in> {Inr None, Inr (Some 123)}"
    using loom_get [of w k t 0 r h'] ig_get k by (auto split: if_splits)
  with ig_get show ?case by simp
qed

text \<open>
  The insertion succeeds and the lookup returns nothing or the item inserted, without a race, in every
  run; and both results occur.
\<close>

theorem concurrent_insert_get_test_passes:
  "insert_get_run b w r \<Longrightarrow>
    (\<not> b \<longrightarrow> (\<exists>s' idx. cslab_insert (wk_slab w) 123 = Inr (s', Inr idx))) \<and>
    (\<forall>x. r = Some x \<longrightarrow> x = Inr None \<or> x = Inr (Some 123))"
  using insert_get_inv [of b w r] loom_slabs(2) by (auto split: if_splits)

lemma ig_flush: "insert_get_run b w r \<Longrightarrow> insert_get_run b (w\<lparr>wk_log := wk_log w @ wk_todo w, wk_todo := []\<rparr>) r"
proof (induction "wk_todo w" arbitrary: w)
  case Nil
  then have "w\<lparr>wk_log := wk_log w @ wk_todo w, wk_todo := []\<rparr> = w" by simp
  with Nil.prems show ?case by metis
next
  case (Cons e es)
  from Cons.hyps(1) [of "w\<lparr>wk_log := wk_log w @ [e], wk_todo := es\<rparr>"] ig_store [OF Cons.prems Cons.hyps(2) [symmetric]]
  show ?case by (simp add: Cons.hyps(2) [symmetric])
qed

lemma insert_get_results: "\<exists>b w. insert_get_run b w (Some (Inr None))" "\<exists>b w. insert_get_run b w (Some (Inr (Some 123)))"
proof -
  have start: "insert_get_run False (loom_start loom0) None" by (rule ig_spawn [OF loom_slabs(1)])
  have "\<exists>h'. weak_get (loom_start loom0) 0 0 (loom_handle 0) = Some (Inr None, h')"
    by (simp add: weak_get_def weak_contains_key_def weak_load_word_def loom_start_def loom_handle_def storage_len_def
        loom0_def wk_mem_def flag_of_def)
  moreover have handles: "wk_handles (loom_start loom0) = [loom_handle 0]" by (simp add: loom_start_def loom_handle_def)
  ultimately show "\<exists>b w. insert_get_run b w (Some (Inr None))" using ig_get [OF start] by blast
  let ?w = "loom_start loom0\<lparr>wk_slab := loom1, wk_todo := [], wk_log := take 3 loom_log\<rparr>"
  have "insert_get_run True (loom_start loom0\<lparr>wk_slab := loom1, wk_todo := insert_stores loom0 123\<rparr>) None"
    using ig_insert [OF start] loom_slabs(2) by (simp add: loom_start_def)
  from ig_flush [OF this] have run: "insert_get_run True ?w None"
    by (simp add: loom_start_def loom_stores loom_log_def)
  have "\<exists>h' r. weak_get ?w 3 0 (loom_handle 0) = Some (r, h')"
    by (simp add: weak_get_def weak_contains_key_def weak_load_word_def loom_start_def loom_handle_def storage_len_def
        loom0_def wk_mem_def flag_of_def loom_log_def)
  then obtain h' r where get: "weak_get ?w 3 0 (loom_handle 0) = Some (r, h')" by blast
  moreover from get have "r = Inr (Some 123)" using loom_get [of ?w 3 3 0 r h'] by (simp add: loom_start_def)
  moreover have "wk_handles ?w = [loom_handle 0]" using handles by simp
  ultimately show "\<exists>b w. insert_get_run b w (Some (Inr (Some 123)))" using ig_get [OF run] by blast
qed

section \<open>A reader beside a removal\<close>

text \<open>
  The main thread inserts 123, takes a reader and spawns the thread that looks the index up; it
  marks the index, joins the thread, takes another reader, spawns a second thread that looks the index
  up, and finalizes the removal without waiting for it.
\<close>

datatype remove_get_pc = To_mark | To_join | To_finalize | Over

inductive remove_get_run :: "usize \<Rightarrow> remove_get_pc \<Rightarrow> int weak \<Rightarrow> ((int option) res) option \<Rightarrow> ((int option) res) option \<Rightarrow> bool" where
  rg_spawn: "cslab_with_fixed_capacity entry8 4 = Inr s \<Longrightarrow> cslab_insert s 123 = Inr (s', Inr idx) \<Longrightarrow>
    remove_get_run idx To_mark \<lparr>wk_init = storage s, wk_slab = s', wk_log = insert_stores s 123, wk_todo = [],
      wk_handles = [\<lparr>h_birth = length (insert_stores s 123), h_view = (\<lambda>_. length (insert_stores s 123)), h_seen = []\<rparr>],
      wk_marks = []\<rparr> None None"
| rg_store: "remove_get_run idx pc w r1 r2 \<Longrightarrow> wk_todo w = e # es \<Longrightarrow>
    remove_get_run idx pc (w\<lparr>wk_log := wk_log w @ [e], wk_todo := es\<rparr>) r1 r2"
| rg_get: "remove_get_run idx pc w None r2 \<Longrightarrow> wk_handles w = [h] \<Longrightarrow> weak_get w t idx h = Some (r, h') \<Longrightarrow>
    remove_get_run idx pc (w\<lparr>wk_handles := []\<rparr>) (Some r) r2"
| rg_mark: "remove_get_run idx To_mark w r1 r2 \<Longrightarrow> cslab_mark_removed (wk_slab w) idx = Inr s' \<Longrightarrow>
    remove_get_run idx To_join (w\<lparr>wk_slab := s', wk_todo := mark_stores (wk_slab w) idx,
      wk_marks := (idx, length (wk_log w) + 1) # wk_marks w\<rparr>) r1 r2"
| rg_join: "remove_get_run idx To_join w (Some r1) r2 \<Longrightarrow> wk_todo w = [] \<Longrightarrow>
    remove_get_run idx To_finalize (w\<lparr>wk_handles :=
      [\<lparr>h_birth = length (wk_log w), h_view = (\<lambda>_. length (wk_log w)), h_seen = []\<rparr>]\<rparr>) (Some r1) r2"
| rg_get_again: "remove_get_run idx pc w (Some r1) None \<Longrightarrow> pc = To_finalize \<or> pc = Over \<Longrightarrow> wk_handles w = [h] \<Longrightarrow>
    weak_get w t idx h = Some (r, h') \<Longrightarrow> remove_get_run idx pc (w\<lparr>wk_handles := []\<rparr>) (Some r1) (Some r)"
| rg_finalize: "remove_get_run idx To_finalize w r1 r2 \<Longrightarrow> cslab_finalize_remove (wk_slab w) idx = Inr (s', v) \<Longrightarrow>
    remove_get_run idx Over (w\<lparr>wk_slab := s', wk_todo := finalize_stores (wk_slab w) idx,
      wk_marks := filter (\<lambda>(i, _). i \<noteq> idx) (wk_marks w)\<rparr>) r1 r2"

text \<open>Where the main thread is: its slab, the stores it has issued, and the removals it has marked.\<close>

fun main_state :: "remove_get_pc \<Rightarrow> int cslab \<times> nat \<times> (usize \<times> nat) list" where
  "main_state To_mark = (loom1, 3, [])"
| "main_state To_join = (loom2, 4, [(0, 4)])"
| "main_state To_finalize = (loom2, 4, [(0, 4)])"
| "main_state Over = (loom3, 5, [])"

lemma loom_log_length: "length loom_log = 5"
  by (simp add: loom_log_def)

lemma remove_get_inv:
  assumes "remove_get_run idx pc w r1 r2"
  shows "idx = 0 \<and> wk_init w = storage loom0 \<and>
    (case main_state pc of (s, n, marks) \<Rightarrow> wk_slab w = s \<and> wk_marks w = marks \<and>
       (\<exists>k \<le> n. wk_log w = take k loom_log \<and> wk_todo w = drop k (take n loom_log) \<and> 3 \<le> k \<and> (pc = To_finalize \<or> pc = Over \<longrightarrow> 4 \<le> k))) \<and>
    (if pc = To_mark \<or> pc = To_join
     then r2 = None \<and> (case r1 of None \<Rightarrow> wk_handles w = [loom_handle 3] | Some x \<Rightarrow> wk_handles w = [] \<and> x \<in> {Inr None, Inr (Some 123)})
     else r1 \<in> {Some (Inr None), Some (Inr (Some 123))} \<and> (case r2 of None \<Rightarrow> wk_handles w = [loom_handle 4] | Some x \<Rightarrow> wk_handles w = [] \<and> x = Inr None))"
  using assms
proof induction
  case (rg_spawn s s' idx)
  then have "insert_stores s 123 = take 3 loom_log" "s = loom0" "s' = loom1" "idx = 0"
    by (simp_all add: loom_slabs loom_stores loom_log_def)
  then show ?case by (auto simp: loom_handle_def loom_log_length)
next
  case (rg_store idx pc w r1 r2 e es)
  obtain s n marks where main: "main_state pc = (s, n, marks)" by (cases "main_state pc")
  then have n: "n \<le> 5" by (cases pc) auto
  obtain k where k: "wk_log w = take k loom_log" "wk_todo w = drop k (take n loom_log)" "3 \<le> k" "pc = To_finalize \<or> pc = Over \<longrightarrow> 4 \<le> k"
    using rg_store.IH main by auto
  note next_store = store_log [OF k(1,2) rg_store.hyps(2)]
  have "wk_log w @ [e] = take (Suc k) loom_log \<and> es = drop (Suc k) (take n loom_log) \<and> Suc k \<le> n"
    using next_store n by (simp add: loom_log_length)
  then have "\<exists>k\<le>n. wk_log w @ [e] = take k loom_log \<and> es = drop k (take n loom_log) \<and> 3 \<le> k \<and> (pc = To_finalize \<or> pc = Over \<longrightarrow> 4 \<le> k)"
    using k(3,4) by (intro exI [of _ "Suc k"]) auto
  with rg_store.IH main show ?case by (auto split: option.splits if_splits)
next
  case (rg_get idx pc w r2 h t r h')
  then have pc: "pc = To_mark \<or> pc = To_join" and h: "h = loom_handle 3" by (auto split: if_splits)
  obtain k where "k \<le> 4" "wk_log w = take k loom_log"
    using rg_get.IH pc by (auto intro: that [of 3] that [of 4])
  then have "r \<in> {Inr None, Inr (Some 123)}"
    using loom_get [of w k t 3 r h'] rg_get h by (auto split: if_splits)
  with rg_get pc show ?case by auto
next
  case (rg_mark idx w r1 r2 s')
  have s': "s' = loom2" using rg_mark loom_slabs(3) by simp
  have k: "wk_log w = take 3 loom_log" using rg_mark.IH by auto
  then have "mark_stores (wk_slab w) idx = drop 3 (take 4 loom_log)" "length (wk_log w) = 3"
    using rg_mark.IH by (simp_all add: loom_stores loom_log_def)
  with rg_mark s' k show ?case by (auto intro: exI [of _ 3] split: option.splits)
next
  case (rg_join idx w r1 r2)
  then obtain k where k: "k \<le> 4" "wk_log w = take k loom_log" "drop k (take 4 loom_log) = []" by auto
  then have "k = 4" by (simp add: loom_log_length)
  with rg_join k show ?case by (auto simp: loom_handle_def loom_log_length)
next
  case (rg_get_again idx pc w r1 h t r h')
  then have h: "h = loom_handle 4" by auto
  obtain k where "k \<le> 5" "wk_log w = take k loom_log" 
    using rg_get_again.IH rg_get_again.hyps(2) by (auto intro: that [of 4])
  then have "r = Inr None" using loom_get [of w k t 4 r h'] rg_get_again h by (auto split: if_splits)
  with rg_get_again show ?case by auto
next
  case (rg_finalize idx w r1 r2 s' v)
  have s': "s' = loom3" using rg_finalize loom_slabs(4) by simp
  have k: "wk_log w = take 4 loom_log" using rg_finalize.IH by auto
  then have "finalize_stores (wk_slab w) idx = drop 4 (take 5 loom_log)"
    using rg_finalize.IH by (simp add: loom_stores loom_log_def)
  with rg_finalize s' k show ?case by (auto intro: exI [of _ 4] split: option.splits)
qed

text \<open>
  In every run the removal succeeds, the first lookup returns nothing or the item, the second nothing,
  no lookup races, and when \<open>finalize_remove\<close> is called, every handle left was taken after the mark, as its safety
  requirement says.
\<close>

theorem concurrent_remove_get_test_passes:
  assumes "remove_get_run idx pc w r1 r2"
  shows "(pc = To_mark \<longrightarrow> (\<exists>s'. cslab_mark_removed (wk_slab w) idx = Inr s')) \<and>
    (pc = To_finalize \<longrightarrow> (\<exists>t. (idx, t) \<in> set (wk_marks w) \<and> (\<forall>h \<in> set (wk_handles w). t \<le> h_birth h)) \<and>
       (\<exists>s'. cslab_finalize_remove (wk_slab w) idx = Inr (s', 123))) \<and>
    (\<forall>x. r1 = Some x \<longrightarrow> x = Inr None \<or> x = Inr (Some 123)) \<and> (\<forall>x. r2 = Some x \<longrightarrow> x = Inr None)"
  using remove_get_inv [OF assms] loom_slabs(3,4)
  by (cases pc) (auto simp: loom_handle_def split: option.splits)

section \<open>A reader beside a removing iteration\<close>

text \<open>
  The main thread of the third test acts on the slab in steps; \<open>other k\<close> is what the other thread does
  after the \<open>k\<close>-th of them. The other thread reads both items through its reader and drops it. Reading
  changes nothing, so the worst is to read after every step until the reader is dropped, after step
  \<open>d\<close> of the main thread; \<open>join\<close> waits for that.
\<close>

definition iter_mut_get_main :: "(nat \<Rightarrow> (int rcu, unit) act) \<Rightarrow> (int rcu, unit) act" where
  "iter_mut_get_main other =
     abind (other 0) (\<lambda>_.
     abind rcu_iter_mut_new (\<lambda>rim.
     abind (other 1) (\<lambda>_.
     abind (for_entries (\<lambda>en.
        abind (if entry_key en = 0 then entry_remove en else entry_drop en) (\<lambda>_. other (2 + unat (entry_key en)))) rim) (\<lambda>_.
     abind rim_drop (\<lambda>_.
     abind (other 4) (\<lambda>_.
     abind rcu_reader (\<lambda>r.
     abind (other 5) (\<lambda>_.
     abind (assert_eq (look (\<lambda>s. rcu_reader_get s r 0)) None) (\<lambda>_.
     abind (assert_eq (look (\<lambda>s. rcu_reader_get s r 1)) (Some 456)) (\<lambda>_.
     abind (other 6) (\<lambda>_.
     abind (assert_eq rcu_allocated 1) (\<lambda>_.
     assert_eq (unwrap_ok (rcu_insert 789)) 0))))))))))))"

definition iter_mut_get_thread :: "nat \<Rightarrow> nat \<Rightarrow> nat \<Rightarrow> (int rcu, unit) act" where
  "iter_mut_get_thread d g k =
     (if k \<le> d then
        abind (assert_eq (look (\<lambda>s. rcu_reader_get_unchecked s g 0)) 123) (\<lambda>_.
        abind (assert_eq (look (\<lambda>s. rcu_reader_get_unchecked s g 1)) 456) (\<lambda>_.
        if k = d then rcu_reader_drop entry8 g else aret ()))
      else aret ())"

definition concurrent_rcu_iter_mut_get_test :: "nat \<Rightarrow> unit res" where
  "concurrent_rcu_iter_mut_get_test d = run_test (rcu_with_fixed_capacity entry8 2)
     (abind (unwrap_ok (rcu_insert 123)) (\<lambda>_.
      abind (unwrap_ok (rcu_insert 456)) (\<lambda>_.
      abind rcu_reader (\<lambda>g.
      iter_mut_get_main (iter_mut_get_thread d g)))))"

theorem concurrent_rcu_iter_mut_get_test_passes: "d \<le> 6 \<Longrightarrow> concurrent_rcu_iter_mut_get_test d = Inr ()"
proof -
  assume "d \<le> 6"
  then have "d \<in> {0, 1, 2, 3, 4, 5, 6}" by auto
  then show ?thesis
    by (auto simp: concurrent_rcu_iter_mut_get_test_def iter_mut_get_main_def iter_mut_get_thread_def test_eval slab_eval iter_eval rcu_eval)
qed

end
