(* ===== verification/Net_Defs.thy ===== *)
theory Net_Defs
  imports Zpr_Prelude "HOL-Library.List_Lexorder" "HOL-Library.Product_Lexorder"
begin

text \<open>
  Addresses, IP numbers and transport checksums of \<open>src/zpr-utils/src/net_defs.rs\<close>. Byte arrays are
  lists whose length is part of a well-formedness predicate. The checksum crate \<open>ip4sum\<close>, the
  protocol numbers of the \<open>zpr\<close> crate and the standard library's printing of addresses are
  parameters; the Internet checksum of RFC 1071 is the reference.
\<close>

section \<open>Addresses\<close>

text \<open>\<open>std::net\<close>: \<open>Ipv4Addr\<close> and \<open>Ipv6Addr\<close> are their octets.\<close>

type_synonym ipv4_addr = "u8 list"
type_synonym ipv6_addr = "u8 list"

datatype ip_addr = IpV4 ipv4_addr | IpV6 ipv6_addr

fun ip_addr_wf :: "ip_addr \<Rightarrow> bool" where
  "ip_addr_wf (IpV4 o4) = (length o4 = 4)"
| "ip_addr_wf (IpV6 o6) = (length o6 = 16)"

abbreviation IPV4_ADDRESS_SIZE :: nat where "IPV4_ADDRESS_SIZE \<equiv> 4"
abbreviation IPV6_ADDRESS_SIZE :: nat where "IPV6_ADDRESS_SIZE \<equiv> 16"

text \<open>\<open>IpAddress\<close>: one flat representation for both families.\<close>

record ip_address =
  v6 :: "u8 list"

definition ip_address_wf :: "ip_address \<Rightarrow> bool" where
  "ip_address_wf a \<longleftrightarrow> length (v6 a) = IPV6_ADDRESS_SIZE"

definition UNSPECIFIED :: ip_address where
  "UNSPECIFIED = \<lparr>v6 = replicate IPV6_ADDRESS_SIZE 0\<rparr>"

definition new_from_v4 :: "u8 list \<Rightarrow> ip_address" where
  "new_from_v4 a = \<lparr>v6 = [0, 0, 0, 0, 0, 0, 0, 0, 0, 0, 0xff, 0xff, a ! 0, a ! 1, a ! 2, a ! 3]\<rparr>"

definition read_as_v4 :: "ip_address \<Rightarrow> u8 list" where
  "read_as_v4 a = [v6 a ! 12, v6 a ! 13, v6 a ! 14, v6 a ! 15]"

definition is_v4 :: "ip_address \<Rightarrow> bool" where
  "is_v4 a \<longleftrightarrow> v6 a ! 0 = 0 \<and> v6 a ! 1 = 0 \<and> v6 a ! 2 = 0 \<and> v6 a ! 3 = 0 \<and> v6 a ! 4 = 0 \<and> v6 a ! 5 = 0 \<and>
     v6 a ! 6 = 0 \<and> v6 a ! 7 = 0 \<and> v6 a ! 8 = 0 \<and> v6 a ! 9 = 0 \<and> v6 a ! 10 = 0xff \<and> v6 a ! 11 = 0xff"

definition new_from_std_v4 :: "ipv4_addr \<Rightarrow> ip_address" where
  "new_from_std_v4 addr = new_from_v4 addr"

definition new_from_std_v6 :: "ipv6_addr \<Rightarrow> ip_address" where
  "new_from_std_v6 addr = \<lparr>v6 = addr\<rparr>"

definition new_from_std :: "ip_addr \<Rightarrow> ip_address" where
  "new_from_std addr = (case addr of IpV4 o4 \<Rightarrow> new_from_std_v4 o4 | IpV6 o6 \<Rightarrow> new_from_std_v6 o6)"

definition is_v6_unicast_link_local :: "ip_address \<Rightarrow> bool" where
  "is_v6_unicast_link_local a \<longleftrightarrow> v6 a ! 0 = 0xfe \<and> v6 a ! 1 AND 0xC0 = 0x80"

text \<open>
  The \<open>From\<close> and \<open>TryFrom\<close> implementations; those from a value and from a reference are the same. A
  failed conversion returns its argument.
\<close>

definition ip_address_from_ipv4 :: "ipv4_addr \<Rightarrow> ip_address" where
  "ip_address_from_ipv4 addr = new_from_std_v4 addr"

definition ip_address_from_octets4 :: "u8 list \<Rightarrow> ip_address" where
  "ip_address_from_octets4 addr = new_from_v4 addr"

definition ip_address_from_ipv6 :: "ipv6_addr \<Rightarrow> ip_address" where
  "ip_address_from_ipv6 addr = new_from_std_v6 addr"

definition ip_address_from_ip_addr :: "ip_addr \<Rightarrow> ip_address" where
  "ip_address_from_ip_addr addr = new_from_std addr"

definition ip_address_from_octets16 :: "u8 list \<Rightarrow> ip_address" where
  "ip_address_from_octets16 addr = \<lparr>v6 = addr\<rparr>"

definition ip_address_try_from_vec :: "u8 list \<Rightarrow> u8 list + ip_address" where
  "ip_address_try_from_vec octets =
     (if length octets = 4 then Inr (ip_address_from_octets4 octets)
      else if length octets = 16 then Inr (ip_address_from_octets16 octets)
      else Inl octets)"

definition ipv4_try_from :: "ip_address \<Rightarrow> unit + ipv4_addr" where
  "ipv4_try_from addr = (if is_v4 addr then Inr (read_as_v4 addr) else Inl ())"

definition ipv6_from :: "ip_address \<Rightarrow> ipv6_addr" where
  "ipv6_from addr = v6 addr"

definition ip_addr_from :: "ip_address \<Rightarrow> ip_addr" where
  "ip_addr_from addr = (if is_v4 addr then IpV4 (read_as_v4 addr) else IpV6 (v6 addr))"

section \<open>Scoped addresses\<close>

record scoped_ipv6 =
  sc_ip :: ipv6_addr
  scope_id :: u32

datatype scoped_ip = ScopedV4 ipv4_addr | ScopedV6 scoped_ipv6

definition scoped_ipv6_new :: "ipv6_addr \<Rightarrow> u32 \<Rightarrow> scoped_ipv6" where
  "scoped_ipv6_new ip scope = \<lparr>sc_ip = ip, scope_id = scope\<rparr>"

definition scoped_ipv6_from :: "ipv6_addr \<Rightarrow> scoped_ipv6" where
  "scoped_ipv6_from ip = \<lparr>sc_ip = ip, scope_id = 0\<rparr>"

definition scoped_set_ip :: "ipv6_addr \<Rightarrow> scoped_ipv6 \<Rightarrow> scoped_ipv6" where
  "scoped_set_ip ip a = a\<lparr>sc_ip := ip\<rparr>"

definition scoped_set_scope_id :: "u32 \<Rightarrow> scoped_ipv6 \<Rightarrow> scoped_ipv6" where
  "scoped_set_scope_id n a = a\<lparr>scope_id := n\<rparr>"

definition scoped_ip_ip :: "scoped_ip \<Rightarrow> ip_addr" where
  "scoped_ip_ip a = (case a of ScopedV4 o4 \<Rightarrow> IpV4 o4 | ScopedV6 sv6 \<Rightarrow> IpV6 (sc_ip sv6))"

definition scoped_ip_from_v4 :: "ipv4_addr \<Rightarrow> scoped_ip" where
  "scoped_ip_from_v4 addr = ScopedV4 addr"

definition scoped_ip_from_scoped_v6 :: "scoped_ipv6 \<Rightarrow> scoped_ip" where
  "scoped_ip_from_scoped_v6 addr = ScopedV6 addr"

definition scoped_ip_from_v6 :: "ipv6_addr \<Rightarrow> scoped_ip" where
  "scoped_ip_from_v6 addr = ScopedV6 (scoped_ipv6_from addr)"

definition scoped_ip_from :: "ip_addr \<Rightarrow> scoped_ip" where
  "scoped_ip_from a = (case a of IpV4 o4 \<Rightarrow> ScopedV4 o4 | IpV6 o6 \<Rightarrow> ScopedV6 (scoped_ipv6_from o6))"

text \<open>
  The derived order: fields in their order, the octets of an address lexicographically, and IPv4
  addresses before all IPv6 ones.
\<close>

definition scoped_ipv6_le :: "'a::linorder scoped_ipv6_scheme \<Rightarrow> 'a scoped_ipv6_scheme \<Rightarrow> bool" where
  "scoped_ipv6_le a b \<longleftrightarrow>
     (sc_ip a, scope_id a, scoped_ipv6.more a) \<le> (sc_ip b, scope_id b, scoped_ipv6.more b)"

instantiation scoped_ipv6_ext :: (linorder) linorder
begin

definition less_eq_scoped_ipv6_ext :: "'a scoped_ipv6_scheme \<Rightarrow> 'a scoped_ipv6_scheme \<Rightarrow> bool" where
  "less_eq_scoped_ipv6_ext a b = scoped_ipv6_le a b"

definition less_scoped_ipv6_ext :: "'a scoped_ipv6_scheme \<Rightarrow> 'a scoped_ipv6_scheme \<Rightarrow> bool" where
  "less_scoped_ipv6_ext a b \<longleftrightarrow> scoped_ipv6_le a b \<and> \<not> scoped_ipv6_le b a"

instance
proof
  fix a b c :: "'a scoped_ipv6_scheme"
  note le = less_eq_scoped_ipv6_ext_def scoped_ipv6_le_def
  show "a < b \<longleftrightarrow> a \<le> b \<and> \<not> b \<le> a" by (simp only: less_scoped_ipv6_ext_def less_eq_scoped_ipv6_ext_def)
  show "a \<le> a" unfolding le by (rule order_refl)
  show "a \<le> b \<Longrightarrow> b \<le> c \<Longrightarrow> a \<le> c" unfolding le by (rule order_trans)
  show "a \<le> b \<Longrightarrow> b \<le> a \<Longrightarrow> a = b" unfolding le by (drule (1) antisym) simp
  show "a \<le> b \<or> b \<le> a" unfolding le by (rule linear)
qed

end

fun scoped_ip_le :: "scoped_ip \<Rightarrow> scoped_ip \<Rightarrow> bool" where
  "scoped_ip_le (ScopedV4 a) (ScopedV4 b) \<longleftrightarrow> a \<le> b"
| "scoped_ip_le (ScopedV6 a) (ScopedV6 b) \<longleftrightarrow> a \<le> b"
| "scoped_ip_le (ScopedV4 _) (ScopedV6 _) \<longleftrightarrow> True"
| "scoped_ip_le (ScopedV6 _) (ScopedV4 _) \<longleftrightarrow> False"

instantiation scoped_ip :: linorder
begin

definition less_eq_scoped_ip :: "scoped_ip \<Rightarrow> scoped_ip \<Rightarrow> bool" where
  "less_eq_scoped_ip a b = scoped_ip_le a b"

definition less_scoped_ip :: "scoped_ip \<Rightarrow> scoped_ip \<Rightarrow> bool" where
  "less_scoped_ip a b \<longleftrightarrow> scoped_ip_le a b \<and> \<not> scoped_ip_le b a"

instance
proof
  fix a b c :: scoped_ip
  show "a < b \<longleftrightarrow> a \<le> b \<and> \<not> b \<le> a" by (simp only: less_scoped_ip_def less_eq_scoped_ip_def)
  show "a \<le> a" by (cases a) (auto simp: less_eq_scoped_ip_def)
  show "a \<le> b \<Longrightarrow> b \<le> c \<Longrightarrow> a \<le> c" by (cases a; cases b; cases c) (auto simp: less_eq_scoped_ip_def)
  show "a \<le> b \<Longrightarrow> b \<le> a \<Longrightarrow> a = b" by (cases a; cases b) (auto simp: less_eq_scoped_ip_def)
  show "a \<le> b \<or> b \<le> a" by (cases a; cases b) (auto simp: less_eq_scoped_ip_def linear)
qed

end

text \<open>Printing: the formatters of the standard library are parameters; a number is its decimal digits.\<close>

fun decimal :: "nat \<Rightarrow> string" where
  "decimal n = (if n < 10 then [char_of (48 + n)] else decimal (n div 10) @ [char_of (48 + n mod 10)])"

declare decimal.simps [simp del]

definition scoped_ipv6_fmt :: "(ipv6_addr \<Rightarrow> string) \<Rightarrow> scoped_ipv6 \<Rightarrow> string" where
  "scoped_ipv6_fmt fmt6 a = fmt6 (sc_ip a) @ (if scope_id a \<noteq> 0 then CHR ''%'' # decimal (unat (scope_id a)) else [])"

definition ip_address_fmt :: "(ipv6_addr \<Rightarrow> string) \<Rightarrow> ip_address \<Rightarrow> string" where
  "ip_address_fmt fmt6 a = fmt6 (ipv6_from a)"

definition ip_address_debug :: "(ipv6_addr \<Rightarrow> string) \<Rightarrow> ip_address \<Rightarrow> string" where
  "ip_address_debug fmt6 a =
     (if is_v4 a then ''IpAddress(V4: '' @ ip_address_fmt fmt6 a @ '')'' else ''IpAddress(V6: '' @ ip_address_fmt fmt6 a @ '')'')"

definition scoped_ip_fmt :: "(ipv4_addr \<Rightarrow> string) \<Rightarrow> (ipv6_addr \<Rightarrow> string) \<Rightarrow> scoped_ip \<Rightarrow> string" where
  "scoped_ip_fmt fmt4 fmt6 a = (case a of ScopedV4 o4 \<Rightarrow> fmt4 o4 | ScopedV6 sv6 \<Rightarrow> scoped_ipv6_fmt fmt6 sv6)"

text \<open>\<open>std::net::SocketAddr\<close> and its \<open>set_ip\<close>, which keeps the port, and within a family the rest.\<close>

datatype socket_addr =
    SockV4 ipv4_addr (sock_port: u16)
  | SockV6 ipv6_addr (sock_port: u16) (flowinfo: u32) (sock_scope: u32)

fun set_ip :: "ip_addr \<Rightarrow> socket_addr \<Rightarrow> socket_addr" where
  "set_ip (IpV4 o4) (SockV4 _ port) = SockV4 o4 port"
| "set_ip (IpV6 o6) (SockV6 _ port fl sc) = SockV6 o6 port fl sc"
| "set_ip (IpV4 o4) (SockV6 _ port _ _) = SockV4 o4 port"
| "set_ip (IpV6 o6) (SockV4 _ port) = SockV6 o6 port 0 0"

text \<open>\<open>SocketAddrExt\<close>\<close>

definition scoped_ip_of :: "socket_addr \<Rightarrow> scoped_ip" where
  "scoped_ip_of a = (case a of SockV4 ip _ \<Rightarrow> ScopedV4 ip | SockV6 ip _ _ sc \<Rightarrow> ScopedV6 (scoped_ipv6_new ip sc))"

definition set_scoped_ip :: "scoped_ip \<Rightarrow> socket_addr \<Rightarrow> socket_addr res" where
  "set_scoped_ip new_ip a =
     (case new_ip of
        ScopedV4 o4 \<Rightarrow> Inr (set_ip (IpV4 o4) a)
      | ScopedV6 sv6 \<Rightarrow>
          (case set_ip (IpV6 (sc_ip sv6)) a of
             SockV4 _ _ \<Rightarrow> Inl Panic_assert
           | SockV6 ip port fl _ \<Rightarrow> Inr (SockV6 ip port fl (scope_id sv6))))"

section \<open>IP numbers\<close>

abbreviation ETHERTYPE_IP :: u16 where "ETHERTYPE_IP \<equiv> 0x0800"
abbreviation ETHERTYPE_IPV6 :: u16 where "ETHERTYPE_IPV6 \<equiv> 0x86dd"

definition ip_version :: "u8 list \<Rightarrow> u8 res" where
  "ip_version pkt = rbind (index pkt 0) (\<lambda>b. Inr (drop_bit 4 b))"

definition ip_ethertype :: "u8 \<Rightarrow> u16" where
  "ip_ethertype v = (if v = 4 then ETHERTYPE_IP else if v = 6 then ETHERTYPE_IPV6 else 0)"

definition ip_numbers :: "u8 list" where
  "ip_numbers = [0, 1, 4, 6, 17, 43, 44, 51, 58, 60]"

text \<open>
  \<open>vsapi_ip_to_defs_ip\<close>: the visa service's constants (a parameter, in the order HOPOPT, ICMP, IPINIP,
  TCP, UDP, IPV6_ROUTE, IPV6_FRAG, AH, IPV6_ICMP, IPV6_OPTS) are matched in this order.
\<close>

definition vsapi_ip_to_defs_ip :: "'n list \<Rightarrow> 'n \<Rightarrow> string + u8" where
  "vsapi_ip_to_defs_ip vsapi proto =
     (case map_of (zip vsapi ip_numbers) proto of
        Some n \<Rightarrow> Inr n
      | None \<Rightarrow> Inl ''Unknown protocol'')"

section \<open>Checksums\<close>

text \<open>\<open>ip4sum::Checksum\<close>\<close>

record 'c ip4sum =
  cs_new :: 'c
  cs_update :: "u8 list \<Rightarrow> 'c \<Rightarrow> 'c"
  cs_finalize :: "'c \<Rightarrow> u16"

definition be16 :: "u16 \<Rightarrow> u8 list" where
  "be16 w = [ucast (drop_bit 8 w), ucast w]"

definition be32 :: "u32 \<Rightarrow> u8 list" where
  "be32 w = [ucast (drop_bit 24 w), ucast (drop_bit 16 w), ucast (drop_bit 8 w), ucast w]"

definition checksum_ip_pseudo_header ::
    "'c ip4sum \<Rightarrow> 'c \<Rightarrow> u8 \<Rightarrow> ip_address \<Rightarrow> ip_address \<Rightarrow> u8 \<Rightarrow> u32 \<Rightarrow> 'c res" where
  "checksum_ip_pseudo_header cs c version src dst proto l4_length =
     (if version = 4 then
        Inr (cs_update cs (be16 (ucast l4_length)) (cs_update cs [0, proto]
          (cs_update cs (read_as_v4 dst) (cs_update cs (read_as_v4 src) c))))
      else if version = 6 then
        Inr (cs_update cs [0, proto] (cs_update cs (be32 l4_length)
          (cs_update cs (v6 dst) (cs_update cs (v6 src) c))))
      else Inl Panic_assert)"

definition inet_l4_checksum :: "'c ip4sum \<Rightarrow> u8 \<Rightarrow> ip_address \<Rightarrow> ip_address \<Rightarrow> u8 \<Rightarrow> u8 list \<Rightarrow> (u8 list) res" where
  "inet_l4_checksum cs version src dst proto payload =
     rbind (checksum_ip_pseudo_header cs (cs_new cs) version src dst proto (word_of_nat (length payload))) (\<lambda>c.
     Inr (be16 (cs_finalize cs (cs_update cs payload c))))"

definition validate_inet_l4_checksum :: "'c ip4sum \<Rightarrow> u8 \<Rightarrow> ip_address \<Rightarrow> ip_address \<Rightarrow> u8 \<Rightarrow> u8 list \<Rightarrow> bool res" where
  "validate_inet_l4_checksum cs version src dst proto payload =
     rbind (inet_l4_checksum cs version src dst proto payload) (\<lambda>sum. Inr (sum = [0, 0]))"

end
