(* ===== verification/Net_Props.thy ===== *)
theory Net_Props
  imports Net_Defs
begin

text \<open>
  What the address conversions and the transport checksum promise: round trips between the
  representations of an address, and agreement of the checksum with RFC 1071 over the
  pseudo-headers of RFC 793 and RFC 8200, with what a receiver can conclude from it.
\<close>

section \<open>Addresses\<close>

lemma list4: "length xs = 4 \<Longrightarrow> [xs ! 0, xs ! 1, xs ! 2, xs ! 3] = xs"
  and drop12: "length ys = 16 \<Longrightarrow> [ys ! 12, ys ! 13, ys ! 14, ys ! 15] = drop 12 ys"
  by (rule nth_equalityI; auto simp: less_Suc_eq eval_nat_numeral)+

lemma list16: "length xs = 16 \<Longrightarrow> xs = [xs ! 0, xs ! 1, xs ! 2, xs ! 3, xs ! 4, xs ! 5, xs ! 6, xs ! 7,
    xs ! 8, xs ! 9, xs ! 10, xs ! 11, xs ! 12, xs ! 13, xs ! 14, xs ! 15]"
  by (rule nth_equalityI) (auto simp: less_Suc_eq eval_nat_numeral)

lemma new_from_v4_props:
  assumes "length o4 = 4"
  shows "is_v4 (new_from_v4 o4)" and "read_as_v4 (new_from_v4 o4) = o4" and "ip_address_wf (new_from_v4 o4)"
  using assms list4 [OF assms] by (simp_all add: is_v4_def new_from_v4_def read_as_v4_def ip_address_wf_def)

lemma v4_rebuild:
  assumes "ip_address_wf a" and "is_v4 a"
  shows "new_from_v4 (read_as_v4 a) = a"
proof -
  have "v6 a = [0, 0, 0, 0, 0, 0, 0, 0, 0, 0, 0xff, 0xff, v6 a ! 12, v6 a ! 13, v6 a ! 14, v6 a ! 15]"
    using list16 [of "v6 a"] assms by (simp add: ip_address_wf_def is_v4_def)
  then have "v6 (new_from_v4 (read_as_v4 a)) = v6 a" by (simp add: new_from_v4_def read_as_v4_def)
  then show ?thesis by simp
qed

text \<open>
  C32. Address conversions lose nothing: every flat address survives the way through \<open>IpAddr\<close>, every
  \<open>Ipv4Addr\<close> is recovered exactly, and an \<open>Ipv6Addr\<close> is unless it is an IPv4-mapped one, which comes
  back as the IPv4 address it maps. An octet vector is accepted exactly if its length is 4 or 16;
  otherwise it is returned unchanged.
\<close>

theorem address_roundtrips:
  assumes "ip_address_wf a" and "ip_addr_wf x"
  shows "new_from_std (ip_addr_from a) = a \<and> ip_addr_wf (ip_addr_from a) \<and>
    ip_addr_from (new_from_std x) =
      (case x of IpV4 o4 \<Rightarrow> x | IpV6 o6 \<Rightarrow> if is_v4 \<lparr>v6 = o6\<rparr> then IpV4 (drop 12 o6) else x) \<and>
    (case ip_address_try_from_vec bytes of
       Inr b \<Rightarrow> length bytes = 4 \<and> ipv4_try_from b = Inr bytes \<or> length bytes = 16 \<and> ipv6_from b = bytes
     | Inl e \<Rightarrow> e = bytes \<and> length bytes \<notin> {4, 16})"
proof -
  have "new_from_std (ip_addr_from a) = a"
    using v4_rebuild [OF assms(1)]
    by (simp add: new_from_std_def ip_addr_from_def new_from_std_v4_def new_from_std_v6_def)
  moreover have "ip_addr_wf (ip_addr_from a)"
    using assms(1) by (simp add: ip_addr_from_def read_as_v4_def ip_address_wf_def)
  moreover have "ip_addr_from (new_from_std x) =
      (case x of IpV4 o4 \<Rightarrow> x | IpV6 o6 \<Rightarrow> if is_v4 \<lparr>v6 = o6\<rparr> then IpV4 (drop 12 o6) else x)"
  proof (cases x)
    case (IpV4 o4)
    with assms(2) new_from_v4_props [of o4] show ?thesis
      by (simp add: new_from_std_def new_from_std_v4_def ip_addr_from_def)
  next
    case (IpV6 o6)
    with assms(2) drop12 [of o6] show ?thesis
      by (simp add: new_from_std_def new_from_std_v6_def ip_addr_from_def read_as_v4_def)
  qed
  moreover have "case ip_address_try_from_vec bytes of
       Inr b \<Rightarrow> length bytes = 4 \<and> ipv4_try_from b = Inr bytes \<or> length bytes = 16 \<and> ipv6_from b = bytes
     | Inl e \<Rightarrow> e = bytes \<and> length bytes \<notin> {4, 16}"
    using new_from_v4_props [of bytes]
    by (simp add: ip_address_try_from_vec_def ip_address_from_octets4_def ip_address_from_octets16_def ipv4_try_from_def ipv6_from_def)
  ultimately show ?thesis by blast
qed

theorem address_roundtrips_witness:
  "ip_addr_from (new_from_std (IpV6 [0, 0, 0, 0, 0, 0, 0, 0, 0, 0, 255, 255, 10, 0, 0, 1])) = IpV4 [10, 0, 0, 1]"
  using address_roundtrips [of UNSPECIFIED "IpV6 [0, 0, 0, 0, 0, 0, 0, 0, 0, 0, 255, 255, 10, 0, 0, 1]" "[]"]
  by (simp add: ip_address_wf_def UNSPECIFIED_def is_v4_def)

text \<open>
  \<open>set_scoped_ip\<close> never panics, \<open>scoped_ip\<close> reads back exactly what was set (scope included), the
  port is kept, and setting back the scoped address it had restores a socket address, but for the
  flow label when the family changed in between.
\<close>

theorem scoped_ip_roundtrip:
  "\<exists>b. set_scoped_ip x a = Inr b \<and> scoped_ip_of b = x \<and> sock_port b = sock_port a \<and>
     set_scoped_ip (scoped_ip_of a) a = Inr a \<and>
     (\<exists>c. set_scoped_ip (scoped_ip_of a) b = Inr c \<and> scoped_ip_of c = scoped_ip_of a \<and> sock_port c = sock_port a)"
  by (cases x; cases a) (auto simp: set_scoped_ip_def scoped_ip_of_def scoped_ipv6_new_def)

section \<open>The Internet checksum\<close>

text \<open>RFC 1071: the sum of the 16-bit words, padded with a zero byte, with end-around carry; then its complement.\<close>

fun words_sum :: "u8 list \<Rightarrow> nat" where
  "words_sum [] = 0"
| "words_sum [a] = 256 * unat a"
| "words_sum (a # b # bs) = 256 * unat a + unat b + words_sum bs"

function fold_carry :: "nat \<Rightarrow> nat" where
  "fold_carry s = (if s < 65536 then s else fold_carry (s mod 65536 + s div 65536))"
  by pat_completeness auto
termination
proof (relation "measure id", goal_cases)
  case (2 s)
  then have "0 < s div 65536" by (simp add: div_greater_zero_iff)
  moreover have "s = 65536 * (s div 65536) + s mod 65536" by simp
  ultimately have "s mod 65536 + s div 65536 < s" by linarith
  then show ?case by simp
qed simp

declare fold_carry.simps [simp del]

definition inet_checksum :: "u8 list \<Rightarrow> u16" where
  "inet_checksum bs = NOT (word_of_nat (fold_carry (words_sum bs)))"

text \<open>\<open>ip4sum\<close> computes it over the bytes it is given, in pieces of even length but for the last.\<close>

definition ip4sum_laws :: "'c ip4sum \<Rightarrow> bool" where
  "ip4sum_laws cs \<longleftrightarrow> (\<forall>chunks. (\<forall>c \<in> set (butlast chunks). even (length c)) \<longrightarrow>
     cs_finalize cs (fold (cs_update cs) chunks (cs_new cs)) = inet_checksum (concat chunks))"

text \<open>The pseudo-headers of RFC 793 and RFC 8200.\<close>

definition rfc_pseudo_header :: "u8 \<Rightarrow> ip_address \<Rightarrow> ip_address \<Rightarrow> u8 \<Rightarrow> nat \<Rightarrow> u8 list" where
  "rfc_pseudo_header version src dst proto len =
     (if version = 4 then read_as_v4 src @ read_as_v4 dst @ [0, proto] @ be16 (word_of_nat len)
      else v6 src @ v6 dst @ be32 (word_of_nat len) @ [0, 0, 0, proto])"

lemma words_sum_append: "even (length xs) \<Longrightarrow> words_sum (xs @ ys) = words_sum xs + words_sum ys"
  by (induction xs rule: words_sum.induct) auto

lemma words_sum_zeros: "words_sum (replicate n 0) = 0"
  by (induction n rule: induct_nat_012) simp_all

lemma fold_carry_mod: "fold_carry s mod 65535 = s mod 65535"
proof (induction s rule: fold_carry.induct)
  case (1 s)
  show ?case
  proof (cases "s < 65536")
    case False
    have "s = s mod 65536 + s div 65536 + s div 65536 * 65535" using div_mult_mod_eq [of s 65536] by linarith
    then have "s mod 65535 = (s mod 65536 + s div 65536) mod 65535" by (metis mod_mult_self1)
    then show ?thesis using 1 False by (subst fold_carry.simps) simp
  qed (simp add: fold_carry.simps)
qed

lemma fold_carry_less: "fold_carry s < 65536"
  by (induction s rule: fold_carry.induct) (subst fold_carry.simps, simp)

lemma fold_carry_zero: "fold_carry s = 0 \<longleftrightarrow> s = 0"
proof (induction s rule: fold_carry.induct)
  case (1 s)
  have "s mod 65536 + s div 65536 = 0 \<longleftrightarrow> s < 65536 \<and> s = 0" by (auto simp: div_eq_0_iff mod_eq_0_iff_dvd)
  with 1 show ?case by (subst fold_carry.simps) auto
qed

lemma checksum_zero_iff: "inet_checksum bs = 0 \<longleftrightarrow> words_sum bs \<noteq> 0 \<and> words_sum bs mod 65535 = 0"
proof -
  let ?s = "fold_carry (words_sum bs)"
  have "inet_checksum bs = 0 \<longleftrightarrow> (word_of_nat ?s :: u16) = -1"
    unfolding inet_checksum_def by (metis bit.double_compl bit.compl_zero)
  also have "\<dots> \<longleftrightarrow> ?s = 65535"
  proof -
    have "unat (word_of_nat ?s :: u16) = ?s" using fold_carry_less [of "words_sum bs"] by (simp add: unat_of_nat_small)
    moreover have "unat (-1 :: u16) = 65535" by (simp add: unsigned_minus_1_eq_mask mask_eq_exp_minus_1)
    ultimately show ?thesis by (metis word_unat_eq_iff)
  qed
  also have "\<dots> \<longleftrightarrow> ?s \<noteq> 0 \<and> ?s mod 65535 = 0"
    using fold_carry_less [of "words_sum bs"] by (auto simp: mod_eq_0_iff_dvd elim!: dvdE)
  finally show ?thesis by (simp add: fold_carry_zero fold_carry_mod)
qed

lemma checksum_unat: "unat (inet_checksum bs) = 65535 - fold_carry (words_sum bs)"
proof -
  have compl: "NOT w = -1 - w" for w :: u16 by (simp add: not_eq_complement)
  have "unat (word_of_nat (fold_carry (words_sum bs)) :: u16) = fold_carry (words_sum bs)"
    using fold_carry_less [of "words_sum bs"] by (simp add: unat_of_nat_small)
  then show ?thesis unfolding inet_checksum_def
    by (simp add: compl unat_sub unsigned_minus_1_eq_mask mask_eq_exp_minus_1)
qed

section \<open>Transport checksums\<close>

lemma length_be [simp]: "length (be16 w) = 2" "length (be32 d) = 4"
  by (simp_all add: be16_def be32_def)

lemma length_read_as_v4 [simp]: "length (read_as_v4 a) = 4"
  by (simp add: read_as_v4_def)

lemma words_sum_be16: "words_sum (be16 w) = unat w"
proof -
  have "unat w < 65536" using unsigned_less [of w] by simp
  then have "unat (ucast (drop_bit 8 w) :: u8) = unat w div 256"
    by (simp add: unsigned_ucast_eq drop_bit_eq_div take_bit_eq_mod unat_div)
  moreover have "unat (ucast w :: u8) = unat w mod 256"
    by (simp add: unsigned_ucast_eq take_bit_eq_mod)
  ultimately show ?thesis by (simp add: be16_def)
qed

lemma be16_zero_iff: "be16 w = [0, 0] \<longleftrightarrow> w = 0"
proof
  assume "be16 w = [0, 0]"
  then have "unat w = 0" using words_sum_be16 [of w] by simp
  then show "w = 0" by (simp add: unat_eq_0)
qed (simp add: be16_def)

lemma ucast_len: "(ucast (word_of_nat n :: u32) :: u16) = word_of_nat n"
  by (rule bit_word_eqI) (simp add: bit_simps)

lemma inet_checksum_cong: "words_sum xs = words_sum ys \<Longrightarrow> inet_checksum xs = inet_checksum ys"
  by (simp add: inet_checksum_def)

definition l4_bytes :: "u8 \<Rightarrow> ip_address \<Rightarrow> ip_address \<Rightarrow> u8 \<Rightarrow> u8 list \<Rightarrow> u8 list" where
  "l4_bytes version src dst proto payload = rfc_pseudo_header version src dst proto (length payload) @ payload"

lemma l4_checksum_eq:
  assumes laws: "ip4sum_laws cs" and wf: "ip_address_wf src" "ip_address_wf dst" and version: "version \<in> {4, 6}"
  shows "inet_l4_checksum cs version src dst proto payload = Inr (be16 (inet_checksum (l4_bytes version src dst proto payload)))"
proof -
  let ?len = "word_of_nat (length payload) :: u32"
  define chunks where "chunks = (if version = 4
      then [read_as_v4 src, read_as_v4 dst, [0, proto], be16 (ucast ?len), payload]
      else [v6 src, v6 dst, be32 ?len, [0, proto], payload])"
  have "inet_l4_checksum cs version src dst proto payload =
      Inr (be16 (cs_finalize cs (fold (cs_update cs) chunks (cs_new cs))))"
    using version by (auto simp: inet_l4_checksum_def checksum_ip_pseudo_header_def chunks_def)
  also have "cs_finalize cs (fold (cs_update cs) chunks (cs_new cs)) = inet_checksum (concat chunks)"
  proof -
    have "\<forall>c \<in> set (butlast chunks). even (length c)" using wf by (simp add: chunks_def ip_address_wf_def)
    then show ?thesis using laws by (simp add: ip4sum_laws_def)
  qed
  also have "inet_checksum (concat chunks) = inet_checksum (l4_bytes version src dst proto payload)"
    using wf by (intro inet_checksum_cong)
      (simp add: chunks_def l4_bytes_def rfc_pseudo_header_def words_sum_append ip_address_wf_def ucast_len)
  finally show ?thesis .
qed

text \<open>
  C18. The transport checksum is that of the RFCs (the \<open>ip4sum\<close> crate computing the Internet checksum
  of the bytes it is given): the complement of the one's complement sum of the IPv4 or IPv6
  pseudo-header and the payload, although the code leaves out two zero bytes of the IPv6 one. Any
  other IP version panics.
\<close>

theorem l4_checksum_spec:
  assumes "ip4sum_laws cs" and "ip_address_wf src" and "ip_address_wf dst"
  shows "inet_l4_checksum cs version src dst proto payload =
    (if version \<in> {4, 6}
     then Inr (be16 (inet_checksum (rfc_pseudo_header version src dst proto (length payload) @ payload)))
     else Inl Panic_assert)"
  using l4_checksum_eq [OF assms, of version proto payload]
  by (auto simp: l4_bytes_def inet_l4_checksum_def checksum_ip_pseudo_header_def)

text \<open>A checksum object that keeps the bytes.\<close>

definition keep_bytes :: "u8 list ip4sum" where
  "keep_bytes = \<lparr>cs_new = [], cs_update = (\<lambda>bs c. c @ bs), cs_finalize = inet_checksum\<rparr>"

lemma keep_bytes_laws: "ip4sum_laws keep_bytes"
proof -
  have "fold (\<lambda>bs c. c @ bs) chunks acc = acc @ concat chunks" for chunks :: "u8 list list" and acc
    by (induction chunks arbitrary: acc) simp_all
  then show ?thesis by (simp add: ip4sum_laws_def keep_bytes_def)
qed

lemma unspecified_wf: "ip_address_wf UNSPECIFIED"
  by (simp add: ip_address_wf_def UNSPECIFIED_def)

theorem l4_checksum_spec_witness:
  "inet_l4_checksum keep_bytes 6 UNSPECIFIED UNSPECIFIED 17 [1, 2] = Inr [0xfe, 0xea]"
proof -
  have "words_sum (rfc_pseudo_header 6 UNSPECIFIED UNSPECIFIED 17 (length [1 :: u8, 2]) @ [1, 2]) = 277"
    by (simp add: rfc_pseudo_header_def UNSPECIFIED_def be32_def words_sum_append words_sum_zeros)
  then have "be16 (inet_checksum (rfc_pseudo_header 6 UNSPECIFIED UNSPECIFIED 17 (length [1 :: u8, 2]) @ [1, 2])) = [0xfe, 0xea]"
    by (simp only: inet_checksum_def) (simp add: fold_carry.simps be16_def)
  then show ?thesis
    using l4_checksum_spec [OF keep_bytes_laws unspecified_wf unspecified_wf, of 6 17 "[1, 2]"] by simp
qed

text \<open>Changing one byte changes the sum by at most 255 times the byte's weight.\<close>

lemma words_sum_update:
  "i < length p \<Longrightarrow> int (words_sum (p[i := b])) =
     int (words_sum p) + (int (unat b) - int (unat (p ! i))) * (if even i then 256 else 1)"
proof (induction p arbitrary: i rule: words_sum.induct)
  case (3 a c bs)
  consider "i = 0" | "i = 1" | j where "i = Suc (Suc j)" by (metis One_nat_def not0_implies_Suc)
  then show ?case
  proof cases
    case 3
    with "3.prems" "3.IH" [of j] show ?thesis by simp
  qed (simp_all add: algebra_simps)
qed (simp_all add: algebra_simps)

lemma even_pseudo_header: "ip_address_wf src \<Longrightarrow> ip_address_wf dst \<Longrightarrow> even (length (rfc_pseudo_header version src dst proto n))"
  by (simp add: rfc_pseudo_header_def ip_address_wf_def)

lemma validate_iff:
  assumes "ip4sum_laws cs" and "ip_address_wf src" "ip_address_wf dst" and "version \<in> {4, 6}"
  shows "validate_inet_l4_checksum cs version src dst proto payload =
    Inr (words_sum (l4_bytes version src dst proto payload) \<noteq> 0 \<and>
      words_sum (l4_bytes version src dst proto payload) mod 65535 = 0)"
  using l4_checksum_eq [OF assms]
  by (simp add: validate_inet_l4_checksum_def be16_zero_iff checksum_zero_iff)

text \<open>Adding the complement of the folded sum gives a positive multiple of 65535.\<close>

lemma complement_closes:
  "(s + (65535 - fold_carry s)) mod 65535 = 0" "s + (65535 - fold_carry s) \<noteq> 0"
proof -
  define f where "f = fold_carry s"
  have f: "f mod 65535 = s mod 65535" "f < 65536" by (simp_all add: f_def fold_carry_mod fold_carry_less)
  have "(s + (65535 - f)) mod 65535 = 0"
  proof (cases "f = 65535")
    case True
    with f show ?thesis by simp
  next
    case False
    with f have "f = s mod 65535" and "f < 65535" by simp_all
    then obtain q where "s = 65535 * q + f" by (metis mult_div_mod_eq)
    with \<open>f < 65535\<close> have "s + (65535 - f) = 65535 * (q + 1)" by simp
    then show ?thesis by (simp only: mod_mult_self1_is_0)
  qed
  then show "(s + (65535 - fold_carry s)) mod 65535 = 0" by (simp add: f_def)
  show "s + (65535 - fold_carry s) \<noteq> 0" using fold_carry_zero [of s] by (cases "s = 0") simp_all
qed

lemma byte_change_detected:
  assumes "(h + words_sum p) mod 65535 = 0" and "i < length p" and "b \<noteq> p ! i"
  shows "(h + words_sum (p[i := b])) mod 65535 \<noteq> 0"
proof
  assume zero: "(h + words_sum (p[i := b])) mod 65535 = 0"
  define d where "d = (int (unat b) - int (unat (p ! i))) * (if even i then 256 else 1)"
  have "int (h + words_sum (p[i := b])) = int (h + words_sum p) + d"
    using words_sum_update [OF assms(2), of b] by (simp add: d_def)
  moreover have "65535 dvd int (h + words_sum (p[i := b]))" and "65535 dvd int (h + words_sum p)"
    using zero assms(1) by (metis mod_0_imp_dvd of_nat_dvd_iff of_nat_numeral)+
  ultimately have "65535 dvd d" by (metis dvd_add_right_iff)
  moreover have "uint b \<noteq> uint (p ! i)" using assms(3) by (metis word_uint_eqI)
  then have "d \<noteq> 0" by (simp add: d_def)
  moreover have "0 \<le> uint b \<and> uint b < 256" and "0 \<le> uint (p ! i) \<and> uint (p ! i) < 256"
    using uint_lt2p [of b] uint_lt2p [of "p ! i"] by simp_all
  then have "\<bar>uint b - uint (p ! i)\<bar> \<le> 255" by linarith
  then have "\<bar>d\<bar> < 65535" by (simp add: d_def abs_mult)
  ultimately show False using dvd_imp_le_int [of d 65535] by simp
qed



end
