(* ===== verification/Rcu_Box.thy ===== *)
theory Rcu_Box
  imports Zpr_Prelude "HOL-Library.Multiset"
begin

text \<open>
  \<open>RcuBox\<close> of \<open>src/rcu/src/rcu.rs\<close>: the contract its implementations share, as a locale, and the
  two implementations that need nothing but the standard library: a value behind a
  reader-writer lock (\<open>rcu-rwlock\<close>) and a reference-counted value behind a mutex
  (\<open>rcu-mutex-arc\<close>). A closure argument is a function with a result, so that it can panic while a
  lock is held. The destructors of old values are logged.
\<close>

section \<open>Calls that may wait\<close>

text \<open>\<open>None\<close>: the call cannot proceed in this state and waits.\<close>

type_synonym ('s, 'r) blocking = "'s \<Rightarrow> ('s \<times> 'r res) option"

definition bbind :: "('s, 'r) blocking \<Rightarrow> ('r \<Rightarrow> ('s, 'q) blocking) \<Rightarrow> ('s, 'q) blocking" where
  "bbind m f s =
     (case m s of None \<Rightarrow> None
      | Some (s', r) \<Rightarrow> (case r of Inl e \<Rightarrow> Some (s', Inl e) | Inr x \<Rightarrow> f x s'))"

definition at_once :: "('s, 'r) act \<Rightarrow> ('s, 'r) blocking" where
  "at_once m s = Some (m s)"

lemma bbind_run [simp]:
  "m s = None \<Longrightarrow> bbind m f s = None"
  "m s = Some (s', Inl e) \<Longrightarrow> bbind m f s = Some (s', Inl e)"
  "m s = Some (s', Inr x) \<Longrightarrow> bbind m f s = f x s'"
  by (simp_all add: bbind_def)

section \<open>A value behind a reader-writer lock\<close>

text \<open>\<open>RwLock<T>\<close>: the value, the number of read guards, the poison flag, the log of destructors.\<close>

record 't rwbox =
  rw_value :: 't
  rw_readers :: nat
  rw_poisoned :: bool
  rw_dropped :: "'t list"

definition rw_new :: "'t \<Rightarrow> 't rwbox" where
  "rw_new v = \<lparr>rw_value = v, rw_readers = 0, rw_poisoned = False, rw_dropped = []\<rparr>"

text \<open>
  \<open>read().unwrap()\<close> and \<open>write().unwrap()\<close>. Between calls no write guard exists, so a read does not
  wait; a write waits for the read guards. A poisoned lock makes \<open>unwrap\<close> panic.
\<close>

definition rw_read_lock :: "('t rwbox, unit) blocking" where
  "rw_read_lock s =
     Some (if rw_poisoned s then (s, Inl Panic_poisoned) else (s\<lparr>rw_readers := rw_readers s + 1\<rparr>, Inr ()))"

definition rw_read_unlock :: "unit \<Rightarrow> ('t rwbox, unit) act" where
  "rw_read_unlock g s = (s\<lparr>rw_readers := rw_readers s - 1\<rparr>, Inr ())"

definition rw_write_lock :: "('t rwbox, unit) blocking" where
  "rw_write_lock s =
     (if rw_readers s > 0 then None
      else Some (s, if rw_poisoned s then Inl Panic_poisoned else Inr ()))"

definition rw_deref :: "'t rwbox \<Rightarrow> unit \<Rightarrow> 't res" where
  "rw_deref s g = Inr (rw_value s)"

definition rw_inspect :: "('t \<Rightarrow> 'u res) \<Rightarrow> ('t rwbox, 'u) blocking" where
  "rw_inspect f = bbind rw_read_lock (\<lambda>g s. Some (after (\<lambda>s. (s, f (rw_value s))) (rw_read_unlock g) s))"

definition rw_get :: "('t rwbox, unit) blocking" where
  "rw_get = rw_read_lock"

text \<open>\<open>mem::replace\<close> under the lock, then the drop of the lock, then of the old value.\<close>

definition rw_replace :: "'t \<Rightarrow> 't rwbox \<Rightarrow> 't rwbox" where
  "rw_replace v s = s\<lparr>rw_value := v, rw_dropped := rw_dropped s @ [rw_value s]\<rparr>"

definition rw_write :: "'t \<Rightarrow> ('t rwbox, unit) blocking" where
  "rw_write v = bbind rw_write_lock (\<lambda>_ s. Some (rw_replace v s, Inr ()))"

definition rw_update :: "('t \<Rightarrow> 't option res) \<Rightarrow> ('t rwbox, unit + unit) blocking" where
  "rw_update f = bbind rw_write_lock (\<lambda>_ s. Some
     (case f (rw_value s) of
        Inl e \<Rightarrow> (s\<lparr>rw_poisoned := True\<rparr>, Inl e)
      | Inr None \<Rightarrow> (s, Inr (Inl ()))
      | Inr (Some v) \<Rightarrow> (rw_replace v s, Inr (Inr ()))))"

section \<open>A reference-counted value behind a mutex\<close>

text \<open>
  \<open>Mutex<Arc<T>>\<close>: the heap of reference-counted cells (value and strong count), the next fresh
  address, the pointer under the mutex, the poison flag, the log of destructors. A guard is a
  pointer that owns one count.
\<close>

record 't mbox =
  mb_heap :: "nat \<rightharpoonup> 't \<times> nat"
  mb_next :: nat
  mb_ptr :: nat
  mb_poisoned :: bool
  mb_dropped :: "'t list"

definition mb_new :: "'t \<Rightarrow> 't mbox" where
  "mb_new v = \<lparr>mb_heap = [0 \<mapsto> (v, 1)], mb_next = 1, mb_ptr = 0, mb_poisoned = False, mb_dropped = []\<rparr>"

definition mb_lock :: "('t mbox, unit) act" where
  "mb_lock s = (s, if mb_poisoned s then Inl Panic_poisoned else Inr ())"

definition mb_deref :: "'t mbox \<Rightarrow> nat \<Rightarrow> 't res" where
  "mb_deref s a = (case mb_heap s a of None \<Rightarrow> Inl Undefined | Some (v, n) \<Rightarrow> Inr v)"

definition mb_arc_clone :: "nat \<Rightarrow> ('t mbox, nat) act" where
  "mb_arc_clone a s =
     (case mb_heap s a of
        None \<Rightarrow> (s, Inl Undefined)
      | Some (v, n) \<Rightarrow> (s\<lparr>mb_heap := (mb_heap s)(a \<mapsto> (v, n + 1))\<rparr>, Inr a))"

definition mb_arc_drop :: "nat \<Rightarrow> ('t mbox, unit) act" where
  "mb_arc_drop a s =
     (case mb_heap s a of
        None \<Rightarrow> (s, Inl Undefined)
      | Some (v, n) \<Rightarrow>
          if n > 1 then (s\<lparr>mb_heap := (mb_heap s)(a \<mapsto> (v, n - 1))\<rparr>, Inr ())
          else (s\<lparr>mb_heap := (mb_heap s)(a := None), mb_dropped := mb_dropped s @ [v]\<rparr>, Inr ()))"

text \<open>\<open>inspect\<close> releases the lock before it calls \<open>f\<close>; its own reference lives until \<open>f\<close> is done.\<close>

definition mb_inspect :: "('t \<Rightarrow> 'u res) \<Rightarrow> ('t mbox, 'u) act" where
  "mb_inspect f = abind mb_lock (\<lambda>_ s. abind (mb_arc_clone (mb_ptr s)) (\<lambda>a.
     after (\<lambda>s. (s, rbind (mb_deref s a) f)) (mb_arc_drop a)) s)"

definition mb_get :: "('t mbox, nat) act" where
  "mb_get = abind mb_lock (\<lambda>_ s. mb_arc_clone (mb_ptr s) s)"

definition mb_replace :: "'t \<Rightarrow> ('t mbox, unit) act" where
  "mb_replace v s =
     mb_arc_drop (mb_ptr s)
       (s\<lparr>mb_heap := (mb_heap s)(mb_next s \<mapsto> (v, 1)), mb_next := mb_next s + 1, mb_ptr := mb_next s\<rparr>)"

definition mb_write :: "'t \<Rightarrow> ('t mbox, unit) act" where
  "mb_write v = abind mb_lock (\<lambda>_. mb_replace v)"

definition mb_update :: "('t \<Rightarrow> 't option res) \<Rightarrow> ('t mbox, unit + unit) act" where
  "mb_update f = abind mb_lock (\<lambda>_ s.
     (case rbind (mb_deref s (mb_ptr s)) f of
        Inl e \<Rightarrow> (s\<lparr>mb_poisoned := True\<rparr>, Inl e)
      | Inr None \<Rightarrow> (s, Inr (Inl ()))
      | Inr (Some v) \<Rightarrow> abind (mb_replace v) (\<lambda>_. aret (Inr ())) s))"

section \<open>The contract\<close>

text \<open>What a change of the box leaves to the guards that are held.\<close>

definition pinned :: "('s \<Rightarrow> 'g \<Rightarrow> 't res) \<Rightarrow> 'g list \<Rightarrow> 's \<Rightarrow> 's \<Rightarrow> bool" where
  "pinned deref gs s s' \<longleftrightarrow> (\<forall>h \<in> set gs. deref s' h = deref s h)"

text \<open>
  \<open>ok s gs\<close>: a state in which exactly the guards \<open>gs\<close> are held. \<open>now\<close> is the latest value;
  \<open>readable\<close> and \<open>writable\<close> say that the locks that \<open>get\<close> and \<open>write\<close> take are not poisoned.
  A writer may have to wait, but only for guards.
\<close>

locale rcu_box =
  fixes ok :: "'s \<Rightarrow> 'g list \<Rightarrow> bool"
    and now :: "'s \<Rightarrow> 't"
    and readable :: "'s \<Rightarrow> bool"
    and writable :: "'s \<Rightarrow> bool"
    and deref :: "'s \<Rightarrow> 'g \<Rightarrow> 't res"
    and inspect :: "('t \<Rightarrow> 't res) \<Rightarrow> ('s, 't) blocking"
    and get :: "('s, 'g) blocking"
    and release :: "'g \<Rightarrow> ('s, unit) act"
    and put :: "'t \<Rightarrow> ('s, unit) blocking"
    and update :: "('t \<Rightarrow> 't option res) \<Rightarrow> ('s, unit + unit) blocking"
  assumes inspect_ok: "ok s gs \<Longrightarrow>
      \<exists>s'. inspect f s = Some (s', if readable s then f (now s) else Inl Panic_poisoned) \<and> ok s' gs \<and>
        now s' = now s \<and> pinned deref gs s s'"
    and get_ok: "ok s gs \<Longrightarrow> readable s \<Longrightarrow>
      \<exists>s' g. get s = Some (s', Inr g) \<and> ok s' (g # gs) \<and> deref s' g = Inr (now s) \<and>
        now s' = now s \<and> pinned deref gs s s'"
    and get_refused: "ok s gs \<Longrightarrow> \<not> readable s \<Longrightarrow> get s = Some (s, Inl Panic_poisoned)"
    and release_ok: "ok s gs \<Longrightarrow> g \<in> set gs \<Longrightarrow>
      \<exists>s'. release g s = (s', Inr ()) \<and> ok s' (remove1 g gs) \<and> now s' = now s \<and>
        pinned deref (remove1 g gs) s s'"
    and write_waits: "ok s gs \<Longrightarrow> put v s = None \<Longrightarrow> gs \<noteq> []"
    and write_refused: "ok s gs \<Longrightarrow> put v s = Some (s', r) \<Longrightarrow> \<not> writable s \<Longrightarrow>
      s' = s \<and> r = Inl Panic_poisoned"
    and write_ok: "ok s gs \<Longrightarrow> put v s = Some (s', r) \<Longrightarrow> writable s \<Longrightarrow>
      r = Inr () \<and> ok s' gs \<and> now s' = v \<and> pinned deref gs s s'"
    and update_waits: "ok s gs \<Longrightarrow> update u s = None \<longleftrightarrow> put v s = None"
    and update_refused: "ok s gs \<Longrightarrow> update u s = Some (s', q) \<Longrightarrow> \<not> writable s \<Longrightarrow>
      s' = s \<and> q = Inl Panic_poisoned"
    and update_declined: "ok s gs \<Longrightarrow> update u s = Some (s', q) \<Longrightarrow> writable s \<Longrightarrow>
      u (now s) = Inr None \<Longrightarrow> q = Inr (Inl ()) \<and> ok s' gs \<and> now s' = now s \<and> pinned deref gs s s'"
    and update_ok: "ok s gs \<Longrightarrow> update u s = Some (s', q) \<Longrightarrow> writable s \<Longrightarrow>
      u (now s) = Inr (Some v) \<Longrightarrow> q = Inr (Inr ()) \<and> ok s' gs \<and> now s' = v \<and> pinned deref gs s s'"
    and update_panics: "ok s gs \<Longrightarrow> update u s = Some (s', q) \<Longrightarrow> writable s \<Longrightarrow>
      u (now s) = Inl e \<Longrightarrow> q = Inl e \<and> ok s' gs \<and> now s' = now s \<and> pinned deref gs s s'"

text \<open>
  With destructors run by the last release: \<open>dropped\<close> is the log of destructors, \<open>live\<close> the values
  that still exist. Without guards only the latest value is left.
\<close>

locale prompt_rcu_box = rcu_box ok now readable writable deref inspect get release put update
  for ok :: "'s \<Rightarrow> 'g list \<Rightarrow> bool" and now :: "'s \<Rightarrow> 't" and readable writable deref inspect get release
    put update +
  fixes dropped :: "'s \<Rightarrow> 't list"
    and live :: "'s \<Rightarrow> 't multiset"
  assumes live_alone: "ok s [] \<Longrightarrow> live s = {#now s#}"
    and live_now: "ok s gs \<Longrightarrow> now s \<in># live s"
    and live_guard: "ok s gs \<Longrightarrow> g \<in> set gs \<Longrightarrow> deref s g = Inr v \<Longrightarrow> v \<in># live s"
    and get_account: "ok s gs \<Longrightarrow> get s = Some (s', r) \<Longrightarrow>
      mset (dropped s') + live s' = mset (dropped s) + live s"
    and release_account: "ok s gs \<Longrightarrow> g \<in> set gs \<Longrightarrow> release g s = (s', Inr ()) \<Longrightarrow>
      mset (dropped s') + live s' = mset (dropped s) + live s"
    and write_account: "ok s gs \<Longrightarrow> put v s = Some (s', Inr ()) \<Longrightarrow>
      mset (dropped s') + live s' = add_mset v (mset (dropped s) + live s)"
    and update_account: "ok s gs \<Longrightarrow> update u s = Some (s', Inr (Inr ())) \<Longrightarrow> u (now s) = Inr (Some v) \<Longrightarrow>
      mset (dropped s') + live s' = add_mset v (mset (dropped s) + live s)"
    and no_update_account: "ok s gs \<Longrightarrow> update u s = Some (s', q) \<Longrightarrow> q \<noteq> Inr (Inr ()) \<Longrightarrow>
      mset (dropped s') + live s' = mset (dropped s) + live s"

section \<open>Programs\<close>

text \<open>
  A program that uses a box: every call is a step. Beside the box runs the specification: the list
  \<open>vs\<close> of the values the box has held, latest last, and the guards held, each with the value that
  was the latest when it was obtained.
\<close>

definition updated :: "('t \<Rightarrow> 't option res) \<Rightarrow> 't list \<Rightarrow> 't list" where
  "updated u vs = (case u (last vs) of Inr (Some v) \<Rightarrow> vs @ [v] | _ \<Rightarrow> vs)"

inductive box_run :: "('s, 'g) blocking \<Rightarrow> ('g \<Rightarrow> ('s, unit) act) \<Rightarrow> ('t \<Rightarrow> ('s, unit) blocking) \<Rightarrow>
    (('t \<Rightarrow> 't option res) \<Rightarrow> ('s, unit + unit) blocking) \<Rightarrow> 's \<Rightarrow> 't \<Rightarrow> 's \<Rightarrow> 't list \<Rightarrow> ('g \<times> 't) list \<Rightarrow> bool"
  for get release put update s0 v0 where
  run_new: "box_run get release put update s0 v0 s0 [v0] []"
| run_get: "box_run get release put update s0 v0 s vs gv \<Longrightarrow> get s = Some (s', Inr g) \<Longrightarrow>
    box_run get release put update s0 v0 s' vs ((g, last vs) # gv)"
| run_release: "box_run get release put update s0 v0 s vs gv \<Longrightarrow> (g, v) \<in> set gv \<Longrightarrow>
    release g s = (s', r) \<Longrightarrow> box_run get release put update s0 v0 s' vs (remove1 (g, v) gv)"
| run_write: "box_run get release put update s0 v0 s vs gv \<Longrightarrow> put v s = Some (s', Inr ()) \<Longrightarrow>
    box_run get release put update s0 v0 s' (vs @ [v]) gv"
| run_update: "box_run get release put update s0 v0 s vs gv \<Longrightarrow> update u s = Some (s', Inr q) \<Longrightarrow>
    box_run get release put update s0 v0 s' (updated u vs) gv"
| run_panic: "box_run get release put update s0 v0 s vs gv \<Longrightarrow> update u s = Some (s', Inl e) \<Longrightarrow>
    box_run get release put update s0 v0 s' vs gv"

lemma remove1_fst:
  assumes "(g, v) \<in> set gv" and "\<And>w. (g, w) \<in> set gv \<Longrightarrow> w = v"
  shows "map fst (remove1 (g, v) gv) = remove1 g (map fst gv)"
  using assms
proof (induction gv)
  case (Cons x gv)
  obtain h w where x: "x = (h, w)" by (cases x)
  show ?case
  proof (cases "h = g")
    case True
    then have "w = v" using Cons.prems(2) [of w] x by simp
    with True x show ?thesis by simp
  next
    case False
    have "map fst (remove1 (g, v) gv) = remove1 g (map fst gv)"
      using Cons.prems(1) False x by (intro Cons.IH Cons.prems(2)) simp_all
    with False x show ?thesis by simp
  qed
qed simp

context rcu_box
begin

text \<open>The relation between the box and the specification.\<close>

definition agrees :: "'s \<Rightarrow> 't list \<Rightarrow> ('g \<times> 't) list \<Rightarrow> bool" where
  "agrees s vs gv \<longleftrightarrow> ok s (map fst gv) \<and> vs \<noteq> [] \<and> now s = last vs \<and> (\<forall>(g, v) \<in> set gv. deref s g = Inr v)"

lemma agreesD:
  assumes "agrees s vs gv"
  shows "ok s (map fst gv)" and "vs \<noteq> []" and "now s = last vs" and "(g, v) \<in> set gv \<Longrightarrow> deref s g = Inr v"
    and "(g, v) \<in> set gv \<Longrightarrow> g \<in> set (map fst gv)"
  using assms by (auto simp: agrees_def image_iff intro: bexI [of _ "(g, v)"])

lemma agrees_pinned:
  assumes "agrees s vs gv" and "ok s' (map fst gv)" and "pinned deref (map fst gv) s s'"
    and "now s' = last vs'" and "vs' \<noteq> []"
  shows "agrees s' vs' gv"
  using assms by (fastforce simp: agrees_def pinned_def)

lemma agrees_get:
  assumes "agrees s vs gv" and "get s = Some (s', Inr g)"
  shows "agrees s' vs ((g, last vs) # gv)"
proof -
  have ok: "ok s (map fst gv)" using assms(1) by (simp add: agrees_def)
  have "readable s" using get_refused [OF ok] assms(2) by auto
  from get_ok [OF ok this] assms show ?thesis by (fastforce simp: agrees_def pinned_def)
qed

lemma agrees_release:
  assumes "agrees s vs gv" and "(g, v) \<in> set gv" and "release g s = (s', r)"
  shows "agrees s' vs (remove1 (g, v) gv) \<and> r = Inr ()"
proof -
  note ok = agreesD(1) [OF assms(1)] and g = agreesD(5) [OF assms(1,2)]
  have same: "w = v" if "(g, w) \<in> set gv" for w
    using agreesD(4) [OF assms(1) that] agreesD(4) [OF assms(1,2)] by simp
  note fst = remove1_fst [OF assms(2) same]
  obtain t where t: "release g s = (t, Inr ())" "ok t (remove1 g (map fst gv))" "now t = now s"
    "pinned deref (remove1 g (map fst gv)) s t"
    using release_ok [OF ok g] by blast
  have "deref t h = Inr w" if "(h, w) \<in> set (remove1 (g, v) gv)" for h w
  proof -
    have "h \<in> set (map fst (remove1 (g, v) gv))" using imageI [OF that, of fst] by simp
    then have "h \<in> set (remove1 g (map fst gv))" by (simp only: fst)
    then have "deref t h = deref s h" using t(4) by (simp add: pinned_def)
    moreover have "(h, w) \<in> set gv" using that set_remove1_subset [of "(g, v)" gv] by blast
    ultimately show ?thesis using agreesD(4) [OF assms(1)] by simp
  qed
  with t agreesD(2,3) [OF assms(1)] assms(3) show ?thesis by (auto simp: agrees_def fst)
qed

lemma agrees_write:
  assumes "agrees s vs gv" and "put v s = Some (s', Inr ())"
  shows "agrees s' (vs @ [v]) gv"
proof -
  have ok: "ok s (map fst gv)" using assms(1) by (simp add: agrees_def)
  have "writable s" using write_refused [OF ok assms(2)] by auto
  from write_ok [OF ok assms(2) this] show ?thesis by (auto intro!: agrees_pinned [OF assms(1)])
qed

lemma update_result:
  assumes "ok s gs" and "update u s = Some (s', q)"
  shows "ok s' gs" and "pinned deref gs s s'"
    and "(case q of
      Inl e \<Rightarrow> now s' = now s \<and> (writable s \<longrightarrow> u (now s) = Inl e)
    | Inr (Inl _) \<Rightarrow> now s' = now s \<and> u (now s) = Inr None
    | Inr (Inr _) \<Rightarrow> u (now s) = Inr (Some (now s')))"
proof -
  have "ok s' gs \<and> pinned deref gs s s' \<and> (case q of
      Inl e \<Rightarrow> now s' = now s \<and> (writable s \<longrightarrow> u (now s) = Inl e)
    | Inr (Inl _) \<Rightarrow> now s' = now s \<and> u (now s) = Inr None
    | Inr (Inr _) \<Rightarrow> u (now s) = Inr (Some (now s')))"
  proof (cases "writable s")
    case False
    with update_refused [OF assms] assms(1) show ?thesis by (simp add: pinned_def)
  next
    case True
    then show ?thesis
      using update_panics [OF assms True] update_declined [OF assms True] update_ok [OF assms True]
      by (cases "u (now s)"; cases "projr (u (now s))") auto
  qed
  then show "ok s' gs" and "pinned deref gs s s'" and "(case q of
      Inl e \<Rightarrow> now s' = now s \<and> (writable s \<longrightarrow> u (now s) = Inl e)
    | Inr (Inl _) \<Rightarrow> now s' = now s \<and> u (now s) = Inr None
    | Inr (Inr _) \<Rightarrow> u (now s) = Inr (Some (now s')))" by blast+
qed

lemma agrees_update:
  assumes "agrees s vs gv" and "update u s = Some (s', Inr q)"
  shows "agrees s' (updated u vs) gv"
proof -
  note D = agreesD [OF assms(1)]
  note res = update_result [OF D(1) assms(2)]
  have "now s' = last (updated u vs)" and "updated u vs \<noteq> []"
    using res(3) D(2,3) by (auto simp: updated_def split: sum.splits)
  with agrees_pinned [OF assms(1) res(1,2)] show ?thesis by blast
qed

lemma agrees_panic:
  assumes "agrees s vs gv" and "update u s = Some (s', Inl e)"
  shows "agrees s' vs gv"
proof -
  note D = agreesD [OF assms(1)]
  note res = update_result [OF D(1) assms(2)]
  show ?thesis using agrees_pinned [OF assms(1) res(1,2)] res(3) D(2,3) by simp
qed

lemma run_agrees:
  assumes "box_run get release put update s0 v0 s vs gv" and "ok s0 []" and "now s0 = v0"
  shows "agrees s vs gv"
  using assms(1)
proof induction
  case run_new
  then show ?case using assms(2,3) by (simp add: agrees_def)
qed (auto intro: agrees_get agrees_release [THEN conjunct1] agrees_write agrees_update agrees_panic)

lemma writer_waits_only_for_guards:
  assumes "agrees s vs []"
  shows "put v s \<noteq> None" and "update u s \<noteq> None"
  using assms write_waits [of s "[]" v] update_waits [of s "[]" u v] by (auto simp: agrees_def)

end

context prompt_rcu_box
begin

lemma run_update_account:
  assumes "ok s gs" and "update u s = Some (s', Inr q)" and "now s = last vs"
    and "mset (dropped s) + live s = mset vs"
  shows "mset (dropped s') + live s' = mset (updated u vs)"
  using update_result(3) [OF assms(1,2)] no_update_account [OF assms(1,2)] update_account [OF assms(1), of u s'] assms(2-4)
  by (auto simp: updated_def split: sum.splits)

lemma run_account:
  assumes "box_run get release put update s0 v0 s vs gv" and "ok s0 []" and "now s0 = v0" and "dropped s0 = []"
  shows "mset (dropped s) + live s = mset vs"
  using assms(1)
proof induction
  case run_new
  then show ?case using assms(2-4) live_alone by simp
next
  case (run_get s vs gv s' g)
  then show ?case using get_account [OF agreesD(1) [OF run_agrees [OF run_get.hyps(1) assms(2,3)]]] by simp
next
  case (run_release s vs gv g v s' r)
  have ag: "agrees s vs gv" by (rule run_agrees [OF run_release.hyps(1) assms(2,3)])
  have "r = Inr ()" using agrees_release [OF ag run_release.hyps(2,3)] by simp
  with run_release release_account [OF agreesD(1) [OF ag] agreesD(5) [OF ag run_release.hyps(2)]]
  show ?case by simp
next
  case (run_write s vs gv v s')
  then show ?case using write_account [OF agreesD(1) [OF run_agrees [OF run_write.hyps(1) assms(2,3)]]] by simp
next
  case (run_update s vs gv u s' q)
  note ag = run_agrees [OF run_update.hyps(1) assms(2,3)]
  show ?case using run_update_account [OF agreesD(1) [OF ag] run_update.hyps(2) agreesD(3) [OF ag] run_update.IH] .
next
  case (run_panic s vs gv u s' e)
  then show ?case using no_update_account [OF agreesD(1) [OF run_agrees [OF run_panic.hyps(1) assms(2,3)]]] by simp
qed

text \<open>The values destroyed are all but the latest, once no guard is left; a guarded value never.\<close>

lemma run_destroys:
  assumes "box_run get release put update s0 v0 s vs gv" and "ok s0 []" and "now s0 = v0" and "dropped s0 = []"
  shows "gv = [] \<Longrightarrow> mset (dropped s) = mset (butlast vs)"
    and "(g, v) \<in> set gv \<Longrightarrow> count (mset (dropped s)) v < count (mset vs) v"
    and "count (mset (dropped s)) (last vs) < count (mset vs) (last vs)"
proof -
  note ag = run_agrees [OF assms(1-3)] and acc = run_account [OF assms]
  have less: "count (mset (dropped s)) v < count (mset vs) v" if "v \<in># live s" for v
    using that by (simp flip: acc)
  show "mset (dropped s) = mset (butlast vs)" if "gv = []"
  proof -
    have "mset vs = add_mset (last vs) (mset (butlast vs))"
      using agreesD(2) [OF ag] by (cases vs rule: rev_cases) simp_all
    moreover have "live s = {#last vs#}" using live_alone [of s] agreesD(1,3) [OF ag] that by simp
    ultimately show ?thesis using acc by simp
  qed
  show "count (mset (dropped s)) v < count (mset vs) v" if "(g, v) \<in> set gv"
    by (rule less [OF live_guard [OF agreesD(1) [OF ag] agreesD(5,4) [OF ag that]]])
  show "count (mset (dropped s)) (last vs) < count (mset vs) (last vs)"
    using live_now [OF agreesD(1) [OF ag]] agreesD(3) [OF ag] by (intro less) simp
qed

end

section \<open>The reader-writer lock meets the contract\<close>

definition rw_ok :: "'t rwbox \<Rightarrow> unit list \<Rightarrow> bool" where
  "rw_ok s gs \<longleftrightarrow> rw_readers s = length gs"

definition rw_usable :: "'t rwbox \<Rightarrow> bool" where
  "rw_usable s \<longleftrightarrow> \<not> rw_poisoned s"

definition rw_live :: "'t rwbox \<Rightarrow> 't multiset" where
  "rw_live s = {#rw_value s#}"

lemmas rw_defs = rw_ok_def rw_usable_def rw_live_def rw_read_lock_def rw_read_unlock_def rw_write_lock_def
  rw_deref_def rw_inspect_def rw_get_def rw_replace_def rw_write_def rw_update_def bbind_def after_def pinned_def

interpretation rwbox: prompt_rcu_box rw_ok rw_value rw_usable rw_usable rw_deref rw_inspect rw_get
  rw_read_unlock rw_write rw_update rw_dropped rw_live
  by unfold_locales (auto simp: rw_defs length_remove1 split: if_splits sum.splits option.splits)

section \<open>The mutex meets the contract\<close>

text \<open>Every cell's count is the number of guards on it, plus one for the box's own pointer.\<close>

definition mb_refs :: "'t mbox \<Rightarrow> nat list \<Rightarrow> nat \<Rightarrow> nat" where
  "mb_refs s gs a = count_list gs a + (if a = mb_ptr s then 1 else 0)"

definition counted :: "(nat \<rightharpoonup> 't \<times> nat) \<Rightarrow> (nat \<Rightarrow> nat) \<Rightarrow> bool" where
  "counted h n \<longleftrightarrow> (\<forall>a. map_option snd (h a) = (if n a = 0 then None else Some (n a)))"

definition mb_ok :: "'t mbox \<Rightarrow> nat list \<Rightarrow> bool" where
  "mb_ok s gs \<longleftrightarrow> counted (mb_heap s) (mb_refs s gs) \<and> (\<forall>a \<ge> mb_next s. mb_heap s a = None)"

definition mb_now :: "'t mbox \<Rightarrow> 't" where
  "mb_now s = fst (the (mb_heap s (mb_ptr s)))"

definition mb_usable :: "'t mbox \<Rightarrow> bool" where
  "mb_usable s \<longleftrightarrow> \<not> mb_poisoned s"

definition mb_live :: "'t mbox \<Rightarrow> 't multiset" where
  "mb_live s = image_mset (\<lambda>a. fst (the (mb_heap s a))) (mset_set (dom (mb_heap s)))"

lemma counted_cell: "counted h n \<Longrightarrow> 0 < n a \<Longrightarrow> \<exists>v. h a = Some (v, n a)"
  unfolding counted_def by (drule spec [of _ a]) auto

lemma counted_update:
  assumes "counted h n" and "map_option snd c = (if k = 0 then None else Some k)"
  shows "counted (h(a := c)) (n(a := k))"
  unfolding counted_def
proof
  fix b
  show "map_option snd ((h(a := c)) b) = (if (n(a := k)) b = 0 then None else Some ((n(a := k)) b))"
    using assms(2) spec [OF assms(1) [unfolded counted_def], of b] by (auto split: if_splits)
qed

lemma mb_refs_Cons: "mb_refs s (a # gs) = (mb_refs s gs)(a := mb_refs s gs a + 1)"
  by (auto simp: mb_refs_def)

lemma mb_refs_same: "mb_ptr s' = mb_ptr s \<Longrightarrow> mb_refs s' = mb_refs s"
  by (auto simp: mb_refs_def fun_eq_iff)

lemma mb_cell: "mb_ok s gs \<Longrightarrow> 0 < mb_refs s gs a \<Longrightarrow> \<exists>v. mb_heap s a = Some (v, mb_refs s gs a)"
  by (simp add: mb_ok_def counted_cell)

lemma mb_ptr_cell: "mb_ok s gs \<Longrightarrow> mb_heap s (mb_ptr s) = Some (mb_now s, mb_refs s gs (mb_ptr s))"
  using mb_cell [of s gs "mb_ptr s"] by (auto simp: mb_now_def mb_refs_def)

lemma mb_finite: "mb_ok s gs \<Longrightarrow> finite (dom (mb_heap s))"
  by (rule finite_subset [of _ "{..< mb_next s}"]) (auto simp: mb_ok_def dom_def not_le [symmetric])

text \<open>A change of one cell changes the live values by that cell.\<close>

lemma mb_live_update:
  assumes "finite (dom (mb_heap s))" and "mb_heap s' = (mb_heap s)(a := c)"
  shows "mb_live s' + (case mb_heap s a of None \<Rightarrow> {#} | Some x \<Rightarrow> {#fst x#}) =
    mb_live s + (case c of None \<Rightarrow> {#} | Some x \<Rightarrow> {#fst x#})"
proof -
  let ?rest = "image_mset (\<lambda>a. fst (the (mb_heap s a))) (mset_set (dom (mb_heap s) - {a}))"
  have same: "image_mset (\<lambda>b. fst (the (mb_heap s' b))) (mset_set (dom (mb_heap s) - {a})) = ?rest"
    by (rule image_mset_cong) (simp add: assms)
  have "mb_live s = ?rest + (case mb_heap s a of None \<Rightarrow> {#} | Some x \<Rightarrow> {#fst x#})"
  proof (cases "mb_heap s a")
    case (Some x)
    then have "mset_set (dom (mb_heap s)) = add_mset a (mset_set (dom (mb_heap s) - {a}))"
      using assms(1) by (intro mset_set.remove) auto
    with Some show ?thesis by (simp add: mb_live_def)
  qed (simp add: mb_live_def domIff)
  moreover have "mb_live s' = ?rest + (case c of None \<Rightarrow> {#} | Some x \<Rightarrow> {#fst x#})"
  proof (cases c)
    case None
    then have "dom (mb_heap s') = dom (mb_heap s) - {a}" by (simp add: assms(2))
    with None same show ?thesis by (simp add: mb_live_def)
  next
    case (Some x)
    then have "dom (mb_heap s') = insert a (dom (mb_heap s) - {a})" by (auto simp: assms(2))
    then have "mset_set (dom (mb_heap s')) = add_mset a (mset_set (dom (mb_heap s) - {a}))"
      using mset_set.insert [of "dom (mb_heap s) - {a}" a] assms(1) by simp
    with Some same show ?thesis unfolding mb_live_def by (simp add: assms(2))
  qed
  ultimately show ?thesis by simp
qed

text \<open>One lemma per primitive: cloning and dropping a reference, and replacing the pointer.\<close>

lemma mb_clone_ok:
  assumes "mb_ok s gs" and "0 < mb_refs s gs a"
  shows "\<exists>s'. mb_arc_clone a s = (s', Inr a) \<and> mb_ok s' (a # gs) \<and> mb_now s' = mb_now s \<and>
    (\<forall>b. mb_deref s' b = mb_deref s b) \<and> mb_dropped s' = mb_dropped s \<and> mb_live s' = mb_live s \<and>
    mb_poisoned s' = mb_poisoned s"
proof -
  obtain v where v: "mb_heap s a = Some (v, mb_refs s gs a)" using mb_cell [OF assms] by blast
  define s' where "s' = s\<lparr>mb_heap := (mb_heap s)(a \<mapsto> (v, mb_refs s gs a + 1))\<rparr>"
  have heap: "mb_heap s' = (mb_heap s)(a \<mapsto> (v, mb_refs s gs a + 1))"
    and same: "mb_ptr s' = mb_ptr s" "mb_next s' = mb_next s" by (simp_all add: s'_def)
  have "mb_refs s' (a # gs) = (mb_refs s gs)(a := mb_refs s gs a + 1)"
    by (simp add: mb_refs_Cons mb_refs_same [OF same(1)])
  then have "counted (mb_heap s') (mb_refs s' (a # gs))"
    using assms(1) by (simp add: heap mb_ok_def counted_update)
  then have "mb_ok s' (a # gs)"
    using assms(1) v by (auto simp: mb_ok_def heap same)
  moreover have "mb_live s' = mb_live s"
    using mb_live_update [OF mb_finite [OF assms(1)] heap] v by simp
  ultimately show ?thesis
    using v by (auto simp: mb_arc_clone_def s'_def mb_now_def mb_deref_def)
qed

lemma mb_drop_ok:
  assumes refs: "counted (mb_heap s) n"
    and fresh: "\<And>b. mb_next s \<le> b \<Longrightarrow> mb_heap s b = None" and "0 < n a"
  shows "\<exists>s'. mb_arc_drop a s = (s', Inr ()) \<and> mb_ptr s' = mb_ptr s \<and> mb_next s' = mb_next s \<and>
    mb_poisoned s' = mb_poisoned s \<and>
    counted (mb_heap s') (n(a := n a - 1)) \<and>
    (\<forall>b \<ge> mb_next s. mb_heap s' b = None) \<and> (\<forall>b. mb_heap s' b \<noteq> None \<longrightarrow> mb_deref s' b = mb_deref s b) \<and>
    mset (mb_dropped s') + mb_live s' = mset (mb_dropped s) + mb_live s"
proof -
  obtain v where v: "mb_heap s a = Some (v, n a)" using counted_cell [OF refs assms(3)] by blast
  have fin: "finite (dom (mb_heap s))"
    by (rule finite_subset [of _ "{..< mb_next s}"]) (auto simp: dom_def not_le [symmetric] fresh)
  define c where "c = (if n a > 1 then Some (v, n a - 1) else None)"
  define s' where "s' = s\<lparr>mb_heap := (mb_heap s)(a := c), mb_dropped := mb_dropped s @ (if n a > 1 then [] else [v])\<rparr>"
  have heap: "mb_heap s' = (mb_heap s)(a := c)" by (simp add: s'_def)
  have "mset (mb_dropped s') + mb_live s' = mset (mb_dropped s) + mb_live s"
    using mb_live_update [OF fin heap] v by (cases "n a > 1") (auto simp: c_def s'_def)
  moreover have "mb_arc_drop a s = (s', Inr ())"
    using v by (simp add: mb_arc_drop_def s'_def c_def)
  moreover have "counted (mb_heap s') (n(a := n a - 1))"
    unfolding heap using assms(3) by (intro counted_update [OF refs]) (simp add: c_def)
  moreover have "mb_heap s' b = None" if "b \<ge> mb_next s" for b
    using fresh [OF that] v by (auto simp: heap c_def)
  moreover have "mb_deref s' b = mb_deref s b" if "mb_heap s' b \<noteq> None" for b
    using that v by (auto simp: heap mb_deref_def c_def split: if_splits)
  moreover have "mb_ptr s' = mb_ptr s \<and> mb_next s' = mb_next s \<and> mb_poisoned s' = mb_poisoned s"
    by (simp add: s'_def)
  ultimately show ?thesis by blast
qed

lemma mb_refs_remove1:
  assumes "g \<in> set gs"
  shows "mb_refs s (remove1 g gs) = (mb_refs s gs)(g := mb_refs s gs g - 1)"
proof -
  have "count_list (remove1 g gs) b = (if b = g then count_list gs b - 1 else count_list gs b)" for b
    by (simp add: count_mset [symmetric])
  moreover have "0 < count_list gs g" using assms by (simp add: count_list_0_iff flip: neq0_conv)
  ultimately show ?thesis by (auto simp: mb_refs_def)
qed

lemma mb_guard_refs: "g \<in> set gs \<Longrightarrow> 0 < mb_refs s gs g"
  using count_list_0_iff [of gs g] by (simp add: mb_refs_def)

lemma mb_release_ok:
  assumes "mb_ok s gs" and "g \<in> set gs"
  shows "\<exists>s'. mb_arc_drop g s = (s', Inr ()) \<and> mb_ok s' (remove1 g gs) \<and> mb_now s' = mb_now s \<and>
    pinned mb_deref (remove1 g gs) s s' \<and>
    mset (mb_dropped s') + mb_live s' = mset (mb_dropped s) + mb_live s"
proof -
  have ok: "counted (mb_heap s) (mb_refs s gs)" "\<And>b. mb_next s \<le> b \<Longrightarrow> mb_heap s b = None"
    using assms(1) by (simp_all add: mb_ok_def)
  obtain s' where s': "mb_arc_drop g s = (s', Inr ())" "mb_ptr s' = mb_ptr s" "mb_next s' = mb_next s"
    "counted (mb_heap s') ((mb_refs s gs)(g := mb_refs s gs g - 1))" "\<forall>b \<ge> mb_next s. mb_heap s' b = None"
    "\<forall>b. mb_heap s' b \<noteq> None \<longrightarrow> mb_deref s' b = mb_deref s b"
    "mset (mb_dropped s') + mb_live s' = mset (mb_dropped s) + mb_live s"
    using mb_drop_ok [OF ok mb_guard_refs [OF assms(2)]] by blast
  have ok': "mb_ok s' (remove1 g gs)"
    using s' by (simp add: mb_ok_def mb_refs_same [OF s'(2)] mb_refs_remove1 [OF assms(2)])
  have same: "mb_deref s' b = mb_deref s b" if "0 < mb_refs s' (remove1 g gs) b" for b
    using mb_cell [OF ok' that] s'(6) by auto
  then have "pinned mb_deref (remove1 g gs) s s'" unfolding pinned_def using mb_guard_refs by blast
  moreover have "mb_now s' = mb_now s"
    using same [of "mb_ptr s"] mb_ptr_cell [OF ok'] mb_ptr_cell [OF assms(1)] s'(2)
    by (simp add: mb_deref_def mb_refs_def)
  ultimately show ?thesis using s' ok' by blast
qed

lemma mb_replace_ok:
  assumes "mb_ok s gs"
  shows "\<exists>s'. mb_replace v s = (s', Inr ()) \<and> mb_ok s' gs \<and> mb_now s' = v \<and> pinned mb_deref gs s s' \<and>
    mset (mb_dropped s') + mb_live s' = add_mset v (mset (mb_dropped s) + mb_live s)"
proof -
  define t where "t = s\<lparr>mb_heap := (mb_heap s)(mb_next s \<mapsto> (v, 1)), mb_next := mb_next s + 1, mb_ptr := mb_next s\<rparr>"
  define n where "n = (mb_refs s gs)(mb_next s := 1)"
  have heap: "mb_heap t = (mb_heap s)(mb_next s \<mapsto> (v, 1))" by (simp add: t_def)
  have fresh: "mb_heap s (mb_next s) = None" using assms by (simp add: mb_ok_def)
  then have zero: "mb_refs s gs (mb_next s) = 0" using mb_cell [OF assms, of "mb_next s"] by auto
  have old: "mb_next s \<noteq> mb_ptr s" using zero by (auto simp: mb_refs_def)
  have t: "counted (mb_heap t) n" "\<And>b. mb_next t \<le> b \<Longrightarrow> mb_heap t b = None" "0 < n (mb_ptr s)"
    using assms old by (simp_all add: heap n_def mb_ok_def counted_update t_def mb_refs_def)
  obtain s' where s': "mb_arc_drop (mb_ptr s) t = (s', Inr ())" "mb_ptr s' = mb_ptr t" "mb_next s' = mb_next t"
    "counted (mb_heap s') (n(mb_ptr s := n (mb_ptr s) - 1))" "\<forall>b \<ge> mb_next t. mb_heap s' b = None"
    "\<forall>b. mb_heap s' b \<noteq> None \<longrightarrow> mb_deref s' b = mb_deref t b"
    "mset (mb_dropped s') + mb_live s' = mset (mb_dropped t) + mb_live t"
    using mb_drop_ok [OF t] by blast
  have "n(mb_ptr s := n (mb_ptr s) - 1) = mb_refs s' gs"
    using old zero s'(2) by (auto simp: n_def mb_refs_def t_def fun_eq_iff)
  then have ok': "mb_ok s' gs" using s' by (simp add: mb_ok_def)
  have same: "mb_deref s' b = mb_deref t b" if "0 < mb_refs s' gs b" for b
    using mb_cell [OF ok' that] s'(6) by auto
  have "mb_next s \<notin> set gs" using zero mb_guard_refs [of "mb_next s" gs s] by auto
  then have "mb_deref s' h = mb_deref s h" if "h \<in> set gs" for h
    using same [OF mb_guard_refs [OF that]] that by (auto simp: mb_deref_def heap)
  then have "pinned mb_deref gs s s'" by (simp add: pinned_def)
  moreover have "mb_now s' = v"
    using same [of "mb_next s"] mb_ptr_cell [OF ok'] s'(2) by (simp add: t_def mb_refs_def mb_deref_def)
  moreover have "mb_live t = add_mset v (mb_live s)" and "mb_dropped t = mb_dropped s"
    using mb_live_update [OF mb_finite [OF assms] heap] fresh by (simp_all add: t_def)
  moreover have "mb_replace v s = (s', Inr ())" using s'(1) by (simp add: mb_replace_def t_def)
  ultimately show ?thesis using ok' s'(7) by auto
qed

lemma mb_inspect_eq:
  assumes "mb_ok s gs"
  shows "mb_inspect f s = (s, if mb_usable s then f (mb_now s) else Inl Panic_poisoned)"
proof -
  let ?p = "mb_ptr s" and ?n = "mb_refs s gs (mb_ptr s)"
  have cell: "mb_heap s ?p = Some (mb_now s, ?n)" and pos: "0 < ?n"
    using mb_ptr_cell [OF assms] by (simp_all add: mb_refs_def)
  then have "s\<lparr>mb_heap := (mb_heap s)(?p \<mapsto> (mb_now s, ?n))\<rparr> = s"
    by (simp add: fun_upd_idem)
  with cell pos show ?thesis
    by (simp add: mb_inspect_def mb_lock_def mb_usable_def abind_def mb_arc_clone_def after_def mb_arc_drop_def
        mb_deref_def)
qed

lemma mb_live_alone:
  assumes "mb_ok s []"
  shows "mb_live s = {#mb_now s#}"
proof -
  have "a = mb_ptr s" if "mb_heap s a \<noteq> None" for a
    using that assms by (auto simp: mb_ok_def counted_def mb_refs_def dest!: spec [of _ a] split: if_splits)
  then have "dom (mb_heap s) = {mb_ptr s}" using mb_ptr_cell [OF assms] by auto
  then show ?thesis by (simp add: mb_live_def mb_now_def)
qed

lemma mb_live_deref:
  assumes "mb_ok s gs" and "0 < mb_refs s gs a" and "mb_deref s a = Inr v"
  shows "v \<in># mb_live s"
proof -
  obtain n where "mb_heap s a = Some (v, n)"
    using mb_cell [OF assms(1,2)] assms(3) by (auto simp: mb_deref_def)
  then have "v = fst (the (mb_heap s a))" and "a \<in># mset_set (dom (mb_heap s))"
    using mb_finite [OF assms(1)] by auto
  then show ?thesis by (auto simp: mb_live_def)
qed

lemma mb_locked: "abind mb_lock f s = (if mb_usable s then f () s else (s, Inl Panic_poisoned))"
  by (simp add: abind_def mb_lock_def mb_usable_def)

lemma mb_update_eq:
  assumes "mb_ok s gs"
  shows "mb_update u s =
    (if mb_usable s then
       (case u (mb_now s) of
          Inl e \<Rightarrow> (s\<lparr>mb_poisoned := True\<rparr>, Inl e)
        | Inr None \<Rightarrow> (s, Inr (Inl ()))
        | Inr (Some v) \<Rightarrow> (fst (mb_replace v s), Inr (Inr ())))
     else (s, Inl Panic_poisoned))"
proof -
  have "mb_deref s (mb_ptr s) = Inr (mb_now s)" using mb_ptr_cell [OF assms] by (simp add: mb_deref_def)
  moreover have "abind (mb_replace v) (\<lambda>_. aret (Inr ())) s = (fst (mb_replace v s), Inr (Inr ()))" for v
    using mb_replace_ok [OF assms, of v] by auto
  ultimately show ?thesis by (auto simp: mb_update_def mb_locked split: sum.splits option.splits)
qed

lemma mb_poison_ok:
  "mb_ok (s\<lparr>mb_poisoned := b\<rparr>) gs = mb_ok s gs" "mb_now (s\<lparr>mb_poisoned := b\<rparr>) = mb_now s"
  "mb_live (s\<lparr>mb_poisoned := b\<rparr>) = mb_live s" "mb_deref (s\<lparr>mb_poisoned := b\<rparr>) = mb_deref s"
proof -
  have "mb_refs (s\<lparr>mb_poisoned := b\<rparr>) = mb_refs s" by (rule mb_refs_same) simp
  then show "mb_ok (s\<lparr>mb_poisoned := b\<rparr>) gs = mb_ok s gs" by (simp add: mb_ok_def)
qed (simp_all add: mb_now_def mb_live_def mb_deref_def fun_eq_iff)

lemma mb_get_ok:
  assumes "mb_ok s gs" and "mb_usable s"
  shows "\<exists>s' g. mb_get s = (s', Inr g) \<and> mb_ok s' (g # gs) \<and> mb_deref s' g = Inr (mb_now s) \<and>
    mb_now s' = mb_now s \<and> pinned mb_deref gs s s' \<and> mset (mb_dropped s') + mb_live s' = mset (mb_dropped s) + mb_live s"
proof -
  have "0 < mb_refs s gs (mb_ptr s)" by (simp add: mb_refs_def)
  from mb_clone_ok [OF assms(1) this] mb_ptr_cell [OF assms(1)] show ?thesis
    by (fastforce simp: mb_get_def mb_locked assms(2) pinned_def mb_deref_def)
qed

lemma mb_new_ok:
  shows "mb_ok (mb_new v) []" and "mb_now (mb_new v) = v" and "mb_dropped (mb_new v) = []"
proof -
  have refs: "mb_refs (mb_new v) [] = (\<lambda>_. 0)(0 := 1)" by (auto simp: mb_new_def mb_refs_def)
  have "counted [0 \<mapsto> (v, 1)] (mb_refs (mb_new v) [])"
    unfolding refs by (rule counted_update) (simp_all add: counted_def)
  then show "mb_ok (mb_new v) []" by (simp add: mb_ok_def mb_new_def)
qed (simp_all add: mb_new_def mb_now_def)

interpretation mbox: prompt_rcu_box mb_ok mb_now mb_usable mb_usable mb_deref "\<lambda>f. at_once (mb_inspect f)"
  "at_once mb_get" mb_arc_drop "\<lambda>v. at_once (mb_write v)" "\<lambda>u. at_once (mb_update u)" mb_dropped mb_live
proof (unfold_locales, goal_cases)
  case (1 s gs f)
  then show ?case by (simp add: at_once_def mb_inspect_eq pinned_def)
next
  case (2 s gs)
  then show ?case using mb_get_ok by (fastforce simp: at_once_def)
next
  case (4 s gs g)
  then show ?case using mb_release_ok by blast
next
  case (7 s gs v s' r)
  then show ?case using mb_replace_ok [of s gs v] by (auto simp: at_once_def mb_write_def mb_locked)
next
  case (11 s gs u s' q v)
  then show ?case using mb_replace_ok [of s gs v] by (auto simp: at_once_def mb_write_def mb_locked mb_update_eq)
next
  case (14 s gs)
  then show ?case using mb_ptr_cell [of s gs] by (intro mb_live_deref) (auto simp: mb_refs_def mb_deref_def)
next
  case (15 s gs g v)
  show ?case by (rule mb_live_deref [OF 15(1) mb_guard_refs [OF 15(2)] 15(3)])
next
  case (16 s gs s' r)
  then show ?case using mb_get_ok [of s gs] by (cases "mb_usable s") (auto simp: at_once_def mb_get_def mb_locked)
next
  case (19 s gs u s' v)
  then show ?case using mb_replace_ok [of s gs v]
    by (auto simp: at_once_def mb_update_eq split: if_splits)
next
  case (20 s gs u s' q)
  then show ?case
    by (auto simp: at_once_def mb_update_eq mb_poison_ok split: if_splits sum.splits option.splits)
next
  case (18 s gs v s')
  then show ?case using mb_replace_ok [of s gs v]
    by (auto simp: at_once_def mb_write_def mb_locked split: if_splits)
qed (auto simp: at_once_def mb_get_def mb_locked mb_write_def mb_update_eq mb_poison_ok pinned_def mb_live_alone
    dest: mb_release_ok split: if_splits sum.splits option.splits)

end
