(* ===== verification/Unit_Tests.thy ===== *)
theory Unit_Tests
  imports Net_Props Cbpf_Clients Rcu_Box
begin

text \<open>
  The unit tests of \<open>src/zpr-utils/src/net_defs.rs\<close>, the one of \<open>src/cbpf-rs/src/lib.rs\<close> that does not
  call the \<open>pcap\<close> compiler, and the one of \<open>src/rcu/src/rcu.rs\<close>, on the definitions of the development. The
  checksum of the \<open>ip4sum\<close> crate is a parameter of the tests that use it.
\<close>

section \<open>Addresses\<close>

definition test_vec_to_ip_address_v4 :: "unit res" where
  "test_vec_to_ip_address_v4 =
     (let v4_octets = [0x01, 0x02, 0x03, 0x04] in
      case ip_address_try_from_vec v4_octets of
        Inl _ \<Rightarrow> Inl Panic_unwrap
      | Inr a \<Rightarrow> rassert Panic_assert (ip_address_from_octets4 v4_octets = a))"

definition test_vec_to_ip_address_v6 :: "unit res" where
  "test_vec_to_ip_address_v6 =
     (let v6_octets = [0x01, 0x02, 0x03, 0x04, 0x05, 0x06, 0x07, 0x08, 0x09, 0x0a, 0x0b, 0x0c, 0x0d, 0x0e, 0x0f, 0x10] in
      case ip_address_try_from_vec v6_octets of
        Inl _ \<Rightarrow> Inl Panic_unwrap
      | Inr a \<Rightarrow> rassert Panic_assert (ip_address_from_octets16 v6_octets = a))"

definition test_vec_to_ip_address_invalid :: "unit res" where
  "test_vec_to_ip_address_invalid =
     (let invalid_octets = [0x01, 0x02, 0x03, 0x04, 0x05, 0x06, 0x07, 0x08, 0x09] in
      rassert Panic_assert (isl (ip_address_try_from_vec invalid_octets)))"

section \<open>Checksums\<close>

text \<open>\<open>L4_TEST_DATA\<close>: IP version, source, destination, protocol and payload of two packets.\<close>

definition L4_TEST_DATA :: "(u8 \<times> ip_address \<times> ip_address \<times> u8 \<times> u8 list) list" where
  "L4_TEST_DATA =
     [(4, new_from_v4 [139, 255, 192, 233], new_from_v4 [10, 132, 4, 55], 6,
       [0x01, 0xbb, 0xc3, 0x74, 0x4b, 0xad, 0x33, 0x82, 0x10, 0xc5, 0x41, 0xfe, 0x80, 0x18,
        0x03, 0x5f, 0x7b, 0x94, 0x00, 0x00, 0x01, 0x01, 0x08, 0x0a, 0x26, 0x09, 0x2c, 0x37,
        0x55, 0x41, 0x13, 0xf5, 0x17, 0x03, 0x03, 0x00, 0x1a, 0xed, 0x93, 0xf6, 0x3d, 0xc0,
        0xf6, 0x2f, 0xaa, 0x80, 0x03, 0xc7, 0xc8, 0x5b, 0x99, 0xba, 0xf1, 0xc5, 0xd0, 0x8a,
        0xfe, 0x12, 0xb8, 0x6f, 0xee, 0x5c, 0xd5]),
      (6, \<lparr>v6 = [0xfe, 0x80, 0, 0, 0, 0, 0, 0, 0xc, 0xbb, 0x7e, 0xa4, 0x55, 0xf1, 0x7, 0x9f]\<rparr>,
       \<lparr>v6 = [0xfe, 0x80, 0, 0, 0, 0, 0, 0, 0xc, 0xbb, 0x7e, 0xa4, 0x55, 0xf1, 0x7, 0x9f]\<rparr>, 58,
       [0x80, 0x00, 0x16, 0x20, 0x00, 0x05, 0x00, 0x01, 0xca, 0xd5, 0xb1, 0x69, 0x00, 0x00,
        0x00, 0x00, 0x51, 0x6b, 0x0e, 0x00, 0x00, 0x00, 0x00, 0x00, 0x10, 0x11, 0x12, 0x13,
        0x14, 0x15, 0x16, 0x17, 0x18, 0x19, 0x1a, 0x1b, 0x1c, 0x1d, 0x1e, 0x1f, 0x20, 0x21,
        0x22, 0x23, 0x24, 0x25, 0x26, 0x27, 0x28, 0x29, 0x2a, 0x2b, 0x2c, 0x2d, 0x2e, 0x2f,
        0x30, 0x31, 0x32, 0x33, 0x34, 0x35, 0x36, 0x37])]"

fun check_packets :: "'c ip4sum \<Rightarrow> (u8 \<times> ip_address \<times> ip_address \<times> u8 \<times> u8 list) list \<Rightarrow> unit res" where
  "check_packets cs [] = Inr ()"
| "check_packets cs ((version, src, dst, proto, data) # ps) =
     rbind (inet_l4_checksum cs version src dst proto data) (\<lambda>sum.
     rbind (rassert Panic_assert (sum = [0, 0])) (\<lambda>_. check_packets cs ps))"

definition test_pseudo_header_checksum :: "'c ip4sum \<Rightarrow> unit res" where
  "test_pseudo_header_checksum cs = check_packets cs L4_TEST_DATA"

definition test_checksum_handles_long_runs_of_ff :: "'c ip4sum \<Rightarrow> unit res" where
  "test_checksum_handles_long_runs_of_ff cs =
     (let payload = replicate 65534 0xff; address = new_from_v4 [0, 0, 0, 0] in
      rbind (inet_l4_checksum cs 4 address address 0 payload) (\<lambda>sum. rassert Panic_assert (sum = [0, 1])))"

section \<open>Filters\<close>

definition invalid_test :: "unit res" where
  "invalid_test =
     (case validate [bpf_stmt (BPF_RET OR BPF_LEN) 0] of
        Inr _ \<Rightarrow> Inl Panic_assert
      | Inl err \<Rightarrow> rassert Panic_assert (err = InvalidInstruction))"

section \<open>Boxes\<close>

text \<open>
  \<open>guard_pins_value\<close>, over the operations of a box. The spawned writer may run while the guard is held
  (\<open>early\<close>); if its lock makes it wait, or if it is late, it runs once the guard is gone, before the scope ends. \<open>None\<close>
  is a test that hangs.
\<close>

definition guard_pins_value :: "bool \<Rightarrow> ('s, 'g) blocking \<Rightarrow> ('s \<Rightarrow> 'g \<Rightarrow> bool res) \<Rightarrow> ('g \<Rightarrow> ('s, unit) act) \<Rightarrow>
    (bool \<Rightarrow> ('s, unit) blocking) \<Rightarrow> 's \<Rightarrow> (unit res) option" where
  "guard_pins_value early get deref release put rcu =
     (case get rcu of
        None \<Rightarrow> None
      | Some (s, Inl e) \<Rightarrow> Some (Inl e)
      | Some (s, Inr guard) \<Rightarrow>
        (case if early then put False s else None of
           Some (s', written) \<Rightarrow>
             Some (rbind (deref s' guard) (\<lambda>v. rbind (rassert Panic_assert v) (\<lambda>_.
               rbind (snd (release guard s')) (\<lambda>_. written))))
         | None \<Rightarrow>
             (case rbind (deref s guard) (rassert Panic_assert) of
                Inl e \<Rightarrow> Some (Inl e)
              | Inr _ \<Rightarrow> (case release guard s of (s', r) \<Rightarrow>
                  map_option (\<lambda>(s'', written). rbind r (\<lambda>_. written)) (put False s')))))"

section \<open>Running them\<close>

lemma box_tests_pass:
  "guard_pins_value early rw_get rw_deref rw_read_unlock rw_write (rw_new True) = Some (Inr ())"
  "guard_pins_value early (at_once mb_get) mb_deref mb_arc_drop (\<lambda>v. at_once (mb_write v)) (mb_new True) = Some (Inr ())"
  by (cases early; simp add: guard_pins_value_def rw_defs rw_new_def rassert_def)
    (cases early; simp add: guard_pins_value_def mb_new_def mb_get_def mb_lock_def mb_arc_clone_def mb_arc_drop_def mb_deref_def
      mb_write_def mb_replace_def at_once_def rassert_def abind_def)

lemma address_tests_pass:
  "test_vec_to_ip_address_v4 = Inr ()" "test_vec_to_ip_address_v6 = Inr ()" "test_vec_to_ip_address_invalid = Inr ()"
  by (simp_all add: test_vec_to_ip_address_v4_def test_vec_to_ip_address_v6_def test_vec_to_ip_address_invalid_def
      ip_address_try_from_vec_def)

lemma invalid_test_passes: "invalid_test = Inr ()"
  by (simp add: invalid_test_def bpf_stmt_def validate_def validate_with_flags_def do_validate_def check_insn_def
      check_ret_def Let_def bpf_code_defs bpf_field_defs)

text \<open>A packet is accepted if the words of its pseudo-header and payload add up to a multiple of 65535.\<close>

lemma checksum_zero_packet:
  assumes "ip4sum_laws cs" and "ip_address_wf src" and "ip_address_wf dst" and "version \<in> {4, 6}"
    and "words_sum (rfc_pseudo_header version src dst proto (length payload) @ payload) = 65535 * k" and "0 < k"
  shows "inet_l4_checksum cs version src dst proto payload = Inr [0, 0]"
proof -
  have "inet_checksum (l4_bytes version src dst proto payload) = 0"
    using assms(5,6) by (simp add: checksum_zero_iff l4_bytes_def)
  then show ?thesis using l4_checksum_eq [OF assms(1-4), of proto payload] by (simp add: be16_def)
qed

lemma pseudo_header_test_passes:
  assumes "ip4sum_laws cs"
  shows "test_pseudo_header_checksum cs = Inr ()"
  unfolding test_pseudo_header_checksum_def L4_TEST_DATA_def
  by (simp add: checksum_zero_packet [OF assms, where k = 14] checksum_zero_packet [OF assms, where k = 9]
      ip_address_wf_def new_from_v4_def rfc_pseudo_header_def read_as_v4_def be16_def be32_def)

lemma words_sum_ones: "words_sum (replicate (2 * n) 0xff) = 65535 * n"
  by (induction n) simp_all

lemma long_runs_test_passes:
  assumes "ip4sum_laws cs"
  shows "test_checksum_handles_long_runs_of_ff cs = Inr ()"
proof -
  let ?a = "new_from_v4 [0, 0, 0, 0]" and ?p = "replicate 65534 (0xff :: u8)"
  have wf: "ip_address_wf ?a" by (simp add: ip_address_wf_def new_from_v4_def)
  have "words_sum (l4_bytes 4 ?a ?a 0 ?p) = 65534 + 65535 * 32767"
    using words_sum_ones [of 32767]
    by (simp add: l4_bytes_def rfc_pseudo_header_def read_as_v4_def new_from_v4_def be16_def)
  then have "inet_checksum (l4_bytes 4 ?a ?a 0 ?p) = 1"
    by (simp only: inet_checksum_def) (simp add: fold_carry.simps)
  then show ?thesis
    using l4_checksum_eq [OF assms wf wf, of 4 0 ?p]
    by (simp add: test_checksum_handles_long_runs_of_ff_def be16_def)
qed

text \<open>
  The repository's unit tests of the addresses and of the checksum pass on the model, with any
  implementation of the Internet checksum: octet vectors of length 4 and 16 are converted and others
  refused, the two recorded packets have checksum zero, and a payload of 65534 bytes \<open>0xff\<close> gives the
  checksum 1. So does the test that a return with an addressing mode is not a valid instruction, and, whenever
  the writer runs, the test that a guard of the box on a read-write lock or on a mutex keeps its value.
\<close>

theorem unit_tests_pass:
  assumes "ip4sum_laws cs"
  shows "test_vec_to_ip_address_v4 = Inr () \<and> test_vec_to_ip_address_v6 = Inr () \<and>
    test_vec_to_ip_address_invalid = Inr () \<and> test_pseudo_header_checksum cs = Inr () \<and>
    test_checksum_handles_long_runs_of_ff cs = Inr () \<and> invalid_test = Inr () \<and>
    guard_pins_value early rw_get rw_deref rw_read_unlock rw_write (rw_new True) = Some (Inr ()) \<and>
    guard_pins_value early (at_once mb_get) mb_deref mb_arc_drop (\<lambda>v. at_once (mb_write v)) (mb_new True) = Some (Inr ())"
  using address_tests_pass invalid_test_passes box_tests_pass pseudo_header_test_passes [OF assms] long_runs_test_passes [OF assms] by simp

theorem unit_tests_pass_witness:
  "ip4sum_laws keep_bytes \<and> test_pseudo_header_checksum keep_bytes = Inr () \<and>
    test_checksum_handles_long_runs_of_ff keep_bytes = Inr ()"
  using unit_tests_pass [OF keep_bytes_laws] keep_bytes_laws by simp

end
