(* ===== verification/Rcu_Box_Conc.thy ===== *)
theory Rcu_Box_Conc
  imports Rcu_Box
begin

text \<open>
  \<open>RcuBox\<close> on the crates \<open>arc-swap\<close> and \<open>aarc\<close> (\<open>src/rcu/src/rcu.rs\<close>): readers load a guard without
  any lock, writers are serialized by a mutex beside the cell. The atomic cell belongs to the
  crate and is a parameter; what its documentation promises are named laws. Threads run step by
  step: a writer's lock, load, closure, store and unlock interleave with all other threads.
\<close>

section \<open>The crates\<close>

text \<open>
  \<open>arc_swap::ArcSwapAny<Arc<T>>\<close>: cells \<open>'c\<close>, guards \<open>'g\<close>. A cell is the crate's whole shared
  state, including its guards.
\<close>

record ('c, 'g, 't) arc_swap =
  as_new :: "'t \<Rightarrow> 'c"
  as_load :: "'c \<Rightarrow> 'c \<times> 'g"
  as_deref :: "'c \<Rightarrow> 'g \<Rightarrow> 't"
  as_drop :: "'g \<Rightarrow> 'c \<Rightarrow> 'c"
  as_store :: "'t \<Rightarrow> 'c \<Rightarrow> 'c"

text \<open>\<open>aarc::AtomicArc<T>\<close>: the cell may be empty.\<close>

record ('c, 'g, 't) aarc =
  aa_new :: "'t option \<Rightarrow> 'c"
  aa_load :: "'c \<Rightarrow> 'c \<times> 'g option"
  aa_deref :: "'c \<Rightarrow> 'g \<Rightarrow> 't"
  aa_drop :: "'g \<Rightarrow> 'c \<Rightarrow> 'c"
  aa_store :: "'t option \<Rightarrow> 'c \<Rightarrow> 'c"

text \<open>
  The documented behaviour: \<open>load\<close> returns the value stored last, and a guard keeps the value it
  was loaded with until it is dropped. \<open>cur\<close> is the value stored last, \<open>held\<close> the guards in use.
\<close>

definition arc_swap_laws :: "('c, 'g, 't) arc_swap \<Rightarrow> ('c \<Rightarrow> 't) \<Rightarrow> ('c \<Rightarrow> 'g list \<Rightarrow> bool) \<Rightarrow> bool" where
  "arc_swap_laws cr cur held \<longleftrightarrow>
     (\<forall>v. held (as_new cr v) [] \<and> cur (as_new cr v) = v) \<and>
     (\<forall>c gs c' g. held c gs \<longrightarrow> as_load cr c = (c', g) \<longrightarrow>
        held c' (g # gs) \<and> cur c' = cur c \<and> as_deref cr c' g = cur c \<and>
        (\<forall>h \<in> set gs. as_deref cr c' h = as_deref cr c h)) \<and>
     (\<forall>c gs v. held c gs \<longrightarrow> held (as_store cr v c) gs \<and> cur (as_store cr v c) = v \<and>
        (\<forall>h \<in> set gs. as_deref cr (as_store cr v c) h = as_deref cr c h)) \<and>
     (\<forall>c gs g. held c gs \<longrightarrow> g \<in> set gs \<longrightarrow>
        held (as_drop cr g c) (remove1 g gs) \<and> cur (as_drop cr g c) = cur c \<and>
        (\<forall>h \<in> set (remove1 g gs). as_deref cr (as_drop cr g c) h = as_deref cr c h))"

definition aarc_laws :: "('c, 'g, 't) aarc \<Rightarrow> ('c \<Rightarrow> 't option) \<Rightarrow> ('c \<Rightarrow> 'g list \<Rightarrow> bool) \<Rightarrow> bool" where
  "aarc_laws cr cur held \<longleftrightarrow>
     (\<forall>v. held (aa_new cr v) [] \<and> cur (aa_new cr v) = v) \<and>
     (\<forall>c gs c'. held c gs \<longrightarrow> aa_load cr c = (c', None) \<longrightarrow> cur c = None) \<and>
     (\<forall>c gs c' g. held c gs \<longrightarrow> aa_load cr c = (c', Some g) \<longrightarrow>
        held c' (g # gs) \<and> cur c' = cur c \<and> cur c = Some (aa_deref cr c' g) \<and>
        (\<forall>h \<in> set gs. aa_deref cr c' h = aa_deref cr c h)) \<and>
     (\<forall>c gs v. held c gs \<longrightarrow> held (aa_store cr v c) gs \<and> cur (aa_store cr v c) = v \<and>
        (\<forall>h \<in> set gs. aa_deref cr (aa_store cr v c) h = aa_deref cr c h)) \<and>
     (\<forall>c gs g. held c gs \<longrightarrow> g \<in> set gs \<longrightarrow>
        held (aa_drop cr g c) (remove1 g gs) \<and> cur (aa_drop cr g c) = cur c \<and>
        (\<forall>h \<in> set (remove1 g gs). aa_deref cr (aa_drop cr g c) h = aa_deref cr c h))"

section \<open>The boxes\<close>

text \<open>
  What the two modules define on their cell: \<open>get\<close> (and the load of \<open>inspect\<close>), \<open>deref\<close> and drop
  of a guard, \<open>write_nonlocked\<close>. In \<open>aarc\<close>, \<open>unwrap_unchecked\<close> of an empty cell is undefined.
\<close>

record ('c, 'g, 't) arc_box =
  bx_new :: "'t \<Rightarrow> 'c"
  bx_get :: "('c, 'g) act"
  bx_deref :: "'c \<Rightarrow> 'g \<Rightarrow> 't"
  bx_drop :: "'g \<Rightarrow> 'c \<Rightarrow> 'c"
  bx_write_nonlocked :: "'t \<Rightarrow> 'c \<Rightarrow> 'c"

definition arc_swap_get :: "('c, 'g, 't) arc_swap \<Rightarrow> ('c, 'g) act" where
  "arc_swap_get cr c = (case as_load cr c of (c', g) \<Rightarrow> (c', Inr g))"

definition arc_swap_box :: "('c, 'g, 't) arc_swap \<Rightarrow> ('c, 'g, 't) arc_box" where
  "arc_swap_box cr = \<lparr>bx_new = as_new cr, bx_get = arc_swap_get cr, bx_deref = as_deref cr, bx_drop = as_drop cr,
     bx_write_nonlocked = as_store cr\<rparr>"

definition aarc_get :: "('c, 'g, 't) aarc \<Rightarrow> ('c, 'g) act" where
  "aarc_get cr c = (case aa_load cr c of (c', None) \<Rightarrow> (c', Inl Undefined) | (c', Some g) \<Rightarrow> (c', Inr g))"

definition aarc_box :: "('c, 'g, 't) aarc \<Rightarrow> ('c, 'g, 't) arc_box" where
  "aarc_box cr = \<lparr>bx_new = (\<lambda>v. aa_new cr (Some v)), bx_get = aarc_get cr, bx_deref = aa_deref cr, bx_drop = aa_drop cr,
     bx_write_nonlocked = (\<lambda>v. aa_store cr (Some v))\<rparr>"

definition bx_inspect :: "('c, 'g, 't) arc_box \<Rightarrow> ('t \<Rightarrow> 'u res) \<Rightarrow> ('c, 'u) act" where
  "bx_inspect bx f = abind (bx_get bx) (\<lambda>g. after (\<lambda>c. (c, f (bx_deref bx c g))) (\<lambda>c. (bx_drop bx g c, Inr ())))"

section \<open>Threads\<close>

text \<open>
  A writer: before the lock, with the lock, inside \<open>inspect\<close> with a guard, with the new value,
  after the store; \<open>Finished\<close> keeps what the call returned.
\<close>

datatype 't task = Write 't | Update "'t \<Rightarrow> 't option res"

datatype ('t, 'g) thread =
    Idle
  | Called "'t task"
  | Locked "'t task"
  | Inspecting "'t \<Rightarrow> 't option res" 'g
  | Storing "'t task" 't
  | Unlocking
  | Finished "(unit + unit) res"

text \<open>
  \<open>cw_holder\<close> and \<open>cw_poisoned\<close> are the mutex, \<open>cw_guards\<close> the guards of readers, each with the
  value it was obtained with. The ghost log records the calls in the order in which they took effect.
\<close>

record ('c, 'g, 't) cworld =
  cw_cell :: 'c
  cw_holder :: "nat option"
  cw_poisoned :: bool
  cw_thread :: "nat \<Rightarrow> ('t, 'g) thread"
  cw_guards :: "('g \<times> 't) list"
  cw_log :: "('t task \<times> (unit + unit) res) list"

definition set_thread :: "nat \<Rightarrow> ('t, 'g) thread \<Rightarrow> ('c, 'g, 't) cworld \<Rightarrow> ('c, 'g, 't) cworld" where
  "set_thread i th w = w\<lparr>cw_thread := (cw_thread w)(i := th)\<rparr>"

definition log_call :: "'t task \<Rightarrow> (unit + unit) res \<Rightarrow> ('c, 'g, 't) cworld \<Rightarrow> ('c, 'g, 't) cworld" where
  "log_call t r w = w\<lparr>cw_log := cw_log w @ [(t, r)]\<rparr>"

definition cworld_start :: "('c, 'g, 't) arc_box \<Rightarrow> 't \<Rightarrow> ('c, 'g, 't) cworld" where
  "cworld_start bx v = \<lparr>cw_cell = bx_new bx v, cw_holder = None, cw_poisoned = False, cw_thread = (\<lambda>_. Idle),
     cw_guards = [], cw_log = []\<rparr>"

text \<open>
  One step of thread \<open>i\<close> in \<open>write\<close> or \<open>update\<close>; \<open>None\<close> where it waits for the mutex or has nothing
  to do. A panic of the closure drops the guard of \<open>inspect\<close>, then poisons and releases the mutex.
\<close>

definition thread_step :: "('c, 'g, 't) arc_box \<Rightarrow> nat \<Rightarrow> ('c, 'g, 't) cworld \<Rightarrow> ('c, 'g, 't) cworld option" where
  "thread_step bx i w =
     (case cw_thread w i of
        Called t \<Rightarrow>
          if cw_holder w \<noteq> None then None
          else if cw_poisoned w then Some (set_thread i (Finished (Inl Panic_poisoned)) w)
          else Some (set_thread i (Locked t) (w\<lparr>cw_holder := Some i\<rparr>))
      | Locked (Write v) \<Rightarrow> Some (set_thread i (Storing (Write v) v) w)
      | Locked (Update f) \<Rightarrow>
          (case bx_get bx (cw_cell w) of
             (c, Inl e) \<Rightarrow> Some (set_thread i (Finished (Inl e)) (w\<lparr>cw_cell := c, cw_poisoned := True, cw_holder := None\<rparr>))
           | (c, Inr g) \<Rightarrow> Some (set_thread i (Inspecting f g) (w\<lparr>cw_cell := c\<rparr>)))
      | Inspecting f g \<Rightarrow>
          (let w' = w\<lparr>cw_cell := bx_drop bx g (cw_cell w)\<rparr> in
           case f (bx_deref bx (cw_cell w) g) of
             Inl e \<Rightarrow> Some (set_thread i (Finished (Inl e)) (log_call (Update f) (Inl e) (w'\<lparr>cw_poisoned := True, cw_holder := None\<rparr>)))
           | Inr None \<Rightarrow> Some (set_thread i (Finished (Inr (Inl ()))) (log_call (Update f) (Inr (Inl ())) (w'\<lparr>cw_holder := None\<rparr>)))
           | Inr (Some v) \<Rightarrow> Some (set_thread i (Storing (Update f) v) w'))
      | Storing t v \<Rightarrow>
          Some (set_thread i Unlocking (log_call t (Inr (Inr ())) (w\<lparr>cw_cell := bx_write_nonlocked bx v (cw_cell w)\<rparr>)))
      | Unlocking \<Rightarrow> Some (set_thread i (Finished (Inr (Inr ()))) (w\<lparr>cw_holder := None\<rparr>))
      | _ \<Rightarrow> None)"

text \<open>Programs: threads call \<open>write\<close> and \<open>update\<close> any number of times, readers come and go.\<close>

inductive cw_step :: "('c, 'g, 't) arc_box \<Rightarrow> ('c, 'g, 't) cworld \<Rightarrow> ('c, 'g, 't) cworld \<Rightarrow> bool" for bx where
  cw_call: "cw_thread w i = Idle \<or> (\<exists>r. cw_thread w i = Finished r) \<Longrightarrow> cw_step bx w (set_thread i (Called t) w)"
| cw_run: "thread_step bx i w = Some w' \<Longrightarrow> cw_step bx w w'"
| cw_get: "bx_get bx (cw_cell w) = (c, Inr g) \<Longrightarrow>
    cw_step bx w (w\<lparr>cw_cell := c, cw_guards := (g, bx_deref bx c g) # cw_guards w\<rparr>)"
| cw_drop: "(g, v) \<in> set (cw_guards w) \<Longrightarrow>
    cw_step bx w (w\<lparr>cw_cell := bx_drop bx g (cw_cell w), cw_guards := remove1 (g, v) (cw_guards w)\<rparr>)"

inductive cw_reach :: "('c, 'g, 't) arc_box \<Rightarrow> 't \<Rightarrow> ('c, 'g, 't) cworld \<Rightarrow> bool" for bx v where
  cw_start: "cw_reach bx v (cworld_start bx v)"
| cw_next: "cw_reach bx v w \<Longrightarrow> cw_step bx w w' \<Longrightarrow> cw_reach bx v w'"

section \<open>The specification: one call after the other\<close>

text \<open>\<open>apply_call x (t, r)\<close>: the value after the call \<open>t\<close> ran alone on \<open>x\<close>, if \<open>r\<close> is what it returns then.\<close>

fun apply_call :: "'t \<Rightarrow> 't task \<times> (unit + unit) res \<Rightarrow> 't option" where
  "apply_call x (Write v, r) = (if r = Inr (Inr ()) then Some v else None)"
| "apply_call x (Update f, r) =
     (case f x of
        Inl e \<Rightarrow> (if r = Inl e then Some x else None)
      | Inr None \<Rightarrow> (if r = Inr (Inl ()) then Some x else None)
      | Inr (Some v) \<Rightarrow> (if r = Inr (Inr ()) then Some v else None))"

fun apply_calls :: "'t \<Rightarrow> ('t task \<times> (unit + unit) res) list \<Rightarrow> 't option" where
  "apply_calls x [] = Some x"
| "apply_calls x (e # es) = (case apply_call x e of None \<Rightarrow> None | Some y \<Rightarrow> apply_calls y es)"

lemma apply_calls_snoc:
  "apply_calls x (es @ [e]) = (case apply_calls x es of None \<Rightarrow> None | Some y \<Rightarrow> apply_call y e)"
  by (induction es arbitrary: x) (auto split: option.splits)

section \<open>What both boxes promise\<close>

definition cell_laws :: "('c, 'g, 't) arc_box \<Rightarrow> ('c \<Rightarrow> 't) \<Rightarrow> ('c \<Rightarrow> 'g list \<Rightarrow> bool) \<Rightarrow> bool" where
  "cell_laws bx cur held \<longleftrightarrow>
     (\<forall>v. held (bx_new bx v) [] \<and> cur (bx_new bx v) = v) \<and>
     (\<forall>c gs. held c gs \<longrightarrow> (\<exists>c' g. bx_get bx c = (c', Inr g) \<and> held c' (g # gs) \<and> cur c' = cur c \<and>
        bx_deref bx c' g = cur c \<and> (\<forall>h \<in> set gs. bx_deref bx c' h = bx_deref bx c h))) \<and>
     (\<forall>c gs v. held c gs \<longrightarrow> held (bx_write_nonlocked bx v c) gs \<and> cur (bx_write_nonlocked bx v c) = v \<and>
        (\<forall>h \<in> set gs. bx_deref bx (bx_write_nonlocked bx v c) h = bx_deref bx c h)) \<and>
     (\<forall>c gs g. held c gs \<longrightarrow> g \<in> set gs \<longrightarrow>
        held (bx_drop bx g c) (remove1 g gs) \<and> cur (bx_drop bx g c) = cur c \<and>
        (\<forall>h \<in> set (remove1 g gs). bx_deref bx (bx_drop bx g c) h = bx_deref bx c h))"

lemma arc_swap_cell:
  assumes "arc_swap_laws cr cur held"
  shows "cell_laws (arc_swap_box cr) cur held"
proof -
  note laws = assms [unfolded arc_swap_laws_def]
  have "\<exists>c' g. arc_swap_get cr c = (c', Inr g) \<and> held c' (g # gs) \<and> cur c' = cur c \<and> as_deref cr c' g = cur c \<and>
      (\<forall>h \<in> set gs. as_deref cr c' h = as_deref cr c h)" if "held c gs" for c gs
  proof -
    obtain c' g where load: "as_load cr c = (c', g)" by fastforce
    moreover have "held c' (g # gs) \<and> cur c' = cur c \<and> as_deref cr c' g = cur c \<and>
        (\<forall>h \<in> set gs. as_deref cr c' h = as_deref cr c h)"
      using laws that load by blast
    ultimately show ?thesis by (simp add: arc_swap_get_def)
  qed
  then show ?thesis using laws by (simp add: cell_laws_def arc_swap_box_def)
qed

text \<open>The \<open>aarc\<close> box keeps its cell full, so the unchecked unwrap is always defined.\<close>

lemma aarc_cell:
  assumes "aarc_laws cr cur held"
  shows "cell_laws (aarc_box cr) (\<lambda>c. the (cur c)) (\<lambda>c gs. held c gs \<and> cur c \<noteq> None)"
proof -
  note laws = assms [unfolded aarc_laws_def]
  have "\<exists>c' g. aarc_get cr c = (c', Inr g) \<and> (held c' (g # gs) \<and> cur c' \<noteq> None) \<and> the (cur c') = the (cur c) \<and>
      aa_deref cr c' g = the (cur c) \<and> (\<forall>h \<in> set gs. aa_deref cr c' h = aa_deref cr c h)"
    if "held c gs" and full: "cur c \<noteq> None" for c gs
  proof -
    obtain c' x where load: "aa_load cr c = (c', x)" by fastforce
    moreover have "cur c = None" if "x = None" using laws \<open>held c gs\<close> load that by blast
    ultimately obtain g where "x = Some g" using full by blast
    moreover have "held c' (g # gs) \<and> cur c' = cur c \<and> cur c = Some (aa_deref cr c' g) \<and>
        (\<forall>h \<in> set gs. aa_deref cr c' h = aa_deref cr c h)"
      using laws that(1) load \<open>x = Some g\<close> by blast
    ultimately show ?thesis using load full by (auto simp: aarc_get_def)
  qed
  moreover have "\<forall>c gs v. held c gs \<and> cur c \<noteq> None \<longrightarrow> (held (aa_store cr (Some v) c) gs \<and>
      cur (aa_store cr (Some v) c) \<noteq> None) \<and> the (cur (aa_store cr (Some v) c)) = v \<and>
      (\<forall>h \<in> set gs. aa_deref cr (aa_store cr (Some v) c) h = aa_deref cr c h)"
    using laws by (metis option.sel option.simps(3))
  moreover have "\<forall>c gs g. held c gs \<and> cur c \<noteq> None \<longrightarrow> g \<in> set gs \<longrightarrow> (held (aa_drop cr g c) (remove1 g gs) \<and>
      cur (aa_drop cr g c) \<noteq> None) \<and> the (cur (aa_drop cr g c)) = the (cur c) \<and>
      (\<forall>h \<in> set (remove1 g gs). aa_deref cr (aa_drop cr g c) h = aa_deref cr c h)"
    using laws by metis
  moreover have "\<forall>v. (held (aa_new cr (Some v)) [] \<and> cur (aa_new cr (Some v)) \<noteq> None) \<and>
      the (cur (aa_new cr (Some v))) = v"
    using laws by simp
  ultimately show ?thesis unfolding cell_laws_def aarc_box_def arc_box.simps by blast
qed

lemma cell_new: "cell_laws bx cur held \<Longrightarrow> held (bx_new bx v) [] \<and> cur (bx_new bx v) = v"
  by (simp add: cell_laws_def)

lemma cell_get:
  assumes "cell_laws bx cur held" and "held c gs"
  shows "\<exists>c' g. bx_get bx c = (c', Inr g) \<and> held c' (g # gs) \<and> cur c' = cur c \<and> bx_deref bx c' g = cur c \<and>
    (\<forall>h \<in> set gs. bx_deref bx c' h = bx_deref bx c h)"
  using assms unfolding cell_laws_def by blast

lemma cell_store:
  assumes "cell_laws bx cur held" and "held c gs"
  shows "held (bx_write_nonlocked bx v c) gs" and "cur (bx_write_nonlocked bx v c) = v"
    and "h \<in> set gs \<Longrightarrow> bx_deref bx (bx_write_nonlocked bx v c) h = bx_deref bx c h"
  using assms unfolding cell_laws_def by blast+

lemma cell_drop:
  assumes "cell_laws bx cur held" and "held c gs" and "g \<in> set gs"
  shows "held (bx_drop bx g c) (remove1 g gs)" and "cur (bx_drop bx g c) = cur c"
    and "h \<in> set (remove1 g gs) \<Longrightarrow> bx_deref bx (bx_drop bx g c) h = bx_deref bx c h"
  using assms unfolding cell_laws_def by blast+

section \<open>The invariant of concurrent writers\<close>

fun in_section :: "('t, 'g) thread \<Rightarrow> bool" where
  "in_section (Locked t) = True"
| "in_section (Inspecting f g) = True"
| "in_section (Storing t v) = True"
| "in_section Unlocking = True"
| "in_section _ = False"

fun guard_of :: "('t, 'g) thread \<Rightarrow> 'g list" where
  "guard_of (Inspecting f g) = [g]"
| "guard_of _ = []"

definition writer_guard :: "('c, 'g, 't) cworld \<Rightarrow> 'g list" where
  "writer_guard w = (case cw_holder w of None \<Rightarrow> [] | Some i \<Rightarrow> guard_of (cw_thread w i))"

text \<open>What a thread inside the section relies on: nobody has stored since it looked.\<close>

fun thread_ok :: "('c, 'g, 't) arc_box \<Rightarrow> ('c \<Rightarrow> 't) \<Rightarrow> 'c \<Rightarrow> ('t, 'g) thread \<Rightarrow> bool" where
  "thread_ok bx cur c (Inspecting f g) \<longleftrightarrow> bx_deref bx c g = cur c"
| "thread_ok bx cur c (Storing t v) \<longleftrightarrow> apply_call (cur c) (t, Inr (Inr ())) = Some v"
| "thread_ok bx cur c _ \<longleftrightarrow> True"

definition cw_inv :: "('c, 'g, 't) arc_box \<Rightarrow> ('c \<Rightarrow> 't) \<Rightarrow> ('c \<Rightarrow> 'g list \<Rightarrow> bool) \<Rightarrow> 't \<Rightarrow> ('c, 'g, 't) cworld \<Rightarrow> bool" where
  "cw_inv bx cur held v0 w \<longleftrightarrow>
     (\<forall>i. in_section (cw_thread w i) \<longleftrightarrow> cw_holder w = Some i) \<and>
     (\<exists>gs. held (cw_cell w) gs \<and> mset gs = mset (writer_guard w @ map fst (cw_guards w))) \<and>
     (\<forall>i. thread_ok bx cur (cw_cell w) (cw_thread w i)) \<and>
     (\<forall>(g, v) \<in> set (cw_guards w). bx_deref bx (cw_cell w) g = v) \<and>
     apply_calls v0 (cw_log w) = Some (cur (cw_cell w))"

lemma thread_ok_outside: "\<not> in_section th \<Longrightarrow> thread_ok bx cur c th"
  and guard_of_outside: "\<not> in_section th \<Longrightarrow> guard_of th = []"
  by (cases th; simp)+

lemma cw_invI:
  assumes "\<And>i. in_section (cw_thread w i) \<longleftrightarrow> cw_holder w = Some i"
    and "held (cw_cell w) gs" and "mset gs = mset (writer_guard w @ map fst (cw_guards w))"
    and "\<And>i. cw_holder w = Some i \<Longrightarrow> thread_ok bx cur (cw_cell w) (cw_thread w i)"
    and "\<And>g v. (g, v) \<in> set (cw_guards w) \<Longrightarrow> bx_deref bx (cw_cell w) g = v"
    and "apply_calls v0 (cw_log w) = Some (cur (cw_cell w))"
  shows "cw_inv bx cur held v0 w"
proof -
  have "thread_ok bx cur (cw_cell w) (cw_thread w i)" for i
    using assms(1,4) [of i] thread_ok_outside by (cases "in_section (cw_thread w i)") auto
  with assms show ?thesis unfolding cw_inv_def by auto
qed

lemma cw_invD:
  assumes "cw_inv bx cur held v0 w"
  shows "in_section (cw_thread w i) \<longleftrightarrow> cw_holder w = Some i"
    and "\<exists>gs. held (cw_cell w) gs \<and> mset gs = mset (writer_guard w @ map fst (cw_guards w))"
    and "thread_ok bx cur (cw_cell w) (cw_thread w i)"
    and "(g, v) \<in> set (cw_guards w) \<Longrightarrow> bx_deref bx (cw_cell w) g = v"
    and "apply_calls v0 (cw_log w) = Some (cur (cw_cell w))"
  using assms by (auto simp: cw_inv_def)

text \<open>A step that only moves a thread that is outside the section.\<close>

lemma cw_inv_outside:
  assumes "cw_inv bx cur held v0 w" and "\<not> in_section (cw_thread w i)" and "\<not> in_section th"
  shows "cw_inv bx cur held v0 (set_thread i th w)"
proof -
  note inv = cw_invD [OF assms(1)]
  obtain gs where gs: "held (cw_cell w) gs" "mset gs = mset (writer_guard w @ map fst (cw_guards w))"
    using inv(2) by blast
  have i: "cw_holder w \<noteq> Some i" using inv(1) assms(2) by blast
  then have "writer_guard (set_thread i th w) = writer_guard w"
    by (auto simp: writer_guard_def set_thread_def split: option.splits)
  with gs assms(3) inv(1,3-5) i show ?thesis
    by (intro cw_invI [where gs = gs]) (auto simp: set_thread_def)
qed

text \<open>
  A step of the thread in the section: it moves to \<open>th\<close>, inside or outside the section, with a new
  cell that keeps the readers' guards.
\<close>

definition leaves :: "('t, 'g) thread \<Rightarrow> nat \<Rightarrow> nat option" where
  "leaves th i = (if in_section th then Some i else None)"

lemma cw_inv_section:
  assumes inv: "cw_inv bx cur held v0 w" and i: "in_section (cw_thread w i)"
    and cell: "held c gs" "mset gs = mset (guard_of th @ map fst (cw_guards w))" "thread_ok bx cur c th"
    and pin: "\<And>h. h \<in> set (map fst (cw_guards w)) \<Longrightarrow> bx_deref bx c h = bx_deref bx (cw_cell w) h"
    and log: "apply_calls v0 l = Some (cur c)"
    and w': "cw_cell w' = c" "cw_holder w' = leaves th i" "cw_thread w' = (cw_thread w)(i := th)"
      "cw_guards w' = cw_guards w" "cw_log w' = l"
  shows "cw_inv bx cur held v0 w'"
proof -
  note inv = cw_invD [OF inv]
  have "in_section (cw_thread w j) \<longleftrightarrow> j = i" for j using inv(1) [of i] inv(1) [of j] i by auto
  then have sec: "in_section (cw_thread w' j) \<longleftrightarrow> cw_holder w' = Some j" for j
    by (auto simp: w' leaves_def)
  have "writer_guard w' = guard_of th"
    using guard_of_outside [of th] by (auto simp: writer_guard_def w' leaves_def)
  moreover have "bx_deref bx (cw_cell w') g = v" if "(g, v) \<in> set (cw_guards w')" for g v
    using that pin [of g] inv(4) [of g v] imageI [OF that, of fst] by (simp add: w')
  ultimately show ?thesis
    using sec cell log by (intro cw_invI [where gs = gs]) (auto simp: w' leaves_def split: if_splits)
qed

lemma section_guards:
  assumes "cw_inv bx cur held v0 w" and "in_section (cw_thread w i)"
  shows "\<exists>gs. held (cw_cell w) gs \<and> mset gs = mset (guard_of (cw_thread w i) @ map fst (cw_guards w)) \<and>
    set (map fst (cw_guards w)) \<subseteq> set gs"
proof -
  obtain gs where gs: "held (cw_cell w) gs" "mset gs = mset (writer_guard w @ map fst (cw_guards w))"
    using cw_invD(2) [OF assms(1)] by blast
  moreover have "writer_guard w = guard_of (cw_thread w i)"
    using cw_invD(1) [OF assms(1), of i] assms(2) by (simp add: writer_guard_def)
  moreover have "set (map fst (cw_guards w)) \<subseteq> set gs"
    using mset_eq_setD [OF gs(2)] by simp
  ultimately show ?thesis by auto
qed

lemma called_step_inv:
  assumes inv: "cw_inv bx cur held v0 w" and Called: "cw_thread w i = Called t"
    and step: "thread_step bx i w = Some w'"
  shows "cw_inv bx cur held v0 w'"
proof -
  note D = cw_invD [OF inv]
  have out: "\<not> in_section (cw_thread w i)" and free: "cw_holder w = None"
    using step Called by (auto simp: thread_step_def split: if_splits)
  show ?thesis
  proof (cases "cw_poisoned w")
    case True
    then have "w' = set_thread i (Finished (Inl Panic_poisoned)) w"
      using step Called free by (simp add: thread_step_def)
    then show ?thesis using cw_inv_outside [OF inv out] by simp
  next
    case False
    obtain gs where gs: "held (cw_cell w) gs" "mset gs = mset (writer_guard w @ map fst (cw_guards w))"
      using D(2) by blast
    have w': "w' = set_thread i (Locked t) (w\<lparr>cw_holder := Some i\<rparr>)"
      using False step Called free by (simp add: thread_step_def)
    have "in_section (cw_thread w' j) \<longleftrightarrow> cw_holder w' = Some j" for j
      using D(1) [of j] free by (auto simp: w' set_thread_def)
    then show ?thesis
      using gs free D(4,5) by (intro cw_invI [where gs = gs]) (auto simp: w' set_thread_def writer_guard_def)
  qed
qed

lemma locked_step_inv:
  assumes laws: "cell_laws bx cur held" and inv: "cw_inv bx cur held v0 w" and Locked: "cw_thread w i = Locked t"
    and step: "thread_step bx i w = Some w'"
  shows "cw_inv bx cur held v0 w'"
proof -
  note D = cw_invD [OF inv]
  obtain gs where gs: "held (cw_cell w) gs" "mset gs = mset (map fst (cw_guards w))"
    "set (map fst (cw_guards w)) \<subseteq> set gs"
    using section_guards [OF inv, of i] Locked by auto
  have h: "cw_holder w = Some i" using D(1) [of i] Locked by simp
  show ?thesis
  proof (cases t)
    case (Write v)
    then have "w' = set_thread i (Storing (Write v) v) w" using step Locked by (simp add: thread_step_def)
    then show ?thesis
      using Locked D(5) gs h
      by (intro cw_inv_section [OF inv, of i, where th = "Storing (Write v) v", OF _ gs(1)])
        (simp_all add: set_thread_def leaves_def)
  next
    case (Update f)
    obtain c g where get: "bx_get bx (cw_cell w) = (c, Inr g)" "held c (g # gs)" "cur c = cur (cw_cell w)"
      "bx_deref bx c g = cur (cw_cell w)" "\<forall>h \<in> set gs. bx_deref bx c h = bx_deref bx (cw_cell w) h"
      using cell_get [OF laws gs(1)] by blast
    then have "w' = set_thread i (Inspecting f g) (w\<lparr>cw_cell := c\<rparr>)"
      using step Locked Update by (simp add: thread_step_def)
    then show ?thesis
      using Locked D(5) gs h get
      by (intro cw_inv_section [OF inv, of i, where th = "Inspecting f g", OF _ get(2)])
        (auto simp: set_thread_def leaves_def)
  qed
qed

text \<open>The closure has run on the latest value, for nobody else can have stored.\<close>

lemma inspecting_step_inv:
  assumes laws: "cell_laws bx cur held" and inv: "cw_inv bx cur held v0 w"
    and Inspecting: "cw_thread w i = Inspecting f g" and step: "thread_step bx i w = Some w'"
  shows "cw_inv bx cur held v0 w'"
proof -
  note D = cw_invD [OF inv]
  let ?c = "bx_drop bx g (cw_cell w)"
  obtain gs where gs: "held (cw_cell w) gs" "mset gs = mset (g # map fst (cw_guards w))"
    using section_guards [OF inv, of i] Inspecting by auto
  have h: "cw_holder w = Some i" using D(1) [of i] Inspecting by simp
  have "g \<in> set gs" using mset_eq_setD [OF gs(2)] by simp
  note drop = cell_drop [OF laws gs(1) this]
  have now: "bx_deref bx (cw_cell w) g = cur (cw_cell w)" using D(3) [of i] Inspecting by simp
  have m: "mset (remove1 g gs) = mset (map fst (cw_guards w))" using gs(2) by simp
  then have pin: "bx_deref bx ?c k = bx_deref bx (cw_cell w) k" if "k \<in> set (map fst (cw_guards w))" for k
    using that mset_eq_setD [OF m] by (intro drop(3)) simp
  note move = cw_inv_section [OF inv, of i, OF _ drop(1)]
  note facts = Inspecting D(5) m h drop(2) pin
  consider (panic) e where "f (cur (cw_cell w)) = Inl e" | (declined) "f (cur (cw_cell w)) = Inr None"
    | (new) v where "f (cur (cw_cell w)) = Inr (Some v)"
    by (metis sum.exhaust option.exhaust)
  then show ?thesis
  proof cases
    case panic
    with facts step now show ?thesis
      by (intro move [where th = "Finished (Inl e)" and l = "cw_log w @ [(Update f, Inl e)]"])
        (auto simp: thread_step_def set_thread_def log_call_def leaves_def apply_calls_snoc)
  next
    case declined
    with facts step now show ?thesis
      by (intro move [where th = "Finished (Inr (Inl ()))" and l = "cw_log w @ [(Update f, Inr (Inl ()))]"])
        (auto simp: thread_step_def set_thread_def log_call_def leaves_def apply_calls_snoc)
  next
    case new
    with facts step now show ?thesis
      by (intro move [where th = "Storing (Update f) v" and l = "cw_log w"])
        (auto simp: thread_step_def set_thread_def leaves_def)
  qed
qed

lemma storing_step_inv:
  assumes laws: "cell_laws bx cur held" and inv: "cw_inv bx cur held v0 w"
    and Storing: "cw_thread w i = Storing t v" and step: "thread_step bx i w = Some w'"
  shows "cw_inv bx cur held v0 w'"
proof -
  note D = cw_invD [OF inv]
  obtain gs where gs: "held (cw_cell w) gs" "mset gs = mset (map fst (cw_guards w))"
    "set (map fst (cw_guards w)) \<subseteq> set gs"
    using section_guards [OF inv, of i] Storing by auto
  have h: "cw_holder w = Some i" using D(1) [of i] Storing by simp
  note store = cell_store [OF laws gs(1), where v = v]
  have "w' = set_thread i Unlocking (log_call t (Inr (Inr ()))
      (w\<lparr>cw_cell := bx_write_nonlocked bx v (cw_cell w)\<rparr>))"
    using step Storing by (simp add: thread_step_def)
  then show ?thesis
    using Storing D(5) D(3) [of i] gs h store
    by (intro cw_inv_section [OF inv, of i, where th = Unlocking and l = "cw_log w @ [(t, Inr (Inr ()))]", OF _ store(1)])
      (auto simp: set_thread_def log_call_def leaves_def apply_calls_snoc)
qed

lemma unlocking_step_inv:
  assumes inv: "cw_inv bx cur held v0 w" and Unlocking: "cw_thread w i = Unlocking"
    and step: "thread_step bx i w = Some w'"
  shows "cw_inv bx cur held v0 w'"
proof -
  obtain gs where gs: "held (cw_cell w) gs" "mset gs = mset (map fst (cw_guards w))"
    using section_guards [OF inv, of i] Unlocking by auto
  have "w' = set_thread i (Finished (Inr (Inr ()))) (w\<lparr>cw_holder := None\<rparr>)"
    using step Unlocking by (simp add: thread_step_def)
  then show ?thesis
    using Unlocking cw_invD(5) [OF inv] gs
    by (intro cw_inv_section [OF inv, of i, where th = "Finished (Inr (Inr ()))", OF _ gs(1)])
      (simp_all add: set_thread_def leaves_def)
qed

lemma thread_step_inv:
  assumes "cell_laws bx cur held" and "cw_inv bx cur held v0 w" and "thread_step bx i w = Some w'"
  shows "cw_inv bx cur held v0 w'"
proof (cases "cw_thread w i")
  case Called
  then show ?thesis by (rule called_step_inv [OF assms(2) _ assms(3)])
next
  case Locked
  then show ?thesis by (rule locked_step_inv [OF assms(1,2) _ assms(3)])
next
  case Inspecting
  then show ?thesis by (rule inspecting_step_inv [OF assms(1,2) _ assms(3)])
next
  case Storing
  then show ?thesis by (rule storing_step_inv [OF assms(1,2) _ assms(3)])
next
  case Unlocking
  then show ?thesis by (rule unlocking_step_inv [OF assms(2) _ assms(3)])
qed (use assms(3) in \<open>simp_all add: thread_step_def\<close>)

text \<open>Readers: a new cell that still has the guards in use leaves the writers undisturbed.\<close>

lemma cw_inv_reader:
  assumes inv: "cw_inv bx cur held v0 w" and cell: "held c gs" "cur c = cur (cw_cell w)"
    and gs: "mset gs = mset (writer_guard w @ map fst gv)"
    and pin: "\<And>h. h \<in> set (writer_guard w) \<Longrightarrow> bx_deref bx c h = bx_deref bx (cw_cell w) h"
    and read: "\<And>g v. (g, v) \<in> set gv \<Longrightarrow> bx_deref bx c g = v"
  shows "cw_inv bx cur held v0 (w\<lparr>cw_cell := c, cw_guards := gv\<rparr>)"
proof -
  note D = cw_invD [OF inv]
  have "thread_ok bx cur c (cw_thread w i)" if "cw_holder w = Some i" for i
    using D(3) [of i] pin that cell(2) by (cases "cw_thread w i") (auto simp: writer_guard_def)
  moreover have "writer_guard (w\<lparr>cw_cell := c, cw_guards := gv\<rparr>) = writer_guard w"
    by (simp add: writer_guard_def split: option.split)
  ultimately show ?thesis
    using D(1,5) cell gs read by (intro cw_invI [where gs = gs]) auto
qed

lemma mset_fst_remove1: "x \<in> set xs \<Longrightarrow> mset (map fst (remove1 x xs)) = mset (map fst xs) - {#fst x#}"
  by (simp add: image_mset_Diff)

lemma cw_step_inv:
  assumes "cw_step bx w w'" and laws: "cell_laws bx cur held" and inv: "cw_inv bx cur held v0 w"
  shows "cw_inv bx cur held v0 w'"
  using assms(1)
proof cases
  case (cw_call i t)
  then have "\<not> in_section (cw_thread w i)" by auto
  from cw_inv_outside [OF inv this, of "Called t"] cw_call(1) show ?thesis by simp
next
  case (cw_run i)
  then show ?thesis using thread_step_inv [OF laws inv] by blast
next
  case (cw_get c g)
  obtain gs where gs: "held (cw_cell w) gs" "mset gs = mset (writer_guard w @ map fst (cw_guards w))"
    using cw_invD(2) [OF inv] by blast
  obtain c' g' where get: "bx_get bx (cw_cell w) = (c', Inr g')" "held c' (g' # gs)" "cur c' = cur (cw_cell w)"
    "\<forall>h \<in> set gs. bx_deref bx c' h = bx_deref bx (cw_cell w) h"
    using cell_get [OF laws gs(1)] by blast
  have sub: "set gs = set (writer_guard w) \<union> fst ` set (cw_guards w)" using mset_eq_setD [OF gs(2)] by simp
  have "bx_deref bx c h = v" if "(h, v) \<in> set (cw_guards w)" for h v
    using get(4) cw_get(2) get(1) cw_invD(4) [OF inv that] imageI [OF that, of fst] sub by simp
  with get cw_get(2) gs sub show ?thesis
    unfolding cw_get(1) by (intro cw_inv_reader [OF inv, where gs = "g # gs"]) auto
next
  case (cw_drop g v)
  obtain gs where gs: "held (cw_cell w) gs" "mset gs = mset (writer_guard w @ map fst (cw_guards w))"
    using cw_invD(2) [OF inv] by blast
  have g: "g \<in> set gs" using mset_eq_setD [OF gs(2)] imageI [OF cw_drop(2), of fst] by simp
  note drop = cell_drop [OF laws gs(1) g]
  let ?gv = "remove1 (g, v) (cw_guards w)"
  have "g \<in># mset (map fst (cw_guards w))" using imageI [OF cw_drop(2), of fst] by simp
  then have m: "mset (remove1 g gs) = mset (writer_guard w @ map fst ?gv)"
    unfolding mset_append mset_fst_remove1 [OF cw_drop(2)] using gs(2) by simp
  have sub: "set (remove1 g gs) = set (writer_guard w) \<union> fst ` set ?gv" using mset_eq_setD [OF m] by simp
  have "bx_deref bx (bx_drop bx g (cw_cell w)) k = x" if "(k, x) \<in> set ?gv" for k x
    using drop(3) [of k] sub imageI [OF that, of fst] cw_invD(4) [OF inv, of k x] that set_remove1_subset [of "(g, v)" "cw_guards w"]
    by auto
  with drop m sub show ?thesis
    unfolding cw_drop(1) by (intro cw_inv_reader [OF inv, where gs = "remove1 g gs"]) auto
qed

lemma cw_reach_inv:
  assumes "cw_reach bx v0 w" and "cell_laws bx cur held"
  shows "cw_inv bx cur held v0 w"
  using assms(1)
proof induction
  case cw_start
  show ?case
    using cell_new [OF assms(2), of v0]
    by (intro cw_invI [where gs = "[]"]) (simp_all add: cworld_start_def writer_guard_def)
qed (use cw_step_inv [OF _ assms(2)] in blast)

text \<open>Inside the section every step brings the thread closer to the unlock.\<close>

fun section_rank :: "('t, 'g) thread \<Rightarrow> nat" where
  "section_rank (Locked t) = 4"
| "section_rank (Inspecting f g) = 3"
| "section_rank (Storing t v) = 2"
| "section_rank Unlocking = 1"
| "section_rank _ = 0"

lemma section_progress:
  "in_section (cw_thread w i) \<Longrightarrow> \<exists>w'. thread_step bx i w = Some w' \<and>
     section_rank (cw_thread w' i) < section_rank (cw_thread w i)"
  by (cases "cw_thread w i")
    (auto simp: thread_step_def set_thread_def log_call_def Let_def split: task.splits sum.splits option.splits prod.splits)

text \<open>No thread is stuck for ever: if a call is under way, some thread can take a step.\<close>

lemma cw_progress:
  assumes "cw_inv bx cur held v0 w" and "cw_thread w i = Called t \<or> in_section (cw_thread w i)"
  shows "\<exists>j w'. thread_step bx j w = Some w'"
proof -
  have sec: "\<exists>w'. thread_step bx j w = Some w'" if "in_section (cw_thread w j)" for j
    using section_progress [OF that] by blast
  show ?thesis
  proof (cases "cw_holder w")
    case None
    then have "cw_thread w i = Called t" using assms cw_invD(1) [OF assms(1), of i] by auto
    with None show ?thesis by (auto simp: thread_step_def intro!: exI [of _ i])
  next
    case (Some j)
    then show ?thesis using sec [of j] cw_invD(1) [OF assms(1), of j] by auto
  qed
qed

end
