(* ===== verification/Rcu_Box_Props.thy ===== *)
theory Rcu_Box_Props
  imports Rcu_Box_Conc
begin

text \<open>
  What the implementations of \<open>RcuBox\<close> promise: the box holds the value written last, guards pin
  the value they were obtained with, old values are destroyed when the last guard is gone, an
  \<open>update\<close> is atomic among all writers, and how a panicking closure disables the box.
\<close>

section \<open>Standard-library boxes\<close>

text \<open>
  C27. The box behind a reader-writer lock, after any program (the values \<open>vs\<close> written, latest last,
  and the guards \<open>gv\<close> held): the latest value is in the box, every guard still reads what it was
  obtained with, every value but the latest has been destroyed exactly once, \<open>inspect\<close> applies its
  function to the latest value and changes nothing, and writers wait exactly while a guard is held.
\<close>

theorem rwlock_box_history:
  assumes "box_run rw_get rw_read_unlock rw_write rw_update (rw_new v0) v0 s vs gv"
  shows "rw_value s = last vs \<and> (\<forall>(g, v) \<in> set gv. rw_deref s g = Inr v) \<and>
    mset (rw_dropped s) = mset (butlast vs) \<and>
    rw_inspect f s = Some (s, if rw_poisoned s then Inl Panic_poisoned else f (last vs)) \<and>
    (rw_write v s = None \<longleftrightarrow> gv \<noteq> []) \<and> (rw_update u s = None \<longleftrightarrow> gv \<noteq> [])"
proof -
  have new: "rw_ok (rw_new v0) []" "rw_value (rw_new v0) = v0" "rw_dropped (rw_new v0) = []"
    by (simp_all add: rw_new_def rw_ok_def)
  have ag: "rwbox.agrees s vs gv" by (rule rwbox.run_agrees [OF assms new(1,2)])
  note D = rwbox.agreesD [OF ag]
  have "add_mset (rw_value s) (mset (rw_dropped s)) = mset vs"
    using rwbox.run_account [OF assms new] by (simp add: rw_live_def)
  moreover have "mset vs = add_mset (last vs) (mset (butlast vs))"
    using D(2) by (cases vs rule: rev_cases) simp_all
  ultimately have "mset (rw_dropped s) = mset (butlast vs)" using D(3) by simp
  moreover have "rw_readers s = length gv" using D(1) by (simp add: rw_ok_def)
  ultimately show ?thesis
    using D(3,4) by (auto simp: rw_write_def rw_update_def rw_inspect_def rw_read_lock_def rw_write_lock_def
        bbind_def after_def rw_read_unlock_def)
qed

lemma rw_demo_run: "box_run rw_get rw_read_unlock rw_write rw_update (rw_new (1 :: nat)) 1
    \<lparr>rw_value = 2, rw_readers = 1, rw_poisoned = False, rw_dropped = [1]\<rparr> [1, 2] [((), 2)]"
proof -
  note r1 = run_new [where get = rw_get and release = rw_read_unlock and put = rw_write and update = rw_update
      and ?s0.0 = "rw_new (1 :: nat)" and ?v0.0 = 1]
  have "rw_write 2 (rw_new 1) = Some (\<lparr>rw_value = 2, rw_readers = 0, rw_poisoned = False, rw_dropped = [1 :: nat]\<rparr>, Inr ())"
    by (simp add: rw_write_def rw_write_lock_def rw_replace_def rw_new_def)
  from run_get [OF run_write [OF r1 this], of _ "()"] show ?thesis
    by (simp add: rw_get_def rw_read_lock_def)
qed

theorem rwlock_box_history_witness:
  "rw_write 3 \<lparr>rw_value = 2, rw_readers = 1, rw_poisoned = False, rw_dropped = [1 :: nat]\<rparr> = None \<and>
   mset (butlast [1, 2 :: nat]) = {#1#}"
  using rwlock_box_history [OF rw_demo_run, of Inr 3 "\<lambda>_. Inr None"] by simp

text \<open>
  C17. The reference-counted box behind a mutex, after any program: the latest value is in the box,
  the cell of every guard is still allocated and holds what the guard was obtained with (no use
  after free), a value that is latest or guarded has not been destroyed, and when no guard is left
  exactly the values but the latest have been destroyed, each once. No call waits for a guard.
\<close>

theorem mutex_box_history:
  assumes "box_run (at_once mb_get) mb_arc_drop (\<lambda>v. at_once (mb_write v)) (\<lambda>u. at_once (mb_update u)) (mb_new v0) v0 s vs gv"
  shows "mb_deref s (mb_ptr s) = Inr (last vs) \<and> (\<forall>(g, v) \<in> set gv. mb_deref s g = Inr v) \<and>
    (\<forall>v \<in> insert (last vs) (snd ` set gv). count (mset (mb_dropped s)) v < count (mset vs) v) \<and>
    (gv = [] \<longrightarrow> mset (mb_dropped s) = mset (butlast vs)) \<and>
    mb_inspect f s = (s, if mb_poisoned s then Inl Panic_poisoned else f (last vs))"
proof -
  have ag: "mbox.agrees s vs gv" by (rule mbox.run_agrees [OF assms mb_new_ok(1,2)])
  note D = mbox.agreesD [OF ag]
  have "mb_deref s (mb_ptr s) = Inr (last vs)"
    using mb_ptr_cell [OF D(1)] D(3) by (simp add: mb_deref_def)
  moreover have "mb_inspect f s = (s, if mb_poisoned s then Inl Panic_poisoned else f (last vs))"
    using mb_inspect_eq [OF D(1), of f] D(3) by (simp add: mb_usable_def)
  ultimately show ?thesis
    using D(4) mbox.run_destroys [OF assms mb_new_ok] by auto
qed

text \<open>A guard on 1 is taken before 2 is written: 1 is not destroyed yet.\<close>

definition mb_demo :: "nat mbox" where
  "mb_demo = \<lparr>mb_heap = [0 \<mapsto> (1, 1), 1 \<mapsto> (2, 1)], mb_next = 2, mb_ptr = 1, mb_poisoned = False, mb_dropped = []\<rparr>"

lemma mb_demo_run: "box_run (at_once mb_get) mb_arc_drop (\<lambda>v. at_once (mb_write v)) (\<lambda>u. at_once (mb_update u))
    (mb_new 1) 1 mb_demo [1, 2] [(0, 1)]"
proof -
  note r0 = run_new [where get = "at_once mb_get" and release = mb_arc_drop and put = "\<lambda>v. at_once (mb_write v)"
      and update = "\<lambda>u. at_once (mb_update u)" and ?s0.0 = "mb_new (1 :: nat)" and ?v0.0 = 1]
  let ?s = "(mb_new (1 :: nat))\<lparr>mb_heap := [0 \<mapsto> (1, 2)]\<rparr>"
  have "at_once mb_get (mb_new 1) = Some (?s, Inr 0)"
    by (simp add: at_once_def mb_get_def mb_locked mb_usable_def mb_new_def mb_arc_clone_def eval_nat_numeral)
  note r1 = run_get [OF r0 this]
  have "at_once (mb_write 2) ?s = Some (mb_demo, Inr ())"
    by (simp add: at_once_def mb_write_def mb_locked mb_usable_def mb_replace_def mb_arc_drop_def mb_new_def mb_demo_def
        fun_upd_twist)
  from run_write [OF r1 this] show ?thesis by simp
qed

theorem mutex_box_history_witness: "mb_deref mb_demo 0 = Inr 1 \<and> mb_inspect (\<lambda>x. Inr (x + 1)) mb_demo = (mb_demo, Inr 3)"
  using mutex_box_history [OF mb_demo_run, of "\<lambda>x. Inr (x + 1)"] by (simp add: mb_demo_def)

text \<open>
  C28. \<open>update\<close> on the mutex box, after any program: an error exactly when the
  function declines, and then nothing changes; otherwise what \<open>write\<close> of the new value does. If
  the function panics, so does the call, and from then on every \<open>get\<close>, \<open>write\<close> and \<open>update\<close>
  panics: the latest value can no longer be reached.
\<close>

theorem update_outcomes:
  assumes "box_run (at_once mb_get) mb_arc_drop (\<lambda>v. at_once (mb_write v)) (\<lambda>u. at_once (mb_update u)) (mb_new v0) v0 s vs gv"
    and "\<not> mb_poisoned s"
  shows "(case u (last vs) of
      Inr None \<Rightarrow> mb_update u s = (s, Inr (Inl ()))
    | Inr (Some v) \<Rightarrow> (\<exists>s'. mb_write v s = (s', Inr ()) \<and> mb_update u s = (s', Inr (Inr ())) \<and> mb_now s' = v)
    | Inl e \<Rightarrow> (\<exists>s'. mb_update u s = (s', Inl e) \<and> mb_now s' = last vs \<and> mb_get s' = (s', Inl Panic_poisoned) \<and>
        mb_write v s' = (s', Inl Panic_poisoned) \<and> mb_update u' s' = (s', Inl Panic_poisoned)))"
proof -
  note D = mbox.agreesD [OF mbox.run_agrees [OF assms(1) mb_new_ok(1,2)]]
  have use: "mb_usable s" using assms(2) by (simp add: mb_usable_def)
  show ?thesis
  proof (cases "u (last vs)")
    case (Inl e)
    let ?s = "s\<lparr>mb_poisoned := True\<rparr>"
    have "mb_update u s = (?s, Inl e)" using mb_update_eq [OF D(1), of u] use Inl D(3) by simp
    moreover have "\<not> mb_usable ?s" by (simp add: mb_usable_def)
    ultimately show ?thesis
      using Inl D(3) by (simp add: mb_poison_ok mb_get_def mb_write_def mb_update_def mb_locked)
  next
    case (Inr x)
    show ?thesis
    proof (cases x)
      case (Some v)
      obtain s' where "mb_replace v s = (s', Inr ())" and "mb_now s' = v" using mb_replace_ok [OF D(1), of v] by blast
      with Some Inr show ?thesis using mb_update_eq [OF D(1), of u] use D(3) by (simp add: mb_write_def mb_locked)
    qed (use Inr mb_update_eq [OF D(1), of u] use D(3) in simp)
  qed
qed

theorem update_outcomes_witness:
  "mb_update (\<lambda>x. if x = 2 then Inr None else Inl Panic_assert) mb_demo = (mb_demo, Inr (Inl ()))"
proof -
  have "\<not> mb_poisoned mb_demo" by (simp add: mb_demo_def)
  from update_outcomes [OF mb_demo_run this, of "\<lambda>x. if x = 2 then Inr None else Inl Panic_assert" 0 "\<lambda>_. Inr None"]
  show ?thesis by simp
qed

section \<open>Concurrent writers\<close>

text \<open>
  C6. The \<open>arc-swap\<close> box under any interleaving of writers and readers (the crate's cell keeping its
  documented laws): the box holds the value that results from running the logged calls one after
  the other, with exactly the results they returned: no update is lost, none is applied twice,
  each works on the latest value. At most one thread is in the critical section, and every guard
  reads the value it was obtained with.
\<close>

theorem arc_swap_calls_atomic:
  assumes "arc_swap_laws cr cur held" and "cw_reach (arc_swap_box cr) v0 w"
  shows "apply_calls v0 (cw_log w) = Some (cur (cw_cell w)) \<and>
    (\<forall>i j. in_section (cw_thread w i) \<and> in_section (cw_thread w j) \<longrightarrow> i = j) \<and>
    (\<forall>(g, v) \<in> set (cw_guards w). as_deref cr (cw_cell w) g = v)"
proof -
  note D = cw_invD [OF cw_reach_inv [OF assms(2) arc_swap_cell [OF assms(1)]]]
  show ?thesis using D(1,4,5) by (auto simp: arc_swap_box_def)
qed

text \<open>A cell that meets the laws: the list of all versions, with guards as positions.\<close>

definition version_swap :: "('t list, nat, 't) arc_swap" where
  "version_swap = \<lparr>as_new = (\<lambda>v. [v]), as_load = (\<lambda>c. (c, length c - 1)), as_deref = (!), as_drop = (\<lambda>g c. c),
     as_store = (\<lambda>v c. c @ [v])\<rparr>"

definition version_held :: "'t list \<Rightarrow> nat list \<Rightarrow> bool" where
  "version_held c gs \<longleftrightarrow> c \<noteq> [] \<and> (\<forall>g \<in> set gs. g < length c)"

lemma version_swap_laws: "arc_swap_laws version_swap last version_held"
  by (auto simp: arc_swap_laws_def version_swap_def version_held_def last_conv_nth nth_append
      dest!: set_remove1_subset [THEN subsetD])

text \<open>Two threads increment and double concurrently; a reader holds the first version.\<close>

lemma run_thread: "cw_reach bx v w \<Longrightarrow> thread_step bx i w = Some w' \<Longrightarrow> cw_reach bx v w'"
  by (blast intro: cw_next cw_run)

definition demo_cw :: "(nat list, nat, nat) cworld" where
  "demo_cw = \<lparr>cw_cell = [5], cw_holder = None, cw_poisoned = False,
     cw_thread = (\<lambda>_. Idle)(0 := Called (Update (\<lambda>x. Inr (Some (x + 1))))), cw_guards = [(0, 5)], cw_log = []\<rparr>"

lemma demo_cw_reach: "cw_reach (arc_swap_box version_swap) 5 demo_cw"
proof -
  let ?bx = "arc_swap_box version_swap :: (nat list, nat, nat) arc_box"
  have get: "bx_get ?bx (cw_cell (cworld_start ?bx 5)) = ([5], Inr 0)"
    by (simp add: arc_swap_box_def arc_swap_get_def version_swap_def cworld_start_def)
  note r1 = cw_next [OF cw_start cw_get [OF get]]
  let ?w1 = "(cworld_start ?bx 5)\<lparr>cw_cell := [5], cw_guards := [(0, 5)]\<rparr>"
  have "cw_reach ?bx 5 ?w1"
    using r1 by (simp add: cworld_start_def arc_swap_box_def version_swap_def)
  from cw_next [OF this cw_call [of ?w1 0 _ "Update (\<lambda>x. Inr (Some (x + 1)))"]] show ?thesis
    by (simp add: cworld_start_def set_thread_def demo_cw_def arc_swap_box_def version_swap_def)
qed

definition demo_cw_stored :: "(nat list, nat, nat) cworld" where
  "demo_cw_stored = \<lparr>cw_cell = [5, 6], cw_holder = Some 0, cw_poisoned = False,
     cw_thread = (\<lambda>_. Idle)(0 := Unlocking), cw_guards = [(0, 5)], cw_log = [(Update (\<lambda>x. Inr (Some (x + 1))), Inr (Inr ()))]\<rparr>"

lemma demo_cw_stored_reach: "cw_reach (arc_swap_box version_swap) 5 demo_cw_stored"
proof -
  let ?bx = "arc_swap_box version_swap :: (nat list, nat, nat) arc_box"
  let ?f = "\<lambda>x. Inr (Some (x + 1 :: nat))"
  let ?w = "\<lambda>th. demo_cw\<lparr>cw_holder := Some 0, cw_thread := (\<lambda>_. Idle)(0 := th)\<rparr>"
  have "thread_step ?bx 0 demo_cw = Some (?w (Locked (Update ?f)))"
    by (simp add: thread_step_def demo_cw_def set_thread_def)
  note r1 = run_thread [OF demo_cw_reach this]
  have "thread_step ?bx 0 (?w (Locked (Update ?f))) = Some (?w (Inspecting ?f 0))"
    by (simp add: thread_step_def demo_cw_def set_thread_def arc_swap_box_def arc_swap_get_def version_swap_def)
  note r2 = run_thread [OF r1 this]
  have "thread_step ?bx 0 (?w (Inspecting ?f 0)) = Some (?w (Storing (Update ?f) 6))"
    by (simp add: thread_step_def demo_cw_def set_thread_def arc_swap_box_def version_swap_def)
  note r3 = run_thread [OF r2 this]
  have "thread_step ?bx 0 (?w (Storing (Update ?f) 6)) = Some demo_cw_stored"
    by (simp add: thread_step_def demo_cw_def demo_cw_stored_def set_thread_def log_call_def arc_swap_box_def version_swap_def)
  from run_thread [OF r3 this] show ?thesis .
qed

theorem arc_swap_calls_atomic_witness:
  "apply_calls 5 (cw_log demo_cw_stored) = Some (last (cw_cell demo_cw_stored)) \<and>
   as_deref version_swap (cw_cell demo_cw_stored) 0 = 5"
  using arc_swap_calls_atomic [OF version_swap_laws demo_cw_stored_reach] by (simp add: demo_cw_stored_def)

text \<open>
  C29. The \<open>aarc\<close> box under any interleaving of writers and readers: its cell is never empty, so the
  unchecked unwraps in \<open>get\<close> and \<open>inspect\<close> are defined in every reachable state, and the calls of
  all writers are atomic as for \<open>arc-swap\<close>.
\<close>

theorem aarc_load_defined:
  assumes "aarc_laws cr cur held" and "cw_reach (aarc_box cr) v0 w"
  shows "(\<exists>c g. aarc_get cr (cw_cell w) = (c, Inr g) \<and> apply_calls v0 (cw_log w) = Some (aa_deref cr c g)) \<and>
    (\<forall>(g, v) \<in> set (cw_guards w). aa_deref cr (cw_cell w) g = v)"
proof -
  note laws = aarc_cell [OF assms(1)]
  note D = cw_invD [OF cw_reach_inv [OF assms(2) laws]]
  obtain gs where "held (cw_cell w) gs \<and> cur (cw_cell w) \<noteq> None" using D(2) by blast
  from cell_get [OF laws this] D(4,5) show ?thesis by (auto simp: aarc_box_def)
qed

definition version_aarc :: "('t option list, nat, 't) aarc" where
  "version_aarc = \<lparr>aa_new = (\<lambda>v. [v]), aa_load = (\<lambda>c. (c, if last c = None then None else Some (length c - 1))),
     aa_deref = (\<lambda>c g. the (c ! g)), aa_drop = (\<lambda>g c. c), aa_store = (\<lambda>v c. c @ [v])\<rparr>"

lemma version_aarc_laws: "aarc_laws version_aarc last version_held"
  by (auto simp: aarc_laws_def version_aarc_def version_held_def last_conv_nth nth_append
      split: if_splits dest!: set_remove1_subset [THEN subsetD])

theorem aarc_load_defined_witness:
  "aarc_get version_aarc (cw_cell (cworld_start (aarc_box version_aarc) (3 :: nat))) = ([Some 3], Inr 0)"
  using aarc_load_defined [OF version_aarc_laws cw_start [of "aarc_box version_aarc" "3 :: nat"]]
  by (auto simp: aarc_get_def version_aarc_def cworld_start_def aarc_box_def)

text \<open>
  C30. Writers never deadlock: in every reachable state in which a call of \<open>write\<close> or \<open>update\<close> is
  under way, some thread can take its next step; and a thread inside the critical section never
  waits, so the mutex is always released again.
\<close>

theorem writers_progress:
  assumes "arc_swap_laws cr cur held" and "cw_reach (arc_swap_box cr) v0 w"
    and "cw_thread w i = Called t \<or> in_section (cw_thread w i)"
  shows "(\<exists>j w'. thread_step (arc_swap_box cr) j w = Some w') \<and>
    (in_section (cw_thread w i) \<longrightarrow> (\<exists>w'. thread_step (arc_swap_box cr) i w = Some w' \<and>
       section_rank (cw_thread w' i) < section_rank (cw_thread w i)))"
proof -
  note laws = arc_swap_cell [OF assms(1)]
  have inv: "cw_inv (arc_swap_box cr) cur held v0 w" by (rule cw_reach_inv [OF assms(2) laws])
  show ?thesis using cw_progress [OF inv assms(3)] section_progress [of w i "arc_swap_box cr"] by blast
qed

theorem writers_progress_witness:
  "\<exists>w'. thread_step (arc_swap_box version_swap) 0 demo_cw_stored = Some w'"
proof -
  have "cw_thread demo_cw_stored 0 = Called (Write 0) \<or> in_section (cw_thread demo_cw_stored 0)"
    by (simp add: demo_cw_stored_def)
  from writers_progress [OF version_swap_laws demo_cw_stored_reach this] show ?thesis
    by (auto simp: demo_cw_stored_def)
qed

end
