(* ===== verification/Rcu_Box_Epoch.thy ===== *)
theory Rcu_Box_Epoch
  imports Rcu_Box
begin

text \<open>
  \<open>RcuBox\<close> on the crate \<open>crossbeam-epoch\<close> (\<open>src/rcu/src/rcu.rs\<close>): an atomic pointer whose old
  targets are handed to the crate's garbage collector. The crate is a parameter: its operations
  and, as named laws, its documented behaviour. The box's own obligations, that a retired object is
  unreachable and is retired once, and that a guard is pinned before it loads, are proved, and with
  them that no guard reads freed memory.
\<close>

section \<open>The crate\<close>

text \<open>
  The crate's shared state \<open>'c\<close> holds one \<open>Atomic<T>\<close> and the collector; \<open>'p\<close> are its guards,
  \<open>'a\<close> addresses. \<open>swap\<close> and \<open>fetch_update\<close> include the allocation of the new object. The closure
  of \<open>fetch_update\<close> runs on the pointer it is given.
\<close>

record ('c, 'p, 'a, 't) epoch =
  ep_new :: "'t \<Rightarrow> 'c"
  ep_pin :: "'c \<Rightarrow> 'c \<times> 'p"
  ep_unpin :: "'p \<Rightarrow> 'c \<Rightarrow> 'c"
  ep_load :: "'c \<Rightarrow> 'a"
  ep_deref :: "'c \<Rightarrow> 'a \<Rightarrow> 't res"
  ep_swap :: "'t \<Rightarrow> 'c \<Rightarrow> 'c \<times> 'a"
  ep_fetch_update :: "('c \<Rightarrow> 'a \<Rightarrow> 't option res) \<Rightarrow> ('c, unit + 'a) act"
  ep_defer_destroy :: "'p \<Rightarrow> 'a \<Rightarrow> 'c \<Rightarrow> 'c"

section \<open>The box\<close>

definition ep_box_new :: "('c, 'p, 'a, 't) epoch \<Rightarrow> 't \<Rightarrow> 'c" where
  "ep_box_new cr v = ep_new cr v"

definition ep_box_get :: "('c, 'p, 'a, 't) epoch \<Rightarrow> ('c, 'p \<times> 'a) act" where
  "ep_box_get cr c = (case ep_pin cr c of (c, guard) \<Rightarrow> (c, Inr (guard, ep_load cr c)))"

definition ep_box_deref :: "('c, 'p, 'a, 't) epoch \<Rightarrow> 'c \<Rightarrow> 'p \<times> 'a \<Rightarrow> 't res" where
  "ep_box_deref cr c g = ep_deref cr c (snd g)"

text \<open>Dropping a guard of the box drops its \<open>epoch::Guard\<close>.\<close>

definition ep_box_release :: "('c, 'p, 'a, 't) epoch \<Rightarrow> 'p \<times> 'a \<Rightarrow> ('c, unit) act" where
  "ep_box_release cr g c = (ep_unpin cr (fst g) c, Inr ())"

text \<open>The guard of a call is dropped on return, and when the closure panics.\<close>

definition ep_box_inspect :: "('c, 'p, 'a, 't) epoch \<Rightarrow> ('t \<Rightarrow> 'u res) \<Rightarrow> ('c, 'u) act" where
  "ep_box_inspect cr f c =
     (case ep_pin cr c of (c, guard) \<Rightarrow>
       (ep_unpin cr guard c, rbind (ep_deref cr c (ep_load cr c)) f))"

definition ep_box_write :: "('c, 'p, 'a, 't) epoch \<Rightarrow> 't \<Rightarrow> ('c, unit) act" where
  "ep_box_write cr v c =
     (case ep_pin cr c of (c, guard) \<Rightarrow>
      case ep_swap cr v c of (c, old) \<Rightarrow>
       (ep_unpin cr guard (ep_defer_destroy cr guard old c), Inr ()))"

definition ep_box_update :: "('c, 'p, 'a, 't) epoch \<Rightarrow> ('t \<Rightarrow> 't option res) \<Rightarrow> ('c, unit + unit) act" where
  "ep_box_update cr f c =
     (case ep_pin cr c of (c, guard) \<Rightarrow>
      case ep_fetch_update cr (\<lambda>c ptr. rbind (ep_deref cr c ptr) f) c of (c, x) \<Rightarrow>
       (case x of
          Inl e \<Rightarrow> (ep_unpin cr guard c, Inl e)
        | Inr (Inl _) \<Rightarrow> (ep_unpin cr guard c, Inr (Inl ()))
        | Inr (Inr old) \<Rightarrow> (ep_unpin cr guard (ep_defer_destroy cr guard old c), Inr (Inr ()))))"

section \<open>What the crate promises\<close>

text \<open>
  The observable state: the pointer, the allocated objects, the pinned guards, and the retired
  objects with the guards that were pinned when they were retired.
\<close>

record ('p, 'a, 't) epoch_view =
  ev_cell :: 'a
  ev_mem :: "'a \<rightharpoonup> 't"
  ev_pins :: "'p set"
  ev_retired :: "'a \<rightharpoonup> 'p set"

text \<open>
  The collector may run in any call. It frees retired objects only, and those only after every
  guard that was pinned when they were retired is gone.
\<close>

definition collected :: "('p, 'a, 't) epoch_view \<Rightarrow> ('p, 'a, 't) epoch_view \<Rightarrow> bool" where
  "collected e e' \<longleftrightarrow> ev_cell e' = ev_cell e \<and> ev_pins e' = ev_pins e \<and>
     (\<forall>a. ev_mem e' a = ev_mem e a \<and> ev_retired e' a = ev_retired e a \<or>
        ev_mem e' a = None \<and> ev_retired e' a = None \<and>
          (\<exists>P. ev_retired e a = Some P \<and> P \<inter> ev_pins e = {}))"

text \<open>The new object takes a free address.\<close>

definition installed :: "'t \<Rightarrow> ('p, 'a, 't) epoch_view \<Rightarrow> ('p, 'a, 't) epoch_view \<Rightarrow> bool" where
  "installed v e e' \<longleftrightarrow> (\<exists>a. ev_mem e a = None \<and> ev_retired e a = None \<and>
     collected (e\<lparr>ev_cell := a, ev_mem := (ev_mem e)(a \<mapsto> v)\<rparr>) e')"

text \<open>
  The documented behaviour of each call. \<open>fetch_update\<close> applies the closure to the stored pointer;
  \<open>defer_destroy\<close> requires an allocated object that is not reachable and not yet retired.
\<close>

definition epoch_laws :: "('c, 'p, 'a, 't) epoch \<Rightarrow> ('c \<Rightarrow> ('p, 'a, 't) epoch_view) \<Rightarrow> bool" where
  "epoch_laws cr view \<longleftrightarrow>
     (\<forall>v. ev_mem (view (ep_new cr v)) (ev_cell (view (ep_new cr v))) = Some v \<and>
        ev_pins (view (ep_new cr v)) = {} \<and> ev_retired (view (ep_new cr v)) = Map.empty) \<and>
     (\<forall>c c' p. ep_pin cr c = (c', p) \<longrightarrow> p \<notin> ev_pins (view c) \<and>
        collected ((view c)\<lparr>ev_pins := insert p (ev_pins (view c))\<rparr>) (view c')) \<and>
     (\<forall>c p. p \<in> ev_pins (view c) \<longrightarrow>
        collected ((view c)\<lparr>ev_pins := ev_pins (view c) - {p}\<rparr>) (view (ep_unpin cr p c))) \<and>
     (\<forall>c. ep_load cr c = ev_cell (view c)) \<and>
     (\<forall>c a v. ev_mem (view c) a = Some v \<longrightarrow> ep_deref cr c a = Inr v) \<and>
     (\<forall>c v c' old. ep_swap cr v c = (c', old) \<longrightarrow> old = ev_cell (view c) \<and> installed v (view c) (view c')) \<and>
     (\<forall>c h c' x. ep_fetch_update cr h c = (c', x) \<longrightarrow>
        (case h c (ev_cell (view c)) of
           Inl e \<Rightarrow> x = Inl e \<and> collected (view c) (view c')
         | Inr None \<Rightarrow> x = Inr (Inl ()) \<and> collected (view c) (view c')
         | Inr (Some v) \<Rightarrow> x = Inr (Inr (ev_cell (view c))) \<and> installed v (view c) (view c'))) \<and>
     (\<forall>c p a. p \<in> ev_pins (view c) \<longrightarrow> a \<noteq> ev_cell (view c) \<longrightarrow> ev_mem (view c) a \<noteq> None \<longrightarrow>
        ev_retired (view c) a = None \<longrightarrow>
        collected ((view c)\<lparr>ev_retired := (ev_retired (view c))(a \<mapsto> ev_pins (view c))\<rparr>)
          (view (ep_defer_destroy cr p a c)))"

section \<open>The invariant\<close>

text \<open>
  The current object is allocated and not retired. Guards are pinned; what a guard points to is
  allocated, and if it is retired, then it was retired while the guard was pinned.
\<close>

definition view_ok :: "('p, 'a, 't) epoch_view \<Rightarrow> ('p \<times> 'a) list \<Rightarrow> bool" where
  "view_ok e gs \<longleftrightarrow> ev_mem e (ev_cell e) \<noteq> None \<and> ev_retired e (ev_cell e) = None \<and>
     distinct (map fst gs) \<and> set (map fst gs) = ev_pins e \<and>
     (\<forall>(p, a) \<in> set gs. ev_mem e a \<noteq> None \<and> (\<forall>P. ev_retired e a = Some P \<longrightarrow> p \<in> P))"

text \<open>What a change leaves to the guards.\<close>

definition stays :: "('p \<times> 'a) list \<Rightarrow> ('p, 'a, 't) epoch_view \<Rightarrow> ('p, 'a, 't) epoch_view \<Rightarrow> bool" where
  "stays gs e e' \<longleftrightarrow> (\<forall>g \<in> set gs. ev_mem e' (snd g) = ev_mem e (snd g))"

definition ev_now :: "('p, 'a, 't) epoch_view \<Rightarrow> 't" where
  "ev_now e = the (ev_mem e (ev_cell e))"

lemma stays_trans: "stays gs e e' \<Longrightarrow> stays gs e' e'' \<Longrightarrow> stays gs e e''"
  by (auto simp: stays_def)

lemma stays_subset: "stays gs e e' \<Longrightarrow> set gs' \<subseteq> set gs \<Longrightarrow> stays gs' e e'"
  by (auto simp: stays_def)

lemma collected_keeps:
  assumes "collected e e'" and "ev_retired e a = None \<or> (\<exists>P p. ev_retired e a = Some P \<and> p \<in> P \<and> p \<in> ev_pins e)"
  shows "ev_mem e' a = ev_mem e a" and "ev_retired e' a = ev_retired e a"
  using assms unfolding collected_def by (metis IntI empty_iff option.distinct(1) option.inject)+

lemma collected_ok:
  assumes col: "collected e e'" and ok: "view_ok e gs"
  shows "view_ok e' gs" and "stays gs e e'" and "ev_now e' = ev_now e" and "ev_cell e' = ev_cell e"
proof -
  have same: "ev_cell e' = ev_cell e" "ev_pins e' = ev_pins e" using col by (simp_all add: collected_def)
  have cell: "ev_mem e' (ev_cell e) = ev_mem e (ev_cell e)" "ev_retired e' (ev_cell e) = None"
    using collected_keeps [OF col, of "ev_cell e"] ok by (simp_all add: view_ok_def)
  have guards: "ev_mem e' a = ev_mem e a \<and> ev_retired e' a = ev_retired e a" if "(p, a) \<in> set gs" for p a
  proof -
    have "p \<in> ev_pins e" using ok imageI [OF that, of fst] by (simp add: view_ok_def)
    moreover have "p \<in> P" if "ev_retired e a = Some P" for P
      using ok \<open>(p, a) \<in> set gs\<close> that by (auto simp: view_ok_def)
    ultimately show ?thesis using collected_keeps [OF col, of a] by (cases "ev_retired e a") auto
  qed
  then show "stays gs e e'" by (auto simp: stays_def)
  have "ev_mem e' a \<noteq> None \<and> (\<forall>P. ev_retired e' a = Some P \<longrightarrow> p \<in> P)" if "(p, a) \<in> set gs" for p a
    using guards [OF that] ok that by (auto simp: view_ok_def)
  then show "view_ok e' gs" using ok same cell unfolding view_ok_def by auto
  show "ev_now e' = ev_now e" and "ev_cell e' = ev_cell e" using cell(1) same by (simp_all add: ev_now_def)
qed

lemma pin_ok:
  assumes "view_ok e gs" and "p \<notin> ev_pins e" and "collected (e\<lparr>ev_pins := insert p (ev_pins e)\<rparr>) e'"
  shows "view_ok e' ((p, ev_cell e) # gs)" and "stays gs e e'" and "ev_now e' = ev_now e" and "ev_cell e' = ev_cell e"
proof -
  let ?e = "e\<lparr>ev_pins := insert p (ev_pins e)\<rparr>"
  have "view_ok ?e ((p, ev_cell e) # gs)" using assms(1,2) by (auto simp: view_ok_def)
  note col = collected_ok [OF assms(3) this]
  show "view_ok e' ((p, ev_cell e) # gs)" by (rule col(1))
  show "stays gs e e'" using stays_subset [OF col(2), of gs] by (auto simp: stays_def)
  show "ev_now e' = ev_now e" and "ev_cell e' = ev_cell e" using col(3,4) by (simp_all add: ev_now_def)
qed

lemma unpin_ok:
  assumes "view_ok e gs" and "g \<in> set gs" and "collected (e\<lparr>ev_pins := ev_pins e - {fst g}\<rparr>) e'"
  shows "view_ok e' (remove1 g gs)" and "stays (remove1 g gs) e e'" and "ev_now e' = ev_now e"
proof -
  let ?e = "e\<lparr>ev_pins := ev_pins e - {fst g}\<rparr>"
  have d: "distinct (map fst gs)" using assms(1) by (simp add: view_ok_def)
  then have dg: "distinct gs" by (simp add: distinct_map)
  then have set: "set (remove1 g gs) = set gs - {g}" by simp
  have "fst ` set (remove1 g gs) = fst ` set gs - {fst g}"
    unfolding set using d assms(2) by (subst inj_on_image_set_diff [of fst "set gs"]) (auto simp: distinct_map)
  moreover have "distinct (map fst (remove1 g gs))"
    using d dg set by (auto simp: distinct_map intro: inj_on_subset)
  ultimately have "view_ok ?e (remove1 g gs)" using assms(1) set by (auto simp: view_ok_def)
  note col = collected_ok [OF assms(3) this]
  show "view_ok e' (remove1 g gs)" and "stays (remove1 g gs) e e'" and "ev_now e' = ev_now e"
    using col by (auto simp: stays_def ev_now_def)
qed

text \<open>A new object: the old one is still allocated, not retired, and no longer reachable.\<close>

lemma install_ok:
  assumes "view_ok e gs" and "installed v e e'"
  shows "view_ok e' gs" and "stays gs e e'" and "ev_now e' = v"
    and "ev_cell e \<noteq> ev_cell e'" and "ev_retired e' (ev_cell e) = None"
proof -
  obtain a where a: "ev_mem e a = None" "ev_retired e a = None"
    and col: "collected (e\<lparr>ev_cell := a, ev_mem := (ev_mem e)(a \<mapsto> v)\<rparr>) e'" (is "collected ?e e'")
    using assms(2) by (auto simp: installed_def)
  have "view_ok ?e gs" using assms(1) a by (auto simp: view_ok_def)
  note col_ok = collected_ok [OF col this]
  show "view_ok e' gs" by (rule col_ok(1))
  have "snd g \<noteq> a" if "g \<in> set gs" for g using assms(1) a that by (auto simp: view_ok_def)
  then show "stays gs e e'" using col_ok(2) by (simp add: stays_def)
  show "ev_now e' = v" using col_ok(3) by (simp add: ev_now_def)
  show "ev_cell e \<noteq> ev_cell e'" using col_ok(4) assms(1) a by (auto simp: view_ok_def)
  show "ev_retired e' (ev_cell e) = None"
    using collected_keeps(2) [OF col, of "ev_cell e"] assms(1) by (simp add: view_ok_def)
qed

lemma retire_ok:
  assumes "view_ok e gs" and "a \<noteq> ev_cell e" and "ev_retired e a = None"
    and "collected (e\<lparr>ev_retired := (ev_retired e)(a \<mapsto> ev_pins e)\<rparr>) e'"
  shows "view_ok e' gs" and "stays gs e e'" and "ev_now e' = ev_now e"
proof -
  let ?e = "e\<lparr>ev_retired := (ev_retired e)(a \<mapsto> ev_pins e)\<rparr>"
  have "p \<in> ev_pins e" if "(p, b) \<in> set gs" for p b
    using assms(1) imageI [OF that, of fst] by (simp add: view_ok_def)
  then have "view_ok ?e gs" using assms(1,2) by (auto simp: view_ok_def)
  note col = collected_ok [OF assms(4) this]
  show "view_ok e' gs" and "stays gs e e'" and "ev_now e' = ev_now e"
    using col by (auto simp: stays_def ev_now_def)
qed

section \<open>The box meets the contract\<close>

lemma epoch_lawsD:
  assumes "epoch_laws cr view"
  shows "ep_pin cr c = (c', p) \<Longrightarrow> p \<notin> ev_pins (view c) \<and>
      collected ((view c)\<lparr>ev_pins := insert p (ev_pins (view c))\<rparr>) (view c')"
    and "p \<in> ev_pins (view c) \<Longrightarrow>
      collected ((view c)\<lparr>ev_pins := ev_pins (view c) - {p}\<rparr>) (view (ep_unpin cr p c))"
    and "ep_load cr c = ev_cell (view c)"
    and "ev_mem (view c) a = Some v \<Longrightarrow> ep_deref cr c a = Inr v"
    and "ep_swap cr v c = (c', old) \<Longrightarrow> old = ev_cell (view c) \<and> installed v (view c) (view c')"
    and "p \<in> ev_pins (view c) \<Longrightarrow> a \<noteq> ev_cell (view c) \<Longrightarrow> ev_mem (view c) a \<noteq> None \<Longrightarrow>
      ev_retired (view c) a = None \<Longrightarrow>
      collected ((view c)\<lparr>ev_retired := (ev_retired (view c))(a \<mapsto> ev_pins (view c))\<rparr>) (view (ep_defer_destroy cr p a c))"
proof -
  note laws = assms [unfolded epoch_laws_def, THEN conjunct2]
  note rest = laws [THEN conjunct2, THEN conjunct2]
  show "ep_pin cr c = (c', p) \<Longrightarrow> p \<notin> ev_pins (view c) \<and>
      collected ((view c)\<lparr>ev_pins := insert p (ev_pins (view c))\<rparr>) (view c')"
    by (rule laws [THEN conjunct1, rule_format])
  show "p \<in> ev_pins (view c) \<Longrightarrow>
      collected ((view c)\<lparr>ev_pins := ev_pins (view c) - {p}\<rparr>) (view (ep_unpin cr p c))"
    by (rule laws [THEN conjunct2, THEN conjunct1, rule_format])
  show "ep_load cr c = ev_cell (view c)" and "ev_mem (view c) a = Some v \<Longrightarrow> ep_deref cr c a = Inr v"
    using rest by simp_all
  show "ep_swap cr v c = (c', old) \<Longrightarrow> old = ev_cell (view c) \<and> installed v (view c) (view c')"
    by (rule rest [THEN conjunct2, THEN conjunct2, THEN conjunct1, rule_format])
  show "p \<in> ev_pins (view c) \<Longrightarrow> a \<noteq> ev_cell (view c) \<Longrightarrow> ev_mem (view c) a \<noteq> None \<Longrightarrow>
      ev_retired (view c) a = None \<Longrightarrow>
      collected ((view c)\<lparr>ev_retired := (ev_retired (view c))(a \<mapsto> ev_pins (view c))\<rparr>) (view (ep_defer_destroy cr p a c))"
    by (rule rest [THEN conjunct2, THEN conjunct2, THEN conjunct2, THEN conjunct2, rule_format])
qed

lemma fetch_updateD:
  assumes "epoch_laws cr view" and "ep_fetch_update cr h c = (c', x)"
  shows "h c (ev_cell (view c)) = Inl e \<Longrightarrow> x = Inl e \<and> collected (view c) (view c')"
    and "h c (ev_cell (view c)) = Inr None \<Longrightarrow> x = Inr (Inl ()) \<and> collected (view c) (view c')"
    and "h c (ev_cell (view c)) = Inr (Some v) \<Longrightarrow>
      x = Inr (Inr (ev_cell (view c))) \<and> installed v (view c) (view c')"
proof -
  have "case h c (ev_cell (view c)) of
      Inl e \<Rightarrow> x = Inl e \<and> collected (view c) (view c')
    | Inr None \<Rightarrow> x = Inr (Inl ()) \<and> collected (view c) (view c')
    | Inr (Some v) \<Rightarrow> x = Inr (Inr (ev_cell (view c))) \<and> installed v (view c) (view c')"
    using assms(1) [unfolded epoch_laws_def] assms(2) by blast
  then show "h c (ev_cell (view c)) = Inl e \<Longrightarrow> x = Inl e \<and> collected (view c) (view c')"
    and "h c (ev_cell (view c)) = Inr None \<Longrightarrow> x = Inr (Inl ()) \<and> collected (view c) (view c')"
    and "h c (ev_cell (view c)) = Inr (Some v) \<Longrightarrow>
      x = Inr (Inr (ev_cell (view c))) \<and> installed v (view c) (view c')" by simp_all
qed

lemma deref_now:
  assumes "epoch_laws cr view" and "view_ok (view c) gs"
  shows "ep_deref cr c (ev_cell (view c)) = Inr (ev_now (view c))"
  using assms(2) by (intro epoch_lawsD(4) [OF assms(1)]) (auto simp: view_ok_def ev_now_def)

lemma stays_pinned:
  assumes laws: "epoch_laws cr view" and ok: "view_ok (view c) gs" and "stays gs (view c) (view c')"
  shows "pinned (ep_box_deref cr) gs c c'"
  unfolding pinned_def
proof
  fix g assume g: "g \<in> set gs"
  then obtain v where v: "ev_mem (view c) (snd g) = Some v" using ok by (cases g) (auto simp: view_ok_def)
  then have "ev_mem (view c') (snd g) = Some v" using assms(3) g by (simp add: stays_def)
  with v show "ep_box_deref cr c' g = ep_box_deref cr c g"
    by (simp add: ep_box_deref_def epoch_lawsD(4) [OF laws])
qed

text \<open>The calls share their frame: pin, the body with the extra guard, unpin.\<close>

lemma ep_pinned:
  assumes laws: "epoch_laws cr view" and ok: "view_ok (view c) gs" and pin: "ep_pin cr c = (c1, p)"
  shows "view_ok (view c1) ((p, ev_cell (view c1)) # gs)" and "stays gs (view c) (view c1)"
    and "ev_now (view c1) = ev_now (view c)" and "p \<in> ev_pins (view c1)"
proof -
  have "p \<notin> ev_pins (view c)" and col: "collected ((view c)\<lparr>ev_pins := insert p (ev_pins (view c))\<rparr>) (view c1)"
    using epoch_lawsD(1) [OF laws pin] by blast+
  note pin = pin_ok [OF ok this]
  show "view_ok (view c1) ((p, ev_cell (view c1)) # gs)" and "stays gs (view c) (view c1)"
    and "ev_now (view c1) = ev_now (view c)" using pin by simp_all
  show "p \<in> ev_pins (view c1)" using col by (simp add: collected_def)
qed

lemma ep_unpinned:
  assumes laws: "epoch_laws cr view" and ok: "view_ok (view c) ((p, a) # gs)"
  shows "view_ok (view (ep_unpin cr p c)) gs" and "stays gs (view c) (view (ep_unpin cr p c))"
    and "ev_now (view (ep_unpin cr p c)) = ev_now (view c)"
proof -
  have "p \<in> ev_pins (view c)" using ok by (auto simp: view_ok_def)
  from unpin_ok [OF ok, of "(p, a)"] epoch_lawsD(2) [OF laws this]
  show "view_ok (view (ep_unpin cr p c)) gs" and "stays gs (view c) (view (ep_unpin cr p c))"
    and "ev_now (view (ep_unpin cr p c)) = ev_now (view c)" by simp_all
qed

text \<open>The tail of \<open>write\<close> and \<open>update\<close>: retire the old object, drop the guard.\<close>

lemma ep_replaced:
  assumes laws: "epoch_laws cr view" and ok: "view_ok (view c) ((p, ev_cell (view c)) # gs)"
    and new: "installed v (view c) (view c1)"
  defines "c2 \<equiv> ep_unpin cr p (ep_defer_destroy cr p (ev_cell (view c)) c1)"
  shows "view_ok (view c2) gs" and "stays gs (view c) (view c2)" and "ev_now (view c2) = v"
proof -
  let ?a = "ev_cell (view c)" and ?d = "ep_defer_destroy cr p (ev_cell (view c)) c1"
  note ins = install_ok [OF ok new]
  have "p \<in> ev_pins (view c1)" and "ev_mem (view c1) ?a \<noteq> None" using ins(1) by (auto simp: view_ok_def)
  with ins(4,5) have "collected ((view c1)\<lparr>ev_retired := (ev_retired (view c1))(?a \<mapsto> ev_pins (view c1))\<rparr>) (view ?d)"
    by (intro epoch_lawsD(6) [OF laws]) simp_all
  note ret = retire_ok [OF ins(1) ins(4) ins(5) this]
  note un = ep_unpinned [OF laws ret(1)]
  show "view_ok (view c2) gs" and "ev_now (view c2) = v" using un ret(3) ins(3) by (simp_all add: c2_def)
  have "stays gs (view c) (view c1)" and "stays gs (view c1) (view ?d)"
    using stays_subset [OF ins(2), of gs] stays_subset [OF ret(2), of gs] by auto
  then show "stays gs (view c) (view c2)" using un(2) unfolding c2_def by (blast intro: stays_trans)
qed

lemma ep_inspect_ok:
  assumes laws: "epoch_laws cr view" and ok: "view_ok (view c) gs"
  shows "\<exists>c'. ep_box_inspect cr f c = (c', f (ev_now (view c))) \<and> view_ok (view c') gs \<and>
    ev_now (view c') = ev_now (view c) \<and> stays gs (view c) (view c')"
proof -
  obtain c1 p where pin: "ep_pin cr c = (c1, p)" by fastforce
  note P = ep_pinned [OF laws ok pin] and U = ep_unpinned [OF laws ep_pinned(1) [OF laws ok pin]]
  show ?thesis
    using P U stays_trans [OF P(2) U(2)] deref_now [OF laws P(1)]
    by (simp add: ep_box_inspect_def pin epoch_lawsD(3) [OF laws])
qed

lemma ep_get_ok:
  assumes laws: "epoch_laws cr view" and ok: "view_ok (view c) gs"
  shows "\<exists>c' g. ep_box_get cr c = (c', Inr g) \<and> view_ok (view c') (g # gs) \<and>
    ep_box_deref cr c' g = Inr (ev_now (view c)) \<and> ev_now (view c') = ev_now (view c) \<and> stays gs (view c) (view c')"
proof -
  obtain c1 p where pin: "ep_pin cr c = (c1, p)" by fastforce
  note P = ep_pinned [OF laws ok pin]
  show ?thesis
    using P deref_now [OF laws P(1)] by (simp add: ep_box_get_def pin epoch_lawsD(3) [OF laws] ep_box_deref_def)
qed

lemma ep_release_ok:
  assumes laws: "epoch_laws cr view" and ok: "view_ok (view c) gs" and "g \<in> set gs"
  shows "\<exists>c'. ep_box_release cr g c = (c', Inr ()) \<and> view_ok (view c') (remove1 g gs) \<and>
    ev_now (view c') = ev_now (view c) \<and> stays (remove1 g gs) (view c) (view c')"
proof -
  have "fst g \<in> ev_pins (view c)" using ok assms(3) by (auto simp: view_ok_def)
  from unpin_ok [OF ok assms(3) epoch_lawsD(2) [OF laws this]] show ?thesis by (simp add: ep_box_release_def)
qed

lemma ep_write_ok:
  assumes laws: "epoch_laws cr view" and ok: "view_ok (view c) gs"
  shows "\<exists>c'. ep_box_write cr v c = (c', Inr ()) \<and> view_ok (view c') gs \<and> ev_now (view c') = v \<and>
    stays gs (view c) (view c')"
proof -
  obtain c1 p where pin: "ep_pin cr c = (c1, p)" by fastforce
  note P = ep_pinned [OF laws ok pin]
  obtain c2 old where swap: "ep_swap cr v c1 = (c2, old)" by fastforce
  then have old: "old = ev_cell (view c1)" and new: "installed v (view c1) (view c2)"
    using epoch_lawsD(5) [OF laws] by blast+
  from ep_replaced [OF laws P(1) new] stays_trans [OF P(2)] show ?thesis
    by (simp add: ep_box_write_def pin swap old)
qed

lemma ep_update_ok:
  assumes laws: "epoch_laws cr view" and ok: "view_ok (view c) gs"
  shows "\<exists>c'. view_ok (view c') gs \<and> stays gs (view c) (view c') \<and>
    (case u (ev_now (view c)) of
       Inl e \<Rightarrow> ep_box_update cr u c = (c', Inl e) \<and> ev_now (view c') = ev_now (view c)
     | Inr None \<Rightarrow> ep_box_update cr u c = (c', Inr (Inl ())) \<and> ev_now (view c') = ev_now (view c)
     | Inr (Some v) \<Rightarrow> ep_box_update cr u c = (c', Inr (Inr ())) \<and> ev_now (view c') = v)"
proof -
  obtain c1 p where pin: "ep_pin cr c = (c1, p)" by fastforce
  note P = ep_pinned [OF laws ok pin]
  let ?h = "\<lambda>c ptr. rbind (ep_deref cr c ptr) u"
  obtain c2 x where fu: "ep_fetch_update cr ?h c1 = (c2, x)" by fastforce
  note F = fetch_updateD [OF laws fu]
  have h: "?h c1 (ev_cell (view c1)) = u (ev_now (view c))" using deref_now [OF laws P(1)] P(3) by simp
  have same: "view_ok (view (ep_unpin cr p c2)) gs \<and> stays gs (view c) (view (ep_unpin cr p c2)) \<and>
      ev_now (view (ep_unpin cr p c2)) = ev_now (view c)" if "collected (view c1) (view c2)"
  proof -
    note C = collected_ok [OF that P(1)]
    note U = ep_unpinned [OF laws C(1)]
    have "stays gs (view c1) (view c2)" by (rule stays_subset [OF C(2)]) auto
    then show ?thesis using U C(3) P(3) stays_trans [OF stays_trans [OF P(2)] U(2)] by simp
  qed
  show ?thesis
  proof (cases "u (ev_now (view c))")
    case (Inl e)
    with F(1) [of e] h same show ?thesis by (intro exI [of _ "ep_unpin cr p c2"]) (simp add: ep_box_update_def pin fu)
  next
    case (Inr y)
    show ?thesis
    proof (cases y)
      case None
      with Inr F(2) h same show ?thesis
        by (intro exI [of _ "ep_unpin cr p c2"]) (simp add: ep_box_update_def pin fu)
    next
      case (Some v)
      with Inr F(3) [of v] h have x: "x = Inr (Inr (ev_cell (view c1)))" and new: "installed v (view c1) (view c2)"
        by simp_all
      from ep_replaced [OF laws P(1) new] stays_trans [OF P(2)] Inr Some show ?thesis
        by (intro exI [of _ "ep_unpin cr p (ep_defer_destroy cr p (ev_cell (view c1)) c2)"])
          (simp add: ep_box_update_def pin fu x)
    qed
  qed
qed

lemma epoch_contract:
  assumes laws: "epoch_laws cr view"
  shows "rcu_box (\<lambda>c. view_ok (view c)) (\<lambda>c. ev_now (view c)) (\<lambda>_. True) (\<lambda>_. True) (ep_box_deref cr)
    (\<lambda>f. at_once (ep_box_inspect cr f)) (at_once (ep_box_get cr)) (ep_box_release cr)
    (\<lambda>v. at_once (ep_box_write cr v)) (\<lambda>u. at_once (ep_box_update cr u))"
proof (unfold_locales, goal_cases)
  case (1 c gs f)
  then show ?case using ep_inspect_ok [OF laws, of c gs f] stays_pinned [OF laws] by (auto simp: at_once_def)
next
  case (2 c gs)
  then show ?case using ep_get_ok [OF laws, of c gs] stays_pinned [OF laws] by (fastforce simp: at_once_def)
next
  case (4 c gs g)
  obtain c' where c': "ep_box_release cr g c = (c', Inr ())" "view_ok (view c') (remove1 g gs)"
    "ev_now (view c') = ev_now (view c)" "stays (remove1 g gs) (view c) (view c')"
    using ep_release_ok [OF laws 4] by blast
  have "ep_box_deref cr c' h = ep_box_deref cr c h" if "h \<in> set (remove1 g gs)" for h
  proof -
    have "h \<in> set gs" using that set_remove1_subset by fastforce
    then obtain v where "ev_mem (view c) (snd h) = Some v" using 4(1) by (cases h) (auto simp: view_ok_def)
    moreover from this have "ev_mem (view c') (snd h) = Some v" using c'(4) that by (simp add: stays_def)
    ultimately show ?thesis by (simp add: ep_box_deref_def epoch_lawsD(4) [OF laws])
  qed
  with c' show ?case by (auto simp: pinned_def)
next
  case (7 c gs v s' r)
  then show ?case using ep_write_ok [OF laws, of c gs v] stays_pinned [OF laws] by (auto simp: at_once_def)
next
  case (10 c gs u s' q)
  then show ?case using ep_update_ok [OF laws, of c gs u] stays_pinned [OF laws] by (auto simp: at_once_def)
next
  case (11 c gs u s' q v)
  then show ?case using ep_update_ok [OF laws, of c gs u] stays_pinned [OF laws] by (auto simp: at_once_def)
next
  case (12 c gs u s' q e)
  then show ?case using ep_update_ok [OF laws, of c gs u] stays_pinned [OF laws] by (auto simp: at_once_def)
qed (simp_all add: at_once_def)


text \<open>An instance of the laws: a crate that keeps all objects.\<close>

type_synonym 't keeper = "'t list \<times> nat \<times> nat list \<times> (nat \<rightharpoonup> nat set)"

definition keeper_view :: "'t keeper \<Rightarrow> (nat, nat, 't) epoch_view" where
  "keeper_view = (\<lambda>(m, a, ps, rt). \<lparr>ev_cell = a, ev_mem = (\<lambda>i. if i < length m then Some (m ! i) else None),
     ev_pins = set ps, ev_retired = (\<lambda>i. if i < length m then rt i else None)\<rparr>)"

definition keeper_swap :: "'t \<Rightarrow> 't keeper \<Rightarrow> 't keeper \<times> nat" where
  "keeper_swap v = (\<lambda>(m, a, ps, rt). ((m @ [v], length m, ps, rt(length m := None)), a))"

definition keeper :: "('t keeper, nat, nat, 't) epoch" where
  "keeper = \<lparr>ep_new = (\<lambda>v. ([v], 0, [], Map.empty)),
     ep_pin = (\<lambda>(m, a, ps, rt). ((m, a, Suc (sum_list ps) # ps, rt), Suc (sum_list ps))),
     ep_unpin = (\<lambda>p (m, a, ps, rt). (m, a, removeAll p ps, rt)),
     ep_load = (\<lambda>(m, a, ps, rt). a),
     ep_deref = (\<lambda>(m, a, ps, rt) i. if i < length m then Inr (m ! i) else Inl Undefined),
     ep_swap = keeper_swap,
     ep_fetch_update = (\<lambda>h c. case h c (fst (snd c)) of
         Inl e \<Rightarrow> (c, Inl e) | Inr None \<Rightarrow> (c, Inr (Inl ()))
       | Inr (Some v) \<Rightarrow> (case keeper_swap v c of (c', old) \<Rightarrow> (c', Inr (Inr old)))),
     ep_defer_destroy = (\<lambda>p i (m, a, ps, rt). (m, a, ps, rt(i \<mapsto> set ps)))\<rparr>"

lemma collected_refl: "e' = e \<Longrightarrow> collected e e'"
  by (simp add: collected_def)

lemma keeper_installs: "keeper_swap v c = (c', old) \<Longrightarrow> old = ev_cell (keeper_view c) \<and> installed v (keeper_view c) (keeper_view c')"
  unfolding installed_def
  by (cases c) (auto simp: keeper_swap_def keeper_view_def fun_eq_iff nth_append intro!: exI [of _ "length (fst c)"] collected_refl)

lemma keeper_laws: "epoch_laws keeper keeper_view"
  unfolding epoch_laws_def
proof (intro conjI allI impI, goal_cases)
  case (4 c c' p)
  obtain m a ps rt where c: "c = (m, a, ps, rt)" by (cases c)
  have "Suc (sum_list ps) \<notin> set ps" using member_le_sum_list [of _ ps] by fastforce
  with 4 show ?case by (simp add: c keeper_def keeper_view_def)
next
  case (5 c c' p)
  then show ?case by (cases c) (auto simp: keeper_def keeper_view_def intro!: collected_refl)
next
  case (6 c p)
  then show ?case by (cases c) (auto simp: keeper_def keeper_view_def intro!: collected_refl)
next
  case (9 c v c' old)
  then have "keeper_swap v c = (c', old)" by (simp add: keeper_def)
  from keeper_installs [OF this] show ?case by blast
next
  case (10 c v c' old)
  then have "keeper_swap v c = (c', old)" by (simp add: keeper_def)
  from keeper_installs [OF this] show ?case by blast
next
  case (11 c h c' x)
  have cell: "fst (snd c) = ev_cell (keeper_view c)" by (cases c) (simp add: keeper_view_def)
  with 11 show ?case
    using keeper_installs [of _ c] by (auto simp: keeper_def collected_refl split: sum.splits option.splits prod.splits)
next
  case (12 c p a)
  then show ?case
    by (cases c) (auto simp: keeper_def keeper_view_def fun_eq_iff intro!: collected_refl split: if_splits)
qed (auto simp: keeper_def keeper_view_def split: if_splits prod.splits)


end
