(* ===== verification/Rcu_Guarded.thy ===== *)
theory Rcu_Guarded
  imports Rcu_Box Rcu_Props
begin

text \<open>
  What \<open>src/rcu/src/rcu.rs\<close> adds to every \<open>RcuBox\<close>: copies of the boxed value, guards of optional
  values, and guards of single entries of an \<open>RcuCslab\<close> whose reader lives in a box. The last joins
  the box with the slab: destroying a boxed reader drops its handle, which may finalize removals.
\<close>

section \<open>Operations of every box\<close>

text \<open>They take the box's own \<open>inspect\<close> or \<open>new\<close>. \<open>clone\<close> is the value type's, and may panic.\<close>

definition box_clone_inner :: "(('t \<Rightarrow> 't res) \<Rightarrow> 'b) \<Rightarrow> ('t \<Rightarrow> 't res) \<Rightarrow> 'b" where
  "box_clone_inner inspect clone = inspect (\<lambda>item. clone item)"

definition box_read :: "(('t \<Rightarrow> 't res) \<Rightarrow> 'b) \<Rightarrow> 'b" where
  "box_read inspect = inspect (\<lambda>item. Inr item)"

definition box_default :: "('t \<Rightarrow> 's) \<Rightarrow> 't \<Rightarrow> 's" where
  "box_default new dflt = new dflt"

definition box_from :: "('t \<Rightarrow> 's) \<Rightarrow> 't \<Rightarrow> 's" where
  "box_from new v = new v"

section \<open>Guards of optional values\<close>

text \<open>The conversions consume the guard: a guard of \<open>None\<close> is released. The unwrap is unchecked.\<close>

definition option_guard_try_from :: "('s \<Rightarrow> 'g \<Rightarrow> 't option res) \<Rightarrow> ('g \<Rightarrow> ('s, unit) act) \<Rightarrow> 'g \<Rightarrow> ('s, unit + 'g) act" where
  "option_guard_try_from deref release g s =
     (case deref s g of
        Inl e \<Rightarrow> (s, Inl e)
      | Inr None \<Rightarrow> abind (release g) (\<lambda>_. aret (Inl ())) s
      | Inr (Some _) \<Rightarrow> (s, Inr (Inr g)))"

definition option_guard_from :: "('s \<Rightarrow> 'g \<Rightarrow> 't option res) \<Rightarrow> ('g \<Rightarrow> ('s, unit) act) \<Rightarrow> 'g \<Rightarrow> ('s, 'g option) act" where
  "option_guard_from deref release g s =
     (case deref s g of
        Inl e \<Rightarrow> (s, Inl e)
      | Inr None \<Rightarrow> abind (release g) (\<lambda>_. aret None) s
      | Inr (Some _) \<Rightarrow> (s, Inr (Some g)))"

definition option_guard_deref :: "('s \<Rightarrow> 'g \<Rightarrow> 't option res) \<Rightarrow> 's \<Rightarrow> 'g \<Rightarrow> 't res" where
  "option_guard_deref deref s g =
     rbind (deref s g) (\<lambda>x. case x of None \<Rightarrow> Inl Undefined | Some v \<Rightarrow> Inr v)"

section \<open>Guards of entries\<close>

text \<open>A box of readers beside the slab they read. A boxed reader is its handle.\<close>

record 'a joint =
  j_box :: "nat mbox"
  j_world :: "'a world"

text \<open>Destroying a boxed reader drops its handle.\<close>

fun drop_readers :: "layout \<Rightarrow> nat list \<Rightarrow> ('a rcu, unit) act" where
  "drop_readers ent [] s = (s, Inr ())"
| "drop_readers ent (r # rs) s = abind (rcu_reader_drop ent r) (\<lambda>_. drop_readers ent rs) s"

definition on_box :: "layout \<Rightarrow> (nat mbox, 'r) act \<Rightarrow> ('a joint, 'r) act" where
  "on_box ent m j =
     (case m (j_box j) of (s, x) \<Rightarrow>
       let ds = drop (length (mb_dropped (j_box j))) (mb_dropped s); w = j_world j in
       (case drop_readers ent ds (w_rcu w) of (rc, y) \<Rightarrow>
         (\<lparr>j_box = s, j_world = w\<lparr>w_rcu := rc, w_readers := fold remove1 ds (w_readers w)\<rparr>\<rparr>, unwind x y)))"

text \<open>\<open>RcuCslabEntryGuard\<close>: the guard of the reader and the key.\<close>

type_synonym entry_guard = "nat \<times> usize"

definition guarded_reader :: "'a joint \<Rightarrow> nat \<Rightarrow> (nat \<Rightarrow> 'b res) \<Rightarrow> 'b res" where
  "guarded_reader j g f = rbind (mb_deref (j_box j) g) f"

definition entry_guard_deref :: "'a joint \<Rightarrow> entry_guard \<Rightarrow> 'a res" where
  "entry_guard_deref j e =
     guarded_reader j (fst e) (\<lambda>r. rcu_reader_get_unchecked (w_rcu (j_world j)) r (snd e))"

text \<open>The guard is released where it does not become part of the result.\<close>

definition get_guarded :: "layout \<Rightarrow> usize \<Rightarrow> ('a joint, entry_guard option) act" where
  "get_guarded ent key =
     abind (on_box ent mb_get) (\<lambda>g j.
       case guarded_reader j g (\<lambda>r. rcu_reader_contains_key (w_rcu (j_world j)) r key) of
         Inr True \<Rightarrow> (j, Inr (Some (g, key)))
       | Inr False \<Rightarrow> after (aret None) (on_box ent (mb_arc_drop g)) j
       | Inl e \<Rightarrow> after (\<lambda>j. (j, Inl e)) (on_box ent (mb_arc_drop g)) j)"

definition find_guarded :: "layout \<Rightarrow> (usize \<times> 'a \<Rightarrow> bool) \<Rightarrow> ('a joint, (usize \<times> entry_guard) option) act" where
  "find_guarded ent pred =
     abind (on_box ent mb_get) (\<lambda>g j.
       case guarded_reader j g (\<lambda>r. rbind (rcu_reader_iter (w_rcu (j_world j)) r) (\<lambda>it.
           case rloop (find_body (iter_next (rcu_storage (w_rcu (j_world j)))) pred) it of
             None \<Rightarrow> Inl Abort
           | Some x \<Rightarrow> x)) of
         Inr (Some (key, v)) \<Rightarrow> (j, Inr (Some (key, (g, key))))
       | Inr None \<Rightarrow> after (aret None) (on_box ent (mb_arc_drop g)) j
       | Inl e \<Rightarrow> after (\<lambda>j. (j, Inl e)) (on_box ent (mb_arc_drop g)) j)"

section \<open>Programs\<close>

text \<open>
  Steps of a program that owns slab handles and a box of readers: any step of the slab, as long as
  it leaves the handles that are in the box alone, and any call of the box; a handle is moved into
  the box by its owner. Beside the state run the values the box has held and the guards, as for a
  box alone.
\<close>

type_synonym 'a joint_state = "'a joint \<times> nat list \<times> (nat \<times> nat) list"

definition owned :: "'a joint \<Rightarrow> nat multiset \<Rightarrow> bool" where
  "owned j new \<longleftrightarrow> mb_live (j_box j) + new \<subseteq># mset (w_readers (j_world j))"

inductive joint_step :: "layout \<Rightarrow> 'a joint_state \<Rightarrow> 'a joint_state \<Rightarrow> bool" for ent where
  joint_slab: "world_step ent (j_world j) w \<Longrightarrow> owned (j\<lparr>j_world := w\<rparr>) {#} \<Longrightarrow>
    joint_step ent (j, vs, gv) (j\<lparr>j_world := w\<rparr>, vs, gv)"
| joint_get: "on_box ent mb_get j = (j', Inr g) \<Longrightarrow> joint_step ent (j, vs, gv) (j', vs, (g, last vs) # gv)"
| joint_release: "(g, r) \<in> set gv \<Longrightarrow> on_box ent (mb_arc_drop g) j = (j', Inr u) \<Longrightarrow>
    joint_step ent (j, vs, gv) (j', vs, remove1 (g, r) gv)"
| joint_write: "owned j {#r#} \<Longrightarrow> on_box ent (mb_write r) j = (j', Inr u) \<Longrightarrow>
    joint_step ent (j, vs, gv) (j', vs @ [r], gv)"
| joint_update: "(\<And>r. u (last vs) = Inr (Some r) \<Longrightarrow> owned j {#r#}) \<Longrightarrow> on_box ent (mb_update u) j = (j', Inr q) \<Longrightarrow>
    joint_step ent (j, vs, gv) (j', updated u vs, gv)"

inductive joint_reach :: "layout \<Rightarrow> usize \<Rightarrow> 'a joint_state \<Rightarrow> bool" for ent n where
  joint_start: "world_reach ent n w \<Longrightarrow> r \<in> set (w_readers w) \<Longrightarrow>
    joint_reach ent n (\<lparr>j_box = mb_new r, j_world = w\<rparr>, [r], [])"
| joint_next: "joint_reach ent n s \<Longrightarrow> joint_step ent s s' \<Longrightarrow> joint_reach ent n s'"

text \<open>Runs during which a guard (with the handle it reads) is held throughout.\<close>

inductive joint_holding :: "layout \<Rightarrow> nat \<times> nat \<Rightarrow> 'a joint_state \<Rightarrow> 'a joint_state \<Rightarrow> bool" for ent h s where
  jhold_start: "h \<in> set (snd (snd s)) \<Longrightarrow> joint_holding ent h s s"
| jhold_step: "joint_holding ent h s s1 \<Longrightarrow> joint_step ent s1 s2 \<Longrightarrow> h \<in> set (snd (snd s2)) \<Longrightarrow>
    joint_holding ent h s s2"

section \<open>The invariant\<close>

lemma unwind_eq_Inr: "unwind x y = Inr v \<longleftrightarrow> x = Inr v \<and> y = Inr ()"
  by (cases x; cases y) auto

lemma mset_fold_remove1: "mset (fold remove1 ds xs) = mset xs - mset ds"
  by (induction ds arbitrary: xs) simp_all

lemma set_fold_remove1: "r \<in> set (fold remove1 ds xs) \<Longrightarrow> r \<in> set xs"
  using in_diffD [of r "mset xs" "mset ds"] by (simp flip: set_mset_mset mset_fold_remove1)

text \<open>Dropping readers is a run of slab steps that keeps every other handle.\<close>

lemma drop_readers_Cons:
  assumes drops: "drop_readers ent (d # ds) (w_rcu w) = (rc, Inr ())" and sub: "mset (d # ds) \<subseteq># mset (w_readers w)"
  shows "\<exists>s. world_step ent w (w\<lparr>w_rcu := s, w_readers := remove1 d (w_readers w)\<rparr>) \<and>
    drop_readers ent ds s = (rc, Inr ()) \<and> mset ds \<subseteq># mset (remove1 d (w_readers w))"
proof -
  obtain s u where "rcu_reader_drop ent d (w_rcu w) = (s, Inr u)" and "drop_readers ent ds s = (rc, Inr ())"
    using drops by (auto simp: abind_def split: prod.splits sum.splits)
  moreover have "d \<in> set (w_readers w)" and "mset ds \<subseteq># mset (remove1 d (w_readers w))"
    using sub by (auto simp: insert_subset_eq_iff)
  ultimately show ?thesis using step_reader_drop [of d w ent s u] by auto
qed

lemma drop_readers_run:
  assumes "drop_readers ent ds (w_rcu w) = (rc, Inr ())" and "mset ds \<subseteq># mset (w_readers w)" and "world_reach ent n w"
    and "w' = w\<lparr>w_rcu := rc, w_readers := fold remove1 ds (w_readers w)\<rparr>"
  shows "world_reach ent n w' \<and>
    (\<forall>r \<in> set (w_readers w'). run_holding ent r w0 w \<longrightarrow> run_holding ent r w0 w')"
  using assms
proof (induction ds arbitrary: w)
  case Nil
  then have "w' = w" by auto
  with Nil show ?case by simp
next
  case (Cons d ds)
  obtain s where s: "world_step ent w (w\<lparr>w_rcu := s, w_readers := remove1 d (w_readers w)\<rparr>)"
    "drop_readers ent ds s = (rc, Inr ())" "mset ds \<subseteq># mset (remove1 d (w_readers w))"
    using drop_readers_Cons [OF Cons.prems(1,2)] by blast
  let ?w = "w\<lparr>w_rcu := s, w_readers := remove1 d (w_readers w)\<rparr>"
  have IH: "world_reach ent n w' \<and> (\<forall>r \<in> set (w_readers w'). run_holding ent r w0 ?w \<longrightarrow> run_holding ent r w0 w')"
    using s Cons.prems(4) by (intro Cons.IH reach_step [OF Cons.prems(3)]) simp_all
  have "run_holding ent r w0 ?w" if "r \<in> set (w_readers w')" and "run_holding ent r w0 w" for r
    using hold_step [OF that(2) s(1)] that(1) set_fold_remove1 [of r ds "remove1 d (w_readers w)"] Cons.prems(4)
    by (simp add: world_handles_def)
  with IH show ?case by blast
qed

text \<open>
  A call of the box: what it destroys, together with what is left, is what was there and what it
  puts in. It is safe for the slab, and every handle that is left in the box stays alive throughout.
\<close>

lemma on_box_ok:
  assumes call: "on_box ent m j = (j', Inr x)" and m: "m (j_box j) = (s, y)"
    and grows: "mb_dropped s = mb_dropped (j_box j) @ ds"
    and account: "mset (mb_dropped s) + mb_live s = mset (mb_dropped (j_box j)) + mb_live (j_box j) + new"
    and own: "owned j new" and reach: "world_reach ent n (j_world j)"
  shows "y = Inr x" and "j_box j' = s" and "world_reach ent n (j_world j')" and "owned j' {#}"
    and "r \<in># mb_live s \<Longrightarrow> run_holding ent r (j_world j) (j_world j')"
proof -
  obtain rc z where drops: "drop_readers ent ds (w_rcu (j_world j)) = (rc, z)" by fastforce
  have "Inr x = unwind y z" and j': "j' = \<lparr>j_box = s, j_world =
      (j_world j)\<lparr>w_rcu := rc, w_readers := fold remove1 ds (w_readers (j_world j))\<rparr>\<rparr>"
    using call by (simp_all add: on_box_def Let_def m grows drops)
  then have y: "y = Inr x" and z: "z = Inr ()" using unwind_eq_Inr [of y z x] by simp_all
  then show "y = Inr x" and "j_box j' = s" using j' by simp_all
  have live: "mset ds + mb_live s = mb_live (j_box j) + new" using account by (simp add: grows)
  then have sub: "mset ds + mb_live s \<subseteq># mset (w_readers (j_world j))" using own by (simp add: owned_def)
  then have ds: "mset ds \<subseteq># mset (w_readers (j_world j))" by (rule subset_mset.order_trans [rotated]) simp
  note run = drop_readers_run [OF drops [unfolded z] ds reach, of "j_world j'"]
  show "world_reach ent n (j_world j')" using run j' by simp
  have left: "mb_live s \<subseteq># mset (fold remove1 ds (w_readers (j_world j)))"
    using sub by (simp add: mset_fold_remove1 subset_eq_diff_conv subset_mset.le_diff_conv2 ds union_commute)
  then show "owned j' {#}" by (simp add: owned_def j')
  show "run_holding ent r (j_world j) (j_world j')" if "r \<in># mb_live s"
  proof -
    have r: "r \<in> set (fold remove1 ds (w_readers (j_world j)))" using mset_subset_eqD [OF left that] by simp
    then have "run_holding ent r (j_world j) (j_world j)"
      using set_fold_remove1 by (intro hold_start) (auto simp: world_handles_def)
    then show ?thesis using run [of "j_world j"] r j' by simp
  qed
qed

text \<open>Every call of the box appends what it destroys to the log.\<close>

lemma mb_drop_grows: "mb_arc_drop a s = (s', x) \<Longrightarrow> \<exists>ds. mb_dropped s' = mb_dropped s @ ds"
  by (auto simp: mb_arc_drop_def split: option.splits if_splits)

lemma mb_replace_grows: "mb_replace v s = (s', x) \<Longrightarrow> \<exists>ds. mb_dropped s' = mb_dropped s @ ds"
  using mb_drop_grows by (fastforce simp: mb_replace_def)

lemma mb_get_grows: "mb_get s = (s', x) \<Longrightarrow> \<exists>ds. mb_dropped s' = mb_dropped s @ ds"
  by (auto simp: mb_get_def mb_locked mb_arc_clone_def split: if_splits option.splits)

lemma mb_write_grows: "mb_write v s = (s', x) \<Longrightarrow> \<exists>ds. mb_dropped s' = mb_dropped s @ ds"
  using mb_replace_grows [of v s] by (auto simp: mb_write_def mb_locked split: if_splits)

lemma mb_update_grows: "mb_update u s = (s', x) \<Longrightarrow> \<exists>ds. mb_dropped s' = mb_dropped s @ ds"
  by (auto simp: mb_update_def mb_lock_def abind_def dest: mb_replace_grows
      split: if_splits option.splits sum.splits prod.splits)

abbreviation mb_run :: "'t \<Rightarrow> 't mbox \<Rightarrow> 't list \<Rightarrow> (nat \<times> 't) list \<Rightarrow> bool" where
  "mb_run v0 \<equiv> box_run (at_once mb_get) mb_arc_drop (\<lambda>v. at_once (mb_write v)) (\<lambda>u. at_once (mb_update u)) (mb_new v0) v0"

definition joint_inv :: "layout \<Rightarrow> usize \<Rightarrow> nat \<Rightarrow> 'a joint_state \<Rightarrow> bool" where
  "joint_inv ent n r0 = (\<lambda>(j, vs, gv). mb_run r0 (j_box j) vs gv \<and> world_reach ent n (j_world j) \<and> owned j {#})"

definition joint_keeps :: "layout \<Rightarrow> 'a joint_state \<Rightarrow> 'a joint_state \<Rightarrow> bool" where
  "joint_keeps ent = (\<lambda>(j, vs, gv) (j', vs', gv'). \<forall>r. r \<in># mb_live (j_box j) \<longrightarrow> r \<in># mb_live (j_box j') \<longrightarrow>
     run_holding ent r (j_world j) (j_world j'))"

lemma joint_call_ok:
  assumes inv: "joint_inv ent n r0 (j, vs, gv)" and call: "on_box ent m j = (j', Inr x)"
    and own: "owned j new" and grows: "\<And>s y. m (j_box j) = (s, y) \<Longrightarrow> \<exists>ds. mb_dropped s = mb_dropped (j_box j) @ ds"
    and account: "\<And>s y. m (j_box j) = (s, y) \<Longrightarrow>
      mset (mb_dropped s) + mb_live s = mset (mb_dropped (j_box j)) + mb_live (j_box j) + new"
    and run: "\<And>s. m (j_box j) = (s, Inr x) \<Longrightarrow> mb_run r0 s vs' gv'"
  shows "joint_inv ent n r0 (j', vs', gv') \<and> joint_keeps ent (j, vs, gv) (j', vs', gv')"
proof -
  obtain s y where m: "m (j_box j) = (s, y)" by fastforce
  obtain ds where ds: "mb_dropped s = mb_dropped (j_box j) @ ds" using grows [OF m] by blast
  have reach: "world_reach ent n (j_world j)" using inv by (simp add: joint_inv_def)
  note ok = on_box_ok [OF call m ds account [OF m] own reach]
  show ?thesis using ok run m by (simp add: joint_inv_def joint_keeps_def)
qed

lemma joint_agrees: "joint_inv ent n r0 (j, vs, gv) \<Longrightarrow> mbox.agrees (j_box j) vs gv"
  by (auto simp: joint_inv_def intro: mbox.run_agrees mb_new_ok)

lemma joint_get_ok:
  assumes inv: "joint_inv ent n r0 (j, vs, gv)" and call: "on_box ent mb_get j = (j', Inr g)"
  shows "joint_inv ent n r0 (j', vs, (g, last vs) # gv) \<and> joint_keeps ent (j, vs, gv) (j', vs, (g, last vs) # gv)"
proof (rule joint_call_ok [OF inv call, where new = "{#}"])
  have run: "mb_run r0 (j_box j) vs gv" and "owned j {#}" using inv by (simp_all add: joint_inv_def)
  then show "owned j {#}" by simp
  show "\<exists>ds. mb_dropped s = mb_dropped (j_box j) @ ds" if "mb_get (j_box j) = (s, y)" for s y
    using that by (rule mb_get_grows)
  show "mset (mb_dropped s) + mb_live s = mset (mb_dropped (j_box j)) + mb_live (j_box j) + {#}"
    if "mb_get (j_box j) = (s, y)" for s y
    using mbox.get_account [OF mbox.agreesD(1) [OF joint_agrees [OF inv]], of s y] that by (simp add: at_once_def)
  show "mb_run r0 s vs ((g, last vs) # gv)" if "mb_get (j_box j) = (s, Inr g)" for s
    using run_get [OF run, of s g] that by (simp add: at_once_def)
qed

lemma joint_release_ok:
  assumes inv: "joint_inv ent n r0 (j, vs, gv)" and g: "(g, r) \<in> set gv"
    and call: "on_box ent (mb_arc_drop g) j = (j', Inr u)"
  shows "joint_inv ent n r0 (j', vs, remove1 (g, r) gv) \<and> joint_keeps ent (j, vs, gv) (j', vs, remove1 (g, r) gv)"
proof (rule joint_call_ok [OF inv call, where new = "{#}"])
  note ag = joint_agrees [OF inv]
  have run: "mb_run r0 (j_box j) vs gv" and "owned j {#}" using inv by (simp_all add: joint_inv_def)
  then show "owned j {#}" by simp
  show "\<exists>ds. mb_dropped s = mb_dropped (j_box j) @ ds" if "mb_arc_drop g (j_box j) = (s, y)" for s y
    using that by (rule mb_drop_grows)
  show "mset (mb_dropped s) + mb_live s = mset (mb_dropped (j_box j)) + mb_live (j_box j) + {#}"
    if "mb_arc_drop g (j_box j) = (s, y)" for s y
    using mbox.release_account [OF mbox.agreesD(1) [OF ag] mbox.agreesD(5) [OF ag g], of s]
      mbox.agrees_release [OF ag g that] that by simp
  show "mb_run r0 s vs (remove1 (g, r) gv)" if "mb_arc_drop g (j_box j) = (s, Inr u)" for s
    using run g that by (rule run_release)
qed

lemma joint_write_ok:
  assumes inv: "joint_inv ent n r0 (j, vs, gv)" and own: "owned j {#r#}"
    and call: "on_box ent (mb_write r) j = (j', Inr u)"
  shows "joint_inv ent n r0 (j', vs @ [r], gv) \<and> joint_keeps ent (j, vs, gv) (j', vs @ [r], gv)"
proof (rule joint_call_ok [OF inv call own])
  note ok = mbox.agreesD(1) [OF joint_agrees [OF inv]]
  have run: "mb_run r0 (j_box j) vs gv" using inv by (simp add: joint_inv_def)
  have fine: "y = Inr ()" if "mb_write r (j_box j) = (s, y)" for s y
  proof -
    have "mb_usable (j_box j)"
      using call unwind_eq_Inr by (fastforce simp: on_box_def mb_write_def mb_locked Let_def split: if_splits prod.splits)
    with mb_replace_ok [OF ok, of r] that show ?thesis by (auto simp: mb_write_def mb_locked)
  qed
  show "\<exists>ds. mb_dropped s = mb_dropped (j_box j) @ ds" if "mb_write r (j_box j) = (s, y)" for s y
    using that by (rule mb_write_grows)
  show "mset (mb_dropped s) + mb_live s = mset (mb_dropped (j_box j)) + mb_live (j_box j) + {#r#}"
    if "mb_write r (j_box j) = (s, y)" for s y
    using mbox.write_account [OF ok, of r s] fine [OF that] that by (simp add: at_once_def)
  show "mb_run r0 s (vs @ [r]) gv" if "mb_write r (j_box j) = (s, Inr u)" for s
    using run_write [OF run, of r s] that by (simp add: at_once_def)
qed

lemma joint_update_ok:
  assumes inv: "joint_inv ent n r0 (j, vs, gv)" and own: "\<And>r. u (last vs) = Inr (Some r) \<Longrightarrow> owned j {#r#}"
    and call: "on_box ent (mb_update u) j = (j', Inr q)"
  shows "joint_inv ent n r0 (j', updated u vs, gv) \<and> joint_keeps ent (j, vs, gv) (j', updated u vs, gv)"
proof -
  note D = mbox.agreesD [OF joint_agrees [OF inv]]
  have run: "mb_run r0 (j_box j) vs gv" and own0: "owned j {#}" using inv by (simp_all add: joint_inv_def)
  obtain s y where upd: "mb_update u (j_box j) = (s, y)" by fastforce
  have y: "y = Inr q" using call upd by (auto simp: on_box_def Let_def unwind_eq_Inr split: prod.splits)
  define new where "new = (case u (last vs) of Inr (Some r) \<Rightarrow> {#r#} | _ \<Rightarrow> {#})"
  have own': "owned j new" using own own0 by (auto simp: new_def split: sum.splits option.splits)
  have "mset (mb_dropped s) + mb_live s = mset (mb_dropped (j_box j)) + mb_live (j_box j) + new"
    using mbox.update_result(3) [OF D(1), of u s "Inr q"] mbox.update_account [OF D(1), of u s]
      mbox.no_update_account [OF D(1), of u s "Inr q"] upd D(3)
    by (auto simp: at_once_def y new_def split: sum.splits)
  then show ?thesis
    using upd run_update [OF run, of u s q] mb_update_grows
    by (intro joint_call_ok [OF inv call own']) (auto simp: at_once_def y)
qed

lemma joint_step_ok:
  assumes "joint_step ent s s'" and "joint_inv ent n r0 s"
  shows "joint_inv ent n r0 s' \<and> joint_keeps ent s s'"
  using assms(1)
proof cases
  case (joint_slab j w vs gv)
  have run: "mb_run r0 (j_box j) vs gv" and reach: "world_reach ent n (j_world j)" and own: "owned j {#}"
    using assms(2) joint_slab(1) by (simp_all add: joint_inv_def)
  have "r \<in> set (world_handles (j_world j)) \<and> r \<in> set (world_handles w)" if "r \<in># mb_live (j_box j)" for r
    using that own joint_slab(4) by (auto simp: owned_def world_handles_def dest: mset_subset_eqD)
  then have "run_holding ent r (j_world j) w" if "r \<in># mb_live (j_box j)" for r
    using that by (intro hold_step [OF hold_start joint_slab(3)]) simp_all
  with run reach joint_slab reach_step [OF reach joint_slab(3)] show ?thesis
    by (simp add: joint_inv_def joint_keeps_def)
next
  case joint_get
  with assms(2) show ?thesis by (simp only: joint_get_ok)
next
  case joint_release
  with assms(2) show ?thesis by (simp only: joint_release_ok)
next
  case joint_write
  with assms(2) show ?thesis by (simp only: joint_write_ok)
next
  case (joint_update u vs j j' q gv)
  with assms(2) joint_update_ok [of ent n r0 j vs gv u j' q] show ?thesis by simp
qed

lemma joint_reach_inv:
  assumes "joint_reach ent n s"
  shows "\<exists>r0. joint_inv ent n r0 s"
  using assms
proof induction
  case (joint_start w r)
  then have "owned \<lparr>j_box = mb_new r, j_world = w\<rparr> {#}"
    using mb_live_alone [OF mb_new_ok(1), of r] by (simp add: owned_def mb_new_ok)
  with joint_start show ?case by (auto simp: joint_inv_def intro: run_new)
qed (use joint_step_ok in blast)

text \<open>A guard keeps the handle it reads in the box, so a run that holds the guard holds the handle.\<close>

lemma guarded_live:
  assumes "joint_inv ent n r0 (j, vs, gv)" and "(g, r) \<in> set gv"
  shows "mb_deref (j_box j) g = Inr r" and "r \<in># mb_live (j_box j)"
proof -
  note ag = joint_agrees [OF assms(1)]
  show "mb_deref (j_box j) g = Inr r" by (rule mbox.agreesD(4) [OF ag assms(2)])
  then show "r \<in># mb_live (j_box j)"
    using mbox.live_guard [OF mbox.agreesD(1) [OF ag] mbox.agreesD(5) [OF ag assms(2)]] by blast
qed

lemma run_holding_trans:
  assumes "run_holding ent r w1 w2" and "run_holding ent r w0 w1"
  shows "run_holding ent r w0 w2"
  using assms(1) by induction (auto intro: assms(2) hold_step)

lemma joint_holding_run:
  assumes "joint_holding ent (g, r) s s'" and inv: "joint_inv ent n r0 s"
  shows "joint_inv ent n r0 s' \<and> (g, r) \<in> set (snd (snd s')) \<and>
    run_holding ent r (j_world (fst s)) (j_world (fst s'))"
  using assms(1)
proof induction
  case jhold_start
  obtain j vs gv where s: "s = (j, vs, gv)" by (cases s)
  have "r \<in># mb_live (j_box j)" using guarded_live(2) inv jhold_start by (simp add: s)
  then have "r \<in> set (world_handles (j_world j))"
    using inv by (auto simp: s joint_inv_def owned_def world_handles_def dest: mset_subset_eqD)
  with inv jhold_start show ?case by (simp add: s hold_start)
next
  case (jhold_step s1 s2)
  obtain j vs gv where s1: "s1 = (j, vs, gv)" by (cases s1)
  obtain j' vs' gv' where s2: "s2 = (j', vs', gv')" by (cases s2)
  have inv1: "joint_inv ent n r0 (j, vs, gv)" and g: "(g, r) \<in> set gv" and g': "(g, r) \<in> set gv'"
    and hold: "run_holding ent r (j_world (fst s)) (j_world j)"
    using jhold_step.IH jhold_step.hyps(3) by (simp_all add: s1 s2)
  have inv2: "joint_inv ent n r0 (j', vs', gv')" and keeps: "joint_keeps ent (j, vs, gv) (j', vs', gv')"
    using joint_step_ok [OF jhold_step.hyps(2)] inv1 by (simp_all add: s1 s2)
  have "run_holding ent r (j_world j) (j_world j')"
    using keeps guarded_live(2) [OF inv1 g] guarded_live(2) [OF inv2 g'] by (simp add: joint_keeps_def)
  from run_holding_trans [OF this hold] inv2 g' show ?case by (simp add: s2)
qed

section \<open>The outcome of the guarded lookups\<close>

lemma joint_storage:
  assumes "joint_inv ent n r0 (j, vs, gv)" and "entry_layout_ok ent"
  shows "storage_wf (rcu_storage (w_rcu (j_world j)))"
proof -
  have "world_inv ent (j_world j)" using assms world_reach_inv by (auto simp: joint_inv_def)
  then show ?thesis by (auto simp: world_inv_def rcu_inv_def intro: cslab_wf_storage)
qed

lemma joint_get_now:
  assumes inv: "joint_inv ent n r0 (j, vs, gv)" and call: "on_box ent mb_get j = (j', Inr g)"
  shows "guarded_reader j' g f = f (last vs)" and "w_rcu (j_world j') = w_rcu (j_world j)"
proof -
  note inv' = joint_get_ok [OF inv call, THEN conjunct1]
  show "guarded_reader j' g f = f (last vs)"
    using guarded_live(1) [OF inv', of g "last vs"] by (simp add: guarded_reader_def)
  obtain s y where get: "mb_get (j_box j) = (s, y)" by fastforce
  then have "mb_dropped s = mb_dropped (j_box j)"
    by (auto simp: mb_get_def mb_locked mb_arc_clone_def split: if_splits option.splits)
  then show "w_rcu (j_world j') = w_rcu (j_world j)"
    using call get by (auto simp: on_box_def Let_def)
qed

text \<open>
  C5. An entry guard is always valid. After any program, let \<open>get_guarded(key)\<close> return a guard. Then
  the key was visible to the boxed reader, and in every later state, for as long as the guard is
  held, dereferencing it is defined and gives the item that was there: whatever is written to the
  box, however often the boxed reader is replaced and destroyed, and whatever is removed, finalized
  and inserted in the slab.
\<close>

theorem entry_guard_valid:
  assumes "entry_layout_ok ent" and "joint_reach ent n (j, vs, gv)"
    and "get_guarded ent key j = (j', Inr (Some e))"
    and "joint_holding ent (fst e, last vs) (j', vs, (fst e, last vs) # gv) s"
  shows "\<exists>v. rcu_reader_get (w_rcu (j_world j)) (last vs) key = Inr (Some v) \<and> entry_guard_deref (fst s) e = Inr v"
proof -
  obtain r0 where inv: "joint_inv ent n r0 (j, vs, gv)" using joint_reach_inv [OF assms(2)] by blast
  let ?st = "rcu_storage (w_rcu (j_world j))"
  have wf: "storage_wf ?st" by (rule joint_storage [OF inv assms(1)])
  obtain g where get: "on_box ent mb_get j = (j', Inr g)" and e: "e = (g, key)"
    and key: "guarded_reader j' g (\<lambda>r. rcu_reader_contains_key (w_rcu (j_world j')) r key) = Inr True"
    using assms(3) by (auto simp: get_guarded_def abind_def after_def unwind_eq_Inr split: prod.splits sum.splits bool.splits)
  note now = joint_get_now [OF inv get]
  have "flag_at (st_bitmap ?st) (unat key)"
    using key unfolding now(2) now(1)
    by (simp add: rcu_reader_contains_key_def reader_contains_key_def contains_key_impl_eq [OF wf])
  then obtain v where v: "visible_at ?st (unat key) = Some v"
    using storage_wf_dests(6) [OF wf, of "unat key"] by (auto simp: visible_at_def)
  then have look: "rcu_reader_get (w_rcu (j_world j)) (last vs) key = Inr (Some v)"
    by (simp add: rcu_reader_get_def reader_get_def get_impl_eq [OF wf])
  have inv': "joint_inv ent n r0 (j', vs, (g, last vs) # gv)" by (rule joint_get_ok [OF inv get, THEN conjunct1])
  obtain js vss gvs where s: "s = (js, vss, gvs)" by (cases s)
  note hold = joint_holding_run [OF assms(4) [unfolded e fst_conv] inv', unfolded s, simplified]
  have winv: "world_inv ent (j_world j')"
    using inv' assms(1) world_reach_inv by (auto simp: joint_inv_def)
  have "protected (w_rcu (j_world j')) (last vs) key v"
    using look now(2) by (intro get_protected [OF winv]) simp
  then have "protected (w_rcu (j_world js)) (last vs) key v"
    using run_holding_protects [OF _ winv] hold by blast
  then have "entry_guard_deref js e = Inr v"
    using guarded_live(1) [of ent n r0 js vss gvs g "last vs"] hold
    by (simp add: entry_guard_deref_def guarded_reader_def e protected_read)
  with look show ?thesis by (auto simp: s)
qed

text \<open>The item 7 of the demonstration slab, read through a guard while it is being removed.\<close>

definition demo_joint :: "nat joint" where
  "demo_joint = \<lparr>j_box = mb_new 0, j_world = demo_world\<rparr>"

definition demo_held :: "nat joint" where
  "demo_held = \<lparr>j_box = (mb_new 0)\<lparr>mb_heap := [0 \<mapsto> (0, 2)]\<rparr>, j_world = demo_world\<rparr>"

lemma demo_joint_reach: "joint_reach entry8 2 (demo_joint, [0], [])"
  unfolding demo_joint_def by (rule joint_start [OF demo_world_reach]) (simp add: demo_world_def)

lemma demo_joint_get: "on_box ent mb_get demo_joint = (demo_held, Inr 0)"
  by (simp add: on_box_def Let_def mb_get_def mb_locked mb_usable_def mb_arc_clone_def mb_new_def demo_joint_def demo_held_def
      demo_world_def eval_nat_numeral)

lemma demo_get_guarded: "get_guarded entry8 0 demo_joint = (demo_held, Inr (Some (0, 0)))"
proof -
  have "storage_wf (storage demo_slab)" by (rule cslab_wf_storage [OF demo_wf])
  moreover have "flag_at (st_bitmap (storage demo_slab)) (unat (0 :: usize))" by code_simp
  ultimately have "rcu_reader_contains_key demo_rcu 0 0 = Inr True"
    by (simp add: rcu_reader_contains_key_def reader_contains_key_def contains_key_impl_eq demo_rcu_def)
  then show ?thesis
    by (simp add: get_guarded_def demo_joint_get guarded_reader_def mb_deref_def demo_held_def mb_new_def demo_world_def)
qed

theorem entry_guard_valid_witness:
  "\<exists>s. joint_holding entry8 (0, 0) (demo_held, [0], [(0, 0)]) s \<and>
     w_rcu (j_world (fst s)) \<noteq> w_rcu (j_world demo_held) \<and> entry_guard_deref (fst s) (0, 0) = Inr 7"
proof -
  let ?s = "demo_rcu\<lparr>rc_writer := demo_hidden, rc_gens := [Some (new_gen\<lparr>g_strong := 2, g_pending := [0]\<rparr>)]\<rparr>"
  let ?w = "demo_world\<lparr>w_rcu := ?s\<rparr>"
  have rcu: "w_rcu demo_world = demo_rcu" by (simp add: demo_world_def)
  have step: "world_step entry8 (j_world demo_held) ?w"
    unfolding demo_held_def joint.simps by (rule step_mark [OF demo_world_free, of 0 _ "()"]) (simp add: rcu demo_mark)
  have "mb_live (j_box demo_held) = {#0#}"
    by (simp add: mb_live_def demo_held_def mb_new_def)
  then have own: "owned (demo_held\<lparr>j_world := ?w\<rparr>) {#}" by (simp add: owned_def demo_world_def)
  from jhold_step [OF jhold_start joint_slab [OF step own], where h = "(0, 0)" and ?vs1 = "[0]" and ?gv1 = "[(0, 0)]"]
  have hold: "joint_holding entry8 (0, 0) (demo_held, [0], [(0, 0)]) (demo_held\<lparr>j_world := ?w\<rparr>, [0], [(0, 0)])"
    by simp
  have "?s \<noteq> demo_rcu"
    by (rule notI, drule arg_cong [where f = rc_gens]) (simp add: demo_rcu_def new_gen_def)
  moreover have "entry_guard_deref (demo_held\<lparr>j_world := ?w\<rparr>) (0, 0) = Inr 7"
    using entry_guard_valid [OF entry8_ok demo_joint_reach demo_get_guarded, of "(demo_held\<lparr>j_world := ?w\<rparr>, [0], [(0, 0)])"]
      hold demo_get by (simp add: demo_joint_def rcu)
  ultimately show ?thesis using hold by (intro exI [of _ "(demo_held\<lparr>j_world := ?w\<rparr>, [0], [(0, 0)])"])
    (simp add: demo_held_def rcu)
qed

text \<open>A guard that is released at once leaves no trace.\<close>

lemma get_then_release:
  assumes inv: "joint_inv ent n r0 (j, vs, gv)" and "mb_usable (j_box j)"
  shows "\<exists>j' g. on_box ent mb_get j = (j', Inr g) \<and> on_box ent (mb_arc_drop g) j' = (j, Inr ()) \<and>
    w_rcu (j_world j') = w_rcu (j_world j)"
proof -
  define s where "s = j_box j"
  note ok = mbox.agreesD(1) [OF joint_agrees [OF inv], folded s_def]
  let ?p = "mb_ptr s" and ?n = "mb_refs s (map fst gv) (mb_ptr s)"
  let ?s = "s\<lparr>mb_heap := (mb_heap s)(?p \<mapsto> (mb_now s, ?n + 1))\<rparr>"
  have cell: "mb_heap s ?p = Some (mb_now s, ?n)" and pos: "0 < ?n"
    using mb_ptr_cell [OF ok] by (simp_all add: mb_refs_def)
  then have "s\<lparr>mb_heap := (mb_heap s)(?p \<mapsto> (mb_now s, ?n))\<rparr> = s" by (simp add: fun_upd_idem)
  with pos have "mb_arc_drop ?p ?s = (s, Inr ())" by (simp add: mb_arc_drop_def)
  moreover have "mb_get s = (?s, Inr ?p)"
    using assms(2) cell by (simp add: mb_get_def mb_locked mb_arc_clone_def s_def)
  ultimately show ?thesis
    by (intro exI [of _ "\<lparr>j_box = ?s, j_world = j_world j\<rparr>"] exI [of _ ?p]) (simp add: on_box_def Let_def s_def)
qed

text \<open>
  C31. The guarded lookups, after any program whose box is not poisoned. \<open>get_guarded(key)\<close> returns a
  guard exactly when the boxed reader sees an item at the key. \<open>find_guarded\<close> returns, guarded and
  with its key, the first item in index order that satisfies the predicate, and nothing if no
  visible item does. Where they return nothing, the box and the slab are as before.
\<close>

theorem guarded_lookups_exact:
  assumes "entry_layout_ok ent" and "joint_reach ent n (j, vs, gv)" and "\<not> mb_poisoned (j_box j)"
  shows "(case rcu_reader_get (w_rcu (j_world j)) (last vs) key of
      Inr None \<Rightarrow> get_guarded ent key j = (j, Inr None)
    | Inr (Some v) \<Rightarrow> \<exists>j' g. get_guarded ent key j = (j', Inr (Some (g, key))) \<and> entry_guard_deref j' (g, key) = Inr v
    | Inl e \<Rightarrow> False) \<and>
   (case find pred (visible_items (rcu_storage (w_rcu (j_world j)))) of
      None \<Rightarrow> find_guarded ent pred j = (j, Inr None)
    | Some (k, v) \<Rightarrow> \<exists>j' g. find_guarded ent pred j = (j', Inr (Some (k, (g, k)))) \<and> entry_guard_deref j' (g, k) = Inr v)"
proof -
  obtain r0 where inv: "joint_inv ent n r0 (j, vs, gv)" using joint_reach_inv [OF assms(2)] by blast
  let ?st = "rcu_storage (w_rcu (j_world j))"
  have wf: "storage_wf ?st" by (rule joint_storage [OF inv assms(1)])
  obtain j' g where get: "on_box ent mb_get j = (j', Inr g)" and drop: "on_box ent (mb_arc_drop g) j' = (j, Inr ())"
    using get_then_release [OF inv] assms(3) by (auto simp: mb_usable_def)
  note now = joint_get_now [OF inv get]
  have read: "entry_guard_deref j' (g, k) = Inr v" if "visible_at ?st (unat k) = Some v" for k v
    using that get_unchecked_impl_eq [of ?st k v]
    by (simp add: entry_guard_deref_def now rcu_reader_get_unchecked_def reader_get_unchecked_def visible_at_def split: if_splits)
  have flag: "flag_at (st_bitmap ?st) (unat key) \<longleftrightarrow> visible_at ?st (unat key) \<noteq> None"
    using storage_wf_dests(6) [OF wf, of "unat key"] by (auto simp: visible_at_def)
  have "guarded_reader j' g (\<lambda>r. rcu_reader_contains_key (w_rcu (j_world j')) r key) =
      Inr (visible_at ?st (unat key) \<noteq> None)"
    by (simp add: now rcu_reader_contains_key_def reader_contains_key_def contains_key_impl_eq [OF wf] flag)
  then have get_eq: "get_guarded ent key j =
      (if visible_at ?st (unat key) = None then (j, Inr None) else (j', Inr (Some (g, key))))"
    using drop by (simp add: get_guarded_def get)
  obtain it where it: "iter_new ?st = Inr it" "iter_ok ?st it" "iter_items ?st it = visible_items ?st"
    using iter_new_ok [OF wf] by blast
  have "guarded_reader j' g (\<lambda>r. rbind (rcu_reader_iter (w_rcu (j_world j')) r) (\<lambda>it.
      case rloop (find_body (iter_next (rcu_storage (w_rcu (j_world j')))) pred) it of None \<Rightarrow> Inl Abort | Some x \<Rightarrow> x)) =
      Inr (find pred (visible_items ?st))"
    by (simp add: now rcu_reader_iter_def reader_iter_def it iter.find_finds [OF it(2)])
  then have find_eq: "find_guarded ent pred j =
      (case find pred (visible_items ?st) of None \<Rightarrow> (j, Inr None) | Some (k, v) \<Rightarrow> (j', Inr (Some (k, (g, k)))))"
    using drop by (auto simp: find_guarded_def get split: option.splits)
  have "visible_at ?st (unat k) = Some v" if "find pred (visible_items ?st) = Some (k, v)" for k v
    using that visible_items_exact(1) [OF wf, of k v] by (metis find_Some_iff nth_mem)
  then show ?thesis
    using get_eq find_eq read
    by (auto simp: rcu_reader_get_def reader_get_def get_impl_eq [OF wf] split: option.splits)
qed

theorem guarded_lookups_exact_witness:
  "\<exists>j g. get_guarded entry8 0 demo_joint = (j, Inr (Some (g, 0))) \<and> entry_guard_deref j (g, 0) = Inr 7"
proof -
  have "\<not> mb_poisoned (j_box demo_joint)" by (simp add: demo_joint_def mb_new_def)
  from guarded_lookups_exact [OF entry8_ok demo_joint_reach this, of 0 "\<lambda>_. False"] show ?thesis
    using demo_get by (simp add: demo_joint_def demo_world_def)
qed

text \<open>
  An option guard is always valid: after any program on a mutex box of optional values, a guard
  that was obtained when the box held \<open>Some(v)\<close> is accepted by both conversions and dereferences to
  \<open>v\<close>, whatever has been written since: the unchecked unwrap is never undefined. A guard of \<open>None\<close>
  is refused and released.
\<close>

theorem option_guard_valid:
  assumes "mb_run v0 s vs gv" and "(g, x) \<in> set gv"
  shows "(case x of
      Some v \<Rightarrow> option_guard_try_from mb_deref mb_arc_drop g s = (s, Inr (Inr g)) \<and>
        option_guard_from mb_deref mb_arc_drop g s = (s, Inr (Some g)) \<and> option_guard_deref mb_deref s g = Inr v
    | None \<Rightarrow> (\<exists>s'. mb_arc_drop g s = (s', Inr ()) \<and>
        option_guard_try_from mb_deref mb_arc_drop g s = (s', Inr (Inl ())) \<and>
        option_guard_from mb_deref mb_arc_drop g s = (s', Inr None)))"
proof -
  note ag = mbox.run_agrees [OF assms(1) mb_new_ok(1,2)]
  note D = mbox.agreesD [OF ag]
  have "mb_deref s g = Inr x" by (rule D(4) [OF assms(2)])
  moreover obtain s' where "mb_arc_drop g s = (s', Inr ())" using mb_release_ok [OF D(1) D(5) [OF assms(2)]] by blast
  ultimately show ?thesis
    by (auto simp: option_guard_try_from_def option_guard_from_def option_guard_deref_def split: option.splits)
qed

theorem option_guard_valid_witness:
  "option_guard_deref mb_deref ((mb_new (Some (3 :: nat)))\<lparr>mb_heap := [0 \<mapsto> (Some 3, 2)]\<rparr>) 0 = Inr 3"
proof -
  let ?s = "(mb_new (Some (3 :: nat)))\<lparr>mb_heap := [0 \<mapsto> (Some 3, 2)]\<rparr>"
  note r0 = run_new [where get = "at_once mb_get" and release = mb_arc_drop and put = "\<lambda>v. at_once (mb_write v)"
      and update = "\<lambda>u. at_once (mb_update u)" and ?s0.0 = "mb_new (Some (3 :: nat))" and ?v0.0 = "Some 3"]
  have "at_once mb_get (mb_new (Some (3 :: nat))) = Some (?s, Inr 0)"
    by (simp add: at_once_def mb_get_def mb_locked mb_usable_def mb_new_def mb_arc_clone_def eval_nat_numeral)
  from run_get [OF r0 this] have "mb_run (Some 3) ?s [Some 3] [(0, Some 3)]" by simp
  from option_guard_valid [OF this, of 0 "Some 3"] show ?thesis by simp
qed

end
