(* ===== verification/Ancillary.thy ===== *)
theory Ancillary
  imports Zpr_Prelude
begin

text \<open>
  File descriptors and their passing over Unix sockets: \<open>CowFd\<close> of \<open>src/zpr-ext/src/std/os/fd.rs\<close> over
  a table of open descriptors, and \<open>SocketAncillary\<close> with the control-message code of
  \<open>src/zpr-ext/src/std/os/unix.rs\<close>. The layout of control messages (the \<open>CMSG_*\<close> functions of
  \<open>libc\<close>) and the system calls are parameters.
\<close>

section \<open>Descriptors\<close>

type_synonym i32 = "32 word"
type_synonym raw_fd = i32

text \<open>The process's table of open descriptors; an open descriptor refers to an open file.\<close>

type_synonym 'f fd_table = "raw_fd \<rightharpoonup> 'f"

datatype cow_fd = Borrowed (cow_raw: raw_fd) | Owned (cow_raw: raw_fd)

text \<open>
  \<open>fcntl(F_DUPFD_CLOEXEC)\<close> is a parameter \<open>dup\<close>: the table decides which number is used, or that the
  call fails. Duplicating a descriptor that is not open fails.
\<close>

datatype 'e io = Io_err 'e | Io_ok raw_fd

definition dup_fd :: "('f fd_table \<Rightarrow> raw_fd \<Rightarrow> 'e io) \<Rightarrow> raw_fd \<Rightarrow> 'f fd_table \<Rightarrow> 'f fd_table \<times> ('e + raw_fd)" where
  "dup_fd dup fd t =
     (case dup t fd of
        Io_err e \<Rightarrow> (t, Inl e)
      | Io_ok n \<Rightarrow> (t(n := t fd), Inr n))"

definition close_fd :: "raw_fd \<Rightarrow> 'f fd_table \<Rightarrow> 'f fd_table" where
  "close_fd fd t = t(fd := None)"

fun cow_try_clone :: "('f fd_table \<Rightarrow> raw_fd \<Rightarrow> 'e io) \<Rightarrow> cow_fd \<Rightarrow> 'f fd_table \<Rightarrow> 'f fd_table \<times> ('e + cow_fd)" where
  "cow_try_clone dup (Borrowed fd) t = (t, Inr (Borrowed fd))"
| "cow_try_clone dup (Owned fd) t =
     (case dup_fd dup fd t of (t', Inl e) \<Rightarrow> (t', Inl e) | (t', Inr n) \<Rightarrow> (t', Inr (Owned n)))"

fun cow_try_clone_to_owned :: "('f fd_table \<Rightarrow> raw_fd \<Rightarrow> 'e io) \<Rightarrow> cow_fd \<Rightarrow> 'f fd_table \<Rightarrow> 'f fd_table \<times> ('e + raw_fd)" where
  "cow_try_clone_to_owned dup (Borrowed fd) t = dup_fd dup fd t"
| "cow_try_clone_to_owned dup (Owned fd) t = dup_fd dup fd t"

fun cow_try_into_owned :: "('f fd_table \<Rightarrow> raw_fd \<Rightarrow> 'e io) \<Rightarrow> cow_fd \<Rightarrow> 'f fd_table \<Rightarrow> 'f fd_table \<times> ('e + raw_fd)" where
  "cow_try_into_owned dup (Borrowed fd) t = dup_fd dup fd t"
| "cow_try_into_owned dup (Owned fd) t = (t, Inr fd)"

fun cow_is_borrowed :: "cow_fd \<Rightarrow> bool" where
  "cow_is_borrowed (Borrowed _) = True" | "cow_is_borrowed (Owned _) = False"

fun cow_is_owned :: "cow_fd \<Rightarrow> bool" where
  "cow_is_owned (Borrowed _) = False" | "cow_is_owned (Owned _) = True"

definition cow_from_borrowed :: "raw_fd \<Rightarrow> cow_fd" where
  "cow_from_borrowed fd = Borrowed fd"

definition cow_from_owned :: "raw_fd \<Rightarrow> cow_fd" where
  "cow_from_owned fd = Owned fd"

definition cow_as_raw_fd :: "cow_fd \<Rightarrow> raw_fd" where
  "cow_as_raw_fd c = (case c of Borrowed fd \<Rightarrow> fd | Owned fd \<Rightarrow> fd)"

definition cow_from_raw_fd :: "raw_fd \<Rightarrow> cow_fd" where
  "cow_from_raw_fd fd = Owned fd"

text \<open>Dropping a \<open>CowFd\<close> closes an owned descriptor.\<close>

fun cow_drop :: "cow_fd \<Rightarrow> 'f fd_table \<Rightarrow> 'f fd_table" where
  "cow_drop (Borrowed _) t = t" | "cow_drop (Owned fd) t = close_fd fd t"

section \<open>Control messages\<close>

text \<open>
  The layout on the target: the size of a header (the offset of \<open>CMSG_DATA\<close>), \<open>CMSG_LEN\<close> and
  \<open>CMSG_SPACE\<close>, the bytes of a header (\<open>cmsg_len\<close>, \<open>cmsg_level\<close>, \<open>cmsg_type\<close>) and of a descriptor.
\<close>

record cmsg_abi =
  hdr_size :: nat
  CMSG_LEN :: "nat \<Rightarrow> nat"
  CMSG_SPACE :: "nat \<Rightarrow> nat"
  put_hdr :: "usize \<times> i32 \<times> i32 \<Rightarrow> u8 list"
  get_hdr :: "u8 list \<Rightarrow> usize \<times> i32 \<times> i32"
  put_fd :: "raw_fd \<Rightarrow> u8 list"
  get_fd :: "u8 list \<Rightarrow> raw_fd"
  SOL_SOCKET :: i32
  SCM_RIGHTS :: i32

abbreviation fd_size :: nat where "fd_size \<equiv> 4"

text \<open>
  What is documented of it: \<open>CMSG_LEN\<close> is header and payload, \<open>CMSG_SPACE\<close> at least that, sizes are
  fixed, and what is written can be read.
\<close>

definition abi_laws :: "cmsg_abi \<Rightarrow> bool" where
  "abi_laws abi \<longleftrightarrow>
     (\<forall>n. CMSG_LEN abi n = hdr_size abi + n) \<and> (\<forall>n. CMSG_LEN abi n \<le> CMSG_SPACE abi n) \<and>
     (\<forall>h. length (put_hdr abi h) = hdr_size abi) \<and> (\<forall>fd. length (put_fd abi fd) = fd_size) \<and>
     (\<forall>h bs. get_hdr abi (put_hdr abi h @ bs) = h) \<and> (\<forall>fd. get_fd abi (put_fd abi fd) = fd)"

section \<open>SocketAncillary\<close>

record ancillary =
  an_buffer :: "u8 list"
  an_fds :: "cow_fd list"

definition ancillary_new :: "u8 list \<Rightarrow> ancillary" where
  "ancillary_new buf = \<lparr>an_buffer = buf, an_fds = []\<rparr>"

definition add_fds :: "raw_fd list \<Rightarrow> ancillary \<Rightarrow> ancillary \<times> bool" where
  "add_fds fds a = (a\<lparr>an_fds := an_fds a @ map cow_from_borrowed fds\<rparr>, True)"

definition ancillary_clear :: "ancillary \<Rightarrow> ancillary" where
  "ancillary_clear a = a\<lparr>an_fds := []\<rparr>"

definition ancillary_is_empty :: "ancillary \<Rightarrow> bool" where
  "ancillary_is_empty a \<longleftrightarrow> an_fds a = []"

datatype ancillary_data = ScmRights "cow_fd list"

definition into_messages :: "ancillary \<Rightarrow> (unit + ancillary_data) list" where
  "into_messages a = (if an_fds a = [] then [] else [Inr (ScmRights (an_fds a))])"

text \<open>Overwriting the front of the buffer through a raw pointer: undefined beyond its end.\<close>

definition write_front :: "u8 list \<Rightarrow> u8 list \<Rightarrow> (u8 list) res" where
  "write_front bs buf = (if length bs \<le> length buf then Inr (bs @ drop (length bs) buf) else Inl Undefined)"

text \<open>The \<open>CMSG_*\<close> functions take a \<open>c_uint\<close>.\<close>

definition as_u32 :: "nat \<Rightarrow> nat" where
  "as_u32 n = n mod 2 ^ 32"

text \<open>
  \<open>sendmsg\<close> gets the control bytes it is pointed at (\<open>msg_controllen\<close> of them, read through the raw
  pointer) and returns its result; \<open>errno\<close> is what \<open>last_os_error\<close> reads afterwards.
\<close>

definition send_control :: "cmsg_abi \<Rightarrow> ancillary \<Rightarrow> (ancillary \<times> u8 list) res" where
  "send_control abi a =
     (let fds = map cow_as_raw_fd (an_fds a); fds_size = length fds * fd_size;
          controllen = CMSG_SPACE abi (as_u32 fds_size) in
      if fds_size > 0
      then rbind (write_front (put_hdr abi (word_of_nat (CMSG_LEN abi (as_u32 fds_size)), SOL_SOCKET abi, SCM_RIGHTS abi)
                     @ concat (map (put_fd abi) fds)) (an_buffer a)) (\<lambda>buf.
           if controllen \<le> length buf then Inr (a\<lparr>an_buffer := buf\<rparr>, take controllen buf) else Inl Undefined)
      else Inr (a, []))"

definition uds_send :: "cmsg_abi \<Rightarrow> (u8 list \<Rightarrow> int) \<Rightarrow> 'e \<Rightarrow> ancillary \<Rightarrow> (ancillary \<times> ('e + nat)) res" where
  "uds_send abi sendmsg errno a =
     rbind (send_control abi a) (\<lambda>(a', control).
     Inr (a', let res = sendmsg control in if res > 0 then Inr (nat res) else Inl errno))"

text \<open>
  \<open>recvmsg\<close> returns its result, the buffer as it left it and \<open>msg_controllen\<close> as it left it; on
  failure both are untouched. \<open>CMSG_FIRSTHDR\<close> is null when not even a header fits. Where the list of
  descriptors is replaced, the old ones are dropped; they are part of the result.
\<close>

fun chunks_of :: "nat \<Rightarrow> u8 list \<Rightarrow> u8 list list" where
  "chunks_of 0 bs = []"
| "chunks_of (Suc k) bs = take fd_size bs # chunks_of k (drop fd_size bs)"

definition received_fds :: "cmsg_abi \<Rightarrow> u8 list \<Rightarrow> nat \<Rightarrow> (cow_fd list option) res" where
  "received_fds abi buf controllen =
     (if controllen < hdr_size abi then Inr None
      else case get_hdr abi buf of (len, level, kind) \<Rightarrow>
        if level = SOL_SOCKET abi \<and> kind = SCM_RIGHTS abi then
          let size_of_hdr = 2 * CMSG_LEN abi fd_size - CMSG_LEN abi (2 * fd_size) in
          if unat len < size_of_hdr then Inl Panic_overflow
          else let num_fds = (unat len - size_of_hdr) div fd_size; data = drop (hdr_size abi) buf in
            if num_fds * fd_size \<le> length data
            then Inr (Some (map (cow_from_raw_fd \<circ> get_fd abi) (chunks_of num_fds data)))
            else Inl Undefined
        else Inr None)"

definition uds_recv :: "cmsg_abi \<Rightarrow> (u8 list \<Rightarrow> int \<times> u8 list \<times> nat) \<Rightarrow> 'e \<Rightarrow> ancillary \<Rightarrow>
    (ancillary \<times> cow_fd list \<times> ('e + nat)) res" where
  "uds_recv abi recvmsg errno a =
     (case recvmsg (an_buffer a) of (res, buf, controllen) \<Rightarrow>
      rbind (received_fds abi buf controllen) (\<lambda>new.
      Inr (case new of
             None \<Rightarrow> (a\<lparr>an_buffer := buf\<rparr>, [], if res > 0 then Inr (nat res) else Inl errno)
           | Some fds \<Rightarrow> (\<lparr>an_buffer = buf, an_fds = fds\<rparr>, an_fds a, if res > 0 then Inr (nat res) else Inl errno))))"

section \<open>Asynchronous sockets\<close>

text \<open>
  The loops of \<open>tokio.rs\<close>. The runtime supplies what happens in each round: the result of waiting for
  the socket, whether \<open>try_io\<close> finds the requested interest ready (if not it reports \<open>WouldBlock\<close>
  without calling the closure), and the outcome of the closure, which acts on the caller's state. A
  round that would block is followed by the next; \<open>None\<close> where the task still waits after the rounds
  given.
\<close>

fun retry_io :: "('e \<Rightarrow> bool) \<Rightarrow> (('e + unit) \<times> bool \<times> ('s \<Rightarrow> ('s \<times> ('e + 'r)) res)) list \<Rightarrow> 's \<Rightarrow>
    ('s \<times> ('e + 'r) option) res" where
  "retry_io would_block [] s = Inr (s, None)"
| "retry_io would_block ((Inl e, _, _) # rounds) s = Inr (s, Some (Inl e))"
| "retry_io would_block ((Inr _, False, _) # rounds) s = retry_io would_block rounds s"
| "retry_io would_block ((Inr _, True, closure) # rounds) s =
     rbind (closure s) (\<lambda>(s', r). case r of
        Inl e \<Rightarrow> if would_block e then retry_io would_block rounds s' else Inr (s', Some (Inl e))
      | Inr v \<Rightarrow> Inr (s', Some (Inr v)))"

definition async_send :: "cmsg_abi \<Rightarrow> ('e \<Rightarrow> bool) \<Rightarrow> (('e + unit) \<times> bool \<times> (u8 list \<Rightarrow> int) \<times> 'e) list \<Rightarrow> ancillary \<Rightarrow>
    (ancillary \<times> ('e + nat) option) res" where
  "async_send abi would_block rounds =
     retry_io would_block (map (\<lambda>(ready, writable, sendmsg, errno). (ready, writable, uds_send abi sendmsg errno)) rounds)"

text \<open>The state of the receiving loop has the descriptors that were dropped so far beside the list.\<close>

definition recv_round :: "cmsg_abi \<Rightarrow> (u8 list \<Rightarrow> int \<times> u8 list \<times> nat) \<Rightarrow> 'e \<Rightarrow> ancillary \<times> cow_fd list \<Rightarrow>
    ((ancillary \<times> cow_fd list) \<times> ('e + nat)) res" where
  "recv_round abi recvmsg errno = (\<lambda>(a, dropped).
     rbind (uds_recv abi recvmsg errno a) (\<lambda>(a', old, r). Inr ((a', dropped @ old), r)))"

definition async_recv :: "cmsg_abi \<Rightarrow> ('e \<Rightarrow> bool) \<Rightarrow> (('e + unit) \<times> bool \<times> (u8 list \<Rightarrow> int \<times> u8 list \<times> nat) \<times> 'e) list \<Rightarrow>
    ancillary \<times> cow_fd list \<Rightarrow> ((ancillary \<times> cow_fd list) \<times> ('e + nat) option) res" where
  "async_recv abi would_block rounds =
     retry_io would_block (map (\<lambda>(ready, writable, recvmsg, errno). (ready, writable, recv_round abi recvmsg errno)) rounds)"

section \<open>Properties of descriptor passing\<close>

lemma abi_lawsD:
  assumes "abi_laws abi"
  shows "CMSG_LEN abi n = hdr_size abi + n" and "hdr_size abi + n \<le> CMSG_SPACE abi n"
    and "length (put_hdr abi h) = hdr_size abi" and "length (put_fd abi fd) = fd_size"
    and "get_hdr abi (put_hdr abi h @ bs) = h" and "get_fd abi (put_fd abi fd) = fd"
  using assms unfolding abi_laws_def by metis+

definition rights_message :: "cmsg_abi \<Rightarrow> raw_fd list \<Rightarrow> u8 list" where
  "rights_message abi fds =
     put_hdr abi (word_of_nat (CMSG_LEN abi (length fds * fd_size)), SOL_SOCKET abi, SCM_RIGHTS abi) @ concat (map (put_fd abi) fds)"

lemma length_put_fds: "abi_laws abi \<Longrightarrow> length (concat (map (put_fd abi) fds)) = length fds * fd_size"
  by (induction fds) (simp_all add: abi_lawsD)

lemma length_rights: "abi_laws abi \<Longrightarrow> length (rights_message abi fds) = hdr_size abi + length fds * fd_size"
  by (simp only: rights_message_def length_append length_put_fds abi_lawsD(3))

lemma chunks_of_put_fds:
  assumes "abi_laws abi"
  shows "map (get_fd abi) (chunks_of (length fds) (concat (map (put_fd abi) fds) @ rest)) = fds"
  by (induction fds) (simp_all add: abi_lawsD(4,6) [OF assms])

text \<open>A buffer that starts with such a message is read back exactly.\<close>

lemma received_rights:
  assumes laws: "abi_laws abi" and len: "hdr_size abi \<le> n" and small: "hdr_size abi + length fds * fd_size < 2 ^ 64"
  shows "received_fds abi (rights_message abi fds @ rest) n = Inr (Some (map Owned fds))"
proof -
  define buf where "buf = rights_message abi fds @ rest"
  have data: "drop (hdr_size abi) buf = concat (map (put_fd abi) fds) @ rest"
    by (simp add: buf_def rights_message_def abi_lawsD(3) [OF laws])
  have hdr: "get_hdr abi buf = (word_of_nat (hdr_size abi + length fds * fd_size), SOL_SOCKET abi, SCM_RIGHTS abi)"
    by (simp add: buf_def rights_message_def abi_lawsD(1,5) [OF laws])
  have unat: "unat (word_of_nat (hdr_size abi + length fds * fd_size) :: usize) = hdr_size abi + length fds * fd_size"
    using small by (intro unat_of_nat_small) simp
  have size: "2 * CMSG_LEN abi fd_size - CMSG_LEN abi (2 * fd_size) = hdr_size abi"
    by (simp add: abi_lawsD(1) [OF laws])
  have "map (cow_from_raw_fd \<circ> get_fd abi) (chunks_of (length fds) (concat (map (put_fd abi) fds) @ rest)) =
      map Owned fds"
    unfolding map_map [symmetric] chunks_of_put_fds [OF laws] by (simp add: cow_from_raw_fd_def)
  then have "received_fds abi buf n = Inr (Some (map Owned fds))"
    using len unfolding received_fds_def hdr data size split_beta fst_conv snd_conv Let_def unat
    by (simp add: length_put_fds [OF laws])
  then show ?thesis by (simp add: buf_def)
qed

lemma send_control_eq:
  assumes "abi_laws abi" and "length (an_fds a) < 2 ^ 30"
  defines "fds \<equiv> map cow_as_raw_fd (an_fds a)"
  defines "msg \<equiv> rights_message abi fds" and "space \<equiv> CMSG_SPACE abi (length fds * fd_size)"
  shows "send_control abi a =
      (if fds = [] then Inr (a, [])
       else if length (an_buffer a) < space then Inl Undefined
       else let buf = msg @ drop (length msg) (an_buffer a) in Inr (a\<lparr>an_buffer := buf\<rparr>, take space buf))"
proof -
  have "length msg \<le> space"
    using abi_lawsD(2) [OF assms(1), of "length fds * fd_size"]
    by (simp only: msg_def space_def length_rights [OF assms(1)])
  moreover have u32: "as_u32 (length fds * fd_size) = length fds * fd_size"
    using assms(2) by (simp add: as_u32_def fds_def)
  ultimately show ?thesis
    unfolding send_control_def Let_def fds_def [symmetric] u32 rights_message_def [symmetric] msg_def [symmetric] space_def [symmetric]
    by (auto simp: write_front_def)
qed

lemma send_eq:
  assumes "abi_laws abi" and "length (an_fds a) < 2 ^ 30"
  defines "fds \<equiv> map cow_as_raw_fd (an_fds a)"
  defines "msg \<equiv> rights_message abi fds" and "space \<equiv> CMSG_SPACE abi (length fds * fd_size)"
  shows "uds_send abi sendmsg errno a =
      (if fds = [] then Inr (a, if sendmsg [] > 0 then Inr (nat (sendmsg [])) else Inl errno)
       else if length (an_buffer a) < space then Inl Undefined
       else let buf = msg @ drop (length msg) (an_buffer a) in
         Inr (a\<lparr>an_buffer := buf\<rparr>, if sendmsg (take space buf) > 0 then Inr (nat (sendmsg (take space buf))) else Inl errno))"
  unfolding uds_send_def send_control_eq [OF assms(1,2)] msg_def space_def fds_def by (simp add: Let_def)

lemma send_defined:
  assumes "abi_laws abi" and "length (an_fds a) < 2 ^ 30" and "an_fds a \<noteq> []" and "uds_send abi sendmsg errno a = Inr (a', r)"
  defines "msg \<equiv> rights_message abi (map cow_as_raw_fd (an_fds a))"
  shows "an_buffer a' = msg @ drop (length msg) (an_buffer a)"
  using assms(3,4) unfolding send_eq [OF assms(1,2)] msg_def [symmetric] Let_def by (auto split: if_splits)

lemma send_room:
  assumes "abi_laws abi" and "length (an_fds a) < 2 ^ 30" and "an_fds a \<noteq> []"
    and "CMSG_SPACE abi (length (an_fds a) * fd_size) \<le> length (an_buffer a)" and "\<And>control. sendmsg control = k" and "0 < k"
  shows "\<exists>a'. uds_send abi sendmsg errno a = Inr (a', Inr (nat k))"
  using assms(3-6) unfolding send_eq [OF assms(1,2)] by (simp add: Let_def)


section \<open>The layout of a 64-bit little-endian target\<close>

definition le32 :: "32 word \<Rightarrow> u8 list" where
  "le32 w = [ucast w, ucast (drop_bit 8 w), ucast (drop_bit 16 w), ucast (drop_bit 24 w)]"

definition of_le32 :: "u8 list \<Rightarrow> 32 word" where
  "of_le32 bs = ucast (bs ! 0) OR push_bit 8 (ucast (bs ! 1)) OR push_bit 16 (ucast (bs ! 2)) OR push_bit 24 (ucast (bs ! 3))"

lemma of_le32_append: "of_le32 (le32 w @ bs) = w"
proof (rule bit_word_eqI)
  fix n assume n: "n < LENGTH(32)"
  have eq: "of_le32 (le32 w @ bs) = ucast (ucast w :: u8) OR push_bit 8 (ucast (ucast (drop_bit 8 w) :: u8))
      OR push_bit 16 (ucast (ucast (drop_bit 16 w) :: u8)) OR push_bit 24 (ucast (ucast (drop_bit 24 w) :: u8))"
    by (simp add: of_le32_def le32_def)
  have idx: "k \<le> n \<and> R \<and> Q \<and> bit w (k + (n - k)) \<longleftrightarrow> k \<le> n \<and> R \<and> Q \<and> bit w n" for k R Q
    by (cases "k \<le> n") simp_all
  have "bit (of_le32 (le32 w @ bs)) n \<longleftrightarrow> n < 8 \<and> bit w n \<or> 8 \<le> n \<and> n - 8 < 32 \<and> n - 8 < 8 \<and> bit w (8 + (n - 8)) \<or>
     16 \<le> n \<and> n - 16 < 32 \<and> n - 16 < 8 \<and> bit w (16 + (n - 16)) \<or> 24 \<le> n \<and> n - 24 < 32 \<and> n - 24 < 8 \<and> bit w (24 + (n - 24))"
    using n unfolding eq by (simp add: bit_simps)
  moreover have "n < 8 \<or> 8 \<le> n \<and> n - 8 < 32 \<and> n - 8 < 8 \<or> 16 \<le> n \<and> n - 16 < 32 \<and> n - 16 < 8 \<or>
     24 \<le> n \<and> n - 24 < 32 \<and> n - 24 < 8"
  proof -
    have "n < 32" using n by simp
    then show ?thesis by presburger
  qed
  ultimately show "bit (of_le32 (le32 w @ bs)) n = bit w n"
    unfolding idx by blast
qed

lemma split64: "ucast (ucast w :: 32 word) OR push_bit 32 (ucast (ucast (drop_bit 32 w) :: 32 word)) = (w :: 64 word)"
  by (rule bit_word_eqI) (auto simp: bit_simps)

definition linux64 :: cmsg_abi where
  "linux64 = \<lparr>hdr_size = 16, CMSG_LEN = (\<lambda>n. 16 + n), CMSG_SPACE = (\<lambda>n. 16 + (n + 7) div 8 * 8),
     put_hdr = (\<lambda>(len, level, kind). le32 (ucast len) @ le32 (ucast (drop_bit 32 len)) @ le32 level @ le32 kind),
     get_hdr = (\<lambda>bs. (ucast (of_le32 bs) OR push_bit 32 (ucast (of_le32 (drop 4 bs))),
        of_le32 (drop 8 bs), of_le32 (drop 12 bs))),
     put_fd = le32, get_fd = of_le32, SOL_SOCKET = 1, SCM_RIGHTS = 1\<rparr>"

lemma linux64_hdr: "hdr_size linux64 = 16"
  by (simp add: linux64_def)

lemma length_le32 [simp]: "length (le32 w) = 4"
  by (simp add: le32_def)

lemma linux64_laws: "abi_laws linux64"
proof -
  have "n \<le> (n + 7) div 8 * 8" for n :: nat by linarith
  moreover have "of_le32 (le32 w) = w" for w using of_le32_append [of w "[]"] by simp
  ultimately show ?thesis by (simp add: abi_laws_def linux64_def of_le32_append split64)
qed


text \<open>
  Descriptors arrive as they were sent: if the peer sends descriptors and the kernel delivers
  the message with the numbers it chose for them in the receiver's process, in order, then the
  receiver's list is exactly these, all owned, and its iterator of messages yields them once. The
  header size that the code computes from two values of \<open>CMSG_LEN\<close> is the right one.
\<close>

theorem received_as_sent:
  assumes "abi_laws abi" and "length (an_fds a) < 2 ^ 30" and "hdr_size abi < 2 ^ 32" and "an_fds a \<noteq> []"
    and "uds_send abi sendmsg errno a = Inr (a', Inr n)"
    and "length new = length (an_fds a)" and "0 < k" and "hdr_size abi \<le> controllen"
    and "recvmsg (an_buffer b) = (k, rights_message abi new @ rest, controllen)"
  shows "take (CMSG_LEN abi (length (an_fds a) * fd_size)) (an_buffer a') = rights_message abi (map cow_as_raw_fd (an_fds a)) \<and>
    uds_recv abi recvmsg errno' b =
      Inr (\<lparr>an_buffer = rights_message abi new @ rest, an_fds = map Owned new\<rparr>, an_fds b, Inr (nat k)) \<and>
    into_messages \<lparr>an_buffer = rights_message abi new @ rest, an_fds = map Owned new\<rparr> = [Inr (ScmRights (map Owned new))]"
proof -
  have small: "hdr_size abi + length new * fd_size < 2 ^ 64" using assms(2,3,6) by simp
  define msg where "msg = rights_message abi (map cow_as_raw_fd (an_fds a))"
  have "an_buffer a' = msg @ drop (length msg) (an_buffer a)"
    using send_defined [OF assms(1,2,4,5)] by (simp add: msg_def)
  then have "take (CMSG_LEN abi (length (an_fds a) * fd_size)) (an_buffer a') = msg"
    by (simp add: msg_def length_rights [OF assms(1)] abi_lawsD(1) [OF assms(1)])
  moreover have "new \<noteq> []" using assms(4,6) by auto
  ultimately show ?thesis
    using received_rights [OF assms(1,8) small, of rest] assms(7,9)
    by (simp add: uds_recv_def into_messages_def msg_def)
qed


theorem received_as_sent_witness:
  "let a = \<lparr>an_buffer = replicate 24 0, an_fds = [Borrowed 3]\<rparr>;
       b = \<lparr>an_buffer = replicate 24 0, an_fds = []\<rparr> in
   uds_recv linux64 (\<lambda>_. (1, rights_message linux64 [9] @ replicate 4 0, 24)) () b =
     Inr (\<lparr>an_buffer = rights_message linux64 [9] @ replicate 4 0, an_fds = [Owned 9]\<rparr>, [], Inr 1)"
proof -
  define a where "a = \<lparr>an_buffer = replicate 24 0, an_fds = [Borrowed 3]\<rparr>"
  have "\<exists>a'. uds_send linux64 (\<lambda>_. 1) () a = Inr (a', Inr 1)"
    using send_room [OF linux64_laws, of a "\<lambda>_. 1" 1 "()"] by (simp add: a_def linux64_def)
  then obtain a' where sent: "uds_send linux64 (\<lambda>_. 1) () a = Inr (a', Inr 1)" ..
  have "uds_recv linux64 (\<lambda>_. (1, rights_message linux64 [9] @ replicate 4 0, 24)) () \<lparr>an_buffer = replicate 24 0, an_fds = []\<rparr> =
     Inr (\<lparr>an_buffer = rights_message linux64 [9] @ replicate 4 0, an_fds = map Owned [9]\<rparr>, [], Inr (nat 1))"
    using received_as_sent [OF linux64_laws _ _ _ sent, of "[9]" 1 24 "\<lambda>_. (1, rights_message linux64 [9] @ replicate 4 0, 24)"
        "\<lparr>an_buffer = replicate 24 0, an_fds = []\<rparr>" "replicate 4 0" "()"]
    by (simp add: a_def linux64_def)
  then show ?thesis by simp
qed

section \<open>Retrying\<close>

text \<open>Rounds that end in \<open>WouldBlock\<close> without a result, and what they leave of the state.\<close>

lemma retry_io_blocked:
  assumes "\<forall>(ready, on, closure) \<in> set rounds. ready = Inr () \<and>
      (on \<longrightarrow> (\<forall>s \<in> S. \<exists>s' \<in> S. \<exists>e. closure s = Inr (s', Inl e) \<and> would_block e))" and "s \<in> S"
  shows "\<exists>s' \<in> S. retry_io would_block (rounds @ others) s = retry_io would_block others s'"
  using assms
proof (induction rounds arbitrary: s)
  case Nil
  then show ?case by auto
next
  case (Cons r rounds)
  obtain ready on closure where r: "r = (ready, on, closure)" by (cases r)
  show ?case
  proof (cases on)
    case True
    then obtain s' e where "s' \<in> S" "closure s = Inr (s', Inl e)" "would_block e" using Cons.prems r by auto
    then show ?thesis using Cons r True by auto
  next
    case False
    then show ?thesis using Cons r by auto
  qed
qed

text \<open>A call of \<open>send\<close> that fails leaves the buffer as the call that succeeds would.\<close>

definition send_blocks :: "('e \<Rightarrow> bool) \<Rightarrow> ('e + unit) \<times> bool \<times> (u8 list \<Rightarrow> int) \<times> 'e \<Rightarrow> bool" where
  "send_blocks would_block = (\<lambda>(ready, writable, sendmsg, errno).
     ready = Inr () \<and> (writable \<longrightarrow> (\<forall>control. sendmsg control \<le> 0) \<and> would_block errno))"

lemma resend:
  assumes "abi_laws abi" and "length (an_fds a) < 2 ^ 30" and "uds_send abi sendmsg errno a = Inr (a', r)"
  shows "uds_send abi sendmsg' errno' a' = uds_send abi sendmsg' errno' a" and "an_fds a' = an_fds a"
proof -
  define msg where "msg = rights_message abi (map cow_as_raw_fd (an_fds a))"
  have a': "an_fds a' = an_fds a \<and> (an_fds a = [] \<and> a' = a \<or> an_fds a \<noteq> [] \<and>
      \<not> length (an_buffer a) < CMSG_SPACE abi (length (an_fds a) * fd_size) \<and> a' = a\<lparr>an_buffer := msg @ drop (length msg) (an_buffer a)\<rparr>)"
    using assms(3) unfolding send_eq [OF assms(1,2)] msg_def [symmetric] Let_def by (auto split: if_splits)
  then show "an_fds a' = an_fds a" by simp
  have "length msg \<le> CMSG_SPACE abi (length (an_fds a) * fd_size)"
    using abi_lawsD(2) [OF assms(1), of "length (an_fds a) * fd_size"] by (simp add: msg_def length_rights [OF assms(1)])
  with a' show "uds_send abi sendmsg' errno' a' = uds_send abi sendmsg' errno' a"
    using assms(2) by (auto simp: send_eq [OF assms(1)] msg_def [symmetric] Let_def)
qed

text \<open>
  Sending from a task: however many rounds would block first, and whatever is ready in them, the
  task's call ends with the outcome and the state of the one call that goes through.
\<close>

theorem async_send_once:
  assumes "abi_laws abi" and "length (an_fds a) < 2 ^ 30" and "\<forall>r \<in> set blocked. send_blocks would_block r"
    and "uds_send abi sendmsg errno a = Inr (a', Inr n)"
  shows "async_send abi would_block (blocked @ (Inr (), True, sendmsg, errno) # later) a = Inr (a', Some (Inr n))"
proof -
  define S where "S = {s. an_fds s = an_fds a \<and> (\<forall>sm er. uds_send abi sm er s = uds_send abi sm (er :: 'a) a)}"
  have step: "\<exists>s' \<in> S. \<exists>e. uds_send abi sm er s = Inr (s', Inl e) \<and> would_block e"
    if s: "s \<in> S" and block: "\<forall>control. sm control \<le> 0" "would_block er" for s sm er
  proof -
    have "uds_send abi sendmsg errno s = Inr (a', Inr n)" using s assms(4) by (simp add: S_def)
    then obtain s' where s': "uds_send abi sm er s = Inr (s', Inl er)"
      using s assms(2) block(1) unfolding S_def
      by (auto simp: send_eq [OF assms(1)] Let_def not_less [symmetric] split: if_splits)
    have len: "length (an_fds s) < 2 ^ 30" using s assms(2) by (simp add: S_def)
    have "uds_send abi f x s' = uds_send abi f x s" for f and x :: 'a
      by (rule resend(1) [OF assms(1) len s'])
    then have "s' \<in> S" using resend(2) [OF assms(1) len s'] s by (simp add: S_def)
    then show ?thesis using s' block(2) by blast
  qed
  define rounds where "rounds = map (\<lambda>(ready, writable, sendmsg, errno). (ready, writable, uds_send abi sendmsg errno)) blocked"
  define others where "others = map (\<lambda>(ready, writable, sendmsg, errno). (ready, writable, uds_send abi sendmsg errno)) later"
  have "\<exists>s' \<in> S. retry_io would_block (rounds @ (Inr (), True, uds_send abi sendmsg errno) # others) a =
      retry_io would_block ((Inr (), True, uds_send abi sendmsg errno) # others) s'"
  proof (rule retry_io_blocked)
    show "\<forall>(ready, on, closure) \<in> set rounds. ready = Inr () \<and>
        (on \<longrightarrow> (\<forall>s \<in> S. \<exists>s' \<in> S. \<exists>e. closure s = Inr (s', Inl e) \<and> would_block e))"
      using assms(3) step by (fastforce simp: rounds_def send_blocks_def)
  qed (simp add: S_def)
  then obtain s' where "s' \<in> S" and
      "retry_io would_block (rounds @ (Inr (), True, uds_send abi sendmsg errno) # others) a =
       retry_io would_block ((Inr (), True, uds_send abi sendmsg errno) # others) s'" by blast
  then show ?thesis using assms(4) by (simp add: S_def async_send_def rounds_def others_def)
qed

theorem async_send_once_witness:
  "\<exists>a'. async_send linux64 (\<lambda>e. e = ''EAGAIN'')
     [(Inr (), False, \<lambda>_. 0, ''''), (Inr (), True, \<lambda>_. - 1, ''EAGAIN''), (Inr (), True, \<lambda>_. 5, '''')]
     \<lparr>an_buffer = replicate 24 0, an_fds = [Borrowed 3]\<rparr> = Inr (a', Some (Inr 5))"
proof -
  define a where "a = \<lparr>an_buffer = replicate 24 0, an_fds = [Borrowed 3]\<rparr>"
  have "\<exists>a'. uds_send linux64 (\<lambda>_. 5) ([] :: string) a = Inr (a', Inr 5)"
    using send_room [OF linux64_laws, of a "\<lambda>_. 5" 5 "[] :: string"] by (simp add: a_def linux64_def)
  then obtain a' where "uds_send linux64 (\<lambda>_. 5) ([] :: string) a = Inr (a', Inr 5)" ..
  from async_send_once [OF linux64_laws _ _ this, of "[(Inr (), False, \<lambda>_. 0, ''''), (Inr (), True, \<lambda>_. - 1, ''EAGAIN'')]"
      "\<lambda>e. e = ''EAGAIN''" "[]"]
  show ?thesis by (auto simp: a_def send_blocks_def)
qed

text \<open>A failing \<open>recvmsg\<close> leaves the control buffer and its length as they were.\<close>

definition recv_blocks :: "('e \<Rightarrow> bool) \<Rightarrow> ('e + unit) \<times> bool \<times> (u8 list \<Rightarrow> int \<times> u8 list \<times> nat) \<times> 'e \<Rightarrow> bool" where
  "recv_blocks would_block = (\<lambda>(ready, writable, recvmsg, errno).
     ready = Inr () \<and> (writable \<longrightarrow> (\<forall>buf. recvmsg buf = (- 1, buf, length buf)) \<and> would_block errno))"

lemma async_recv_fresh:
  assumes fresh: "received_fds abi (an_buffer a) (length (an_buffer a)) = Inr None"
    and blocked: "\<forall>r \<in> set blocked. recv_blocks would_block r"
    and last: "uds_recv abi recvmsg errno a = Inr (a', old, Inr n)"
  shows "async_recv abi would_block (blocked @ (Inr (), True, recvmsg, errno) # later) (a, []) = Inr ((a', old), Some (Inr n))"
proof -
  define rounds where "rounds = map (\<lambda>(ready, writable, recvmsg, errno). (ready, writable, recv_round abi recvmsg errno)) blocked"
  have "\<exists>s' \<in> {(a, [])}. retry_io would_block (rounds @ others) (a, []) = retry_io would_block others s'" for others
  proof (rule retry_io_blocked)
    show "\<forall>(ready, on, closure) \<in> set rounds. ready = Inr () \<and>
        (on \<longrightarrow> (\<forall>s \<in> {(a, [])}. \<exists>s' \<in> {(a, [])}. \<exists>e. closure s = Inr (s', Inl e) \<and> would_block e))"
      using blocked fresh by (fastforce simp: rounds_def recv_blocks_def recv_round_def uds_recv_def)
  qed simp
  then show ?thesis
    using last unfolding async_recv_def by (simp add: rounds_def recv_round_def)
qed

lemma async_recv_stale:
  assumes "abi_laws abi" and "hdr_size abi + length fds * fd_size < 2 ^ 64" and "would_block errno"
    and buf_def: "buf = rights_message abi fds @ rest"
  shows "async_recv abi would_block (replicate j (Inr (), True, \<lambda>buf. (- 1, buf, length buf), errno))
      (\<lparr>an_buffer = buf, an_fds = map Owned fds\<rparr>, dropped) =
    Inr ((\<lparr>an_buffer = buf, an_fds = map Owned fds\<rparr>, dropped @ concat (replicate j (map Owned fds))), None)"
proof (induction j arbitrary: dropped)
  case (Suc j)
  have "received_fds abi buf (length buf) = Inr (Some (map Owned fds))"
    using received_rights [OF assms(1) _ assms(2)] by (simp add: buf_def length_rights [OF assms(1)])
  then show ?case
    using Suc [of "dropped @ map Owned fds"] assms(3) by (simp add: async_recv_def recv_round_def uds_recv_def)
qed (simp add: async_recv_def)

text \<open>
  C35. Receiving into a task. When the control buffer holds no message of descriptors beforehand, rounds
  that would block change nothing and the call ends like the one call that goes through. When the
  buffer still holds an earlier message, every round that would block takes the descriptors of that
  message as its own, and the next one drops, that is closes, them: after \<open>j + 1\<close> such rounds the
  descriptors the caller had and \<open>j\<close> times those of the old message have been closed, although
  nothing was received.
\<close>

theorem async_recv_retries:
  assumes "abi_laws abi" and "hdr_size abi + length fds * fd_size < 2 ^ 64" and "would_block errno'"
    and "received_fds abi (an_buffer a) (length (an_buffer a)) = Inr None"
    and "\<forall>r \<in> set blocked. recv_blocks would_block r"
    and "uds_recv abi recvmsg errno a = Inr (a', old, Inr n)"
  shows "async_recv abi would_block (blocked @ (Inr (), True, recvmsg, errno) # later) (a, []) = Inr ((a', old), Some (Inr n)) \<and>
    async_recv abi would_block (replicate (Suc j) (Inr (), True, \<lambda>buf. (- 1, buf, length buf), errno'))
      (\<lparr>an_buffer = rights_message abi fds @ rest, an_fds = own\<rparr>, []) =
    Inr ((\<lparr>an_buffer = rights_message abi fds @ rest, an_fds = map Owned fds\<rparr>, own @ concat (replicate j (map Owned fds))), None)"
proof (rule conjI)
  have "received_fds abi (rights_message abi fds @ rest) (length (rights_message abi fds @ rest)) = Inr (Some (map Owned fds))"
    using received_rights [OF assms(1) _ assms(2)] by (simp add: length_rights [OF assms(1)])
  then show "async_recv abi would_block (replicate (Suc j) (Inr (), True, \<lambda>buf. (- 1, buf, length buf), errno'))
      (\<lparr>an_buffer = rights_message abi fds @ rest, an_fds = own\<rparr>, []) =
    Inr ((\<lparr>an_buffer = rights_message abi fds @ rest, an_fds = map Owned fds\<rparr>, own @ concat (replicate j (map Owned fds))), None)"
    using async_recv_stale [where would_block = would_block, OF assms(1-3) refl, of j rest own] assms(3)
    by (simp add: async_recv_def recv_round_def uds_recv_def)
qed (rule async_recv_fresh [OF assms(4-6)])

theorem async_recv_retries_witness:
  "async_recv linux64 (\<lambda>e. e = ''EAGAIN'') [(Inr (), True, \<lambda>buf. (- 1, buf, length buf), ''EAGAIN''), (Inr (), True, \<lambda>buf. (3, buf, 0), '''')]
     (\<lparr>an_buffer = [], an_fds = []\<rparr>, []) = Inr ((\<lparr>an_buffer = [], an_fds = []\<rparr>, []), Some (Inr 3)) \<and>
   async_recv linux64 (\<lambda>e. e = ''EAGAIN'') (replicate 2 (Inr (), True, \<lambda>buf. (- 1, buf, length buf), ''EAGAIN''))
     (\<lparr>an_buffer = rights_message linux64 [7], an_fds = []\<rparr>, []) =
     Inr ((\<lparr>an_buffer = rights_message linux64 [7], an_fds = [Owned 7]\<rparr>, [Owned 7]), None)"
proof -
  have recv: "uds_recv linux64 (\<lambda>buf. (3, buf, 0)) '''' \<lparr>an_buffer = [], an_fds = []\<rparr> = Inr (\<lparr>an_buffer = [], an_fds = []\<rparr>, [], Inr 3)"
    by (simp add: uds_recv_def received_fds_def linux64_def)
  have two: "replicate 2 x = replicate (Suc 1) x" for x :: "(string + unit) \<times> bool \<times> (u8 list \<Rightarrow> int \<times> u8 list \<times> nat) \<times> string"
    by (simp add: numeral_2_eq_2)
  show ?thesis
    unfolding two
    using async_recv_retries [OF linux64_laws _ _ _ _ recv, of "[7]" "\<lambda>e. e = ''EAGAIN''" "''EAGAIN''"
        "[(Inr (), True, \<lambda>buf. (- 1, buf, length buf), ''EAGAIN'')]" "[]" 1 "[]" "[]"]
    by (simp add: received_fds_def recv_blocks_def linux64_hdr)
qed

section \<open>Owned and borrowed descriptors\<close>

text \<open>
  What is documented of \<open>fcntl(F_DUPFD_CLOEXEC)\<close>: it succeeds on open descriptors only and uses a number
  that is not open.
\<close>

definition dup_laws :: "('f fd_table \<Rightarrow> raw_fd \<Rightarrow> 'e io) \<Rightarrow> bool" where
  "dup_laws dup \<longleftrightarrow> (\<forall>t fd n. dup t fd = Io_ok n \<longrightarrow> t n = None \<and> t fd \<noteq> None)"

lemma dup_fd_outcome:
  assumes "dup_laws dup" and "t fd = Some f" and "dup_fd dup fd t = (t', r)"
  shows "(\<exists>e. r = Inl e \<and> t' = t) \<or>
     (\<exists>n. r = Inr n \<and> n \<noteq> fd \<and> t' n = Some f \<and> t' fd = Some f \<and> close_fd n t' = t \<and> close_fd fd t' n = Some f)"
proof (cases "dup t fd")
  case (Io_ok n)
  with assms(1) have n: "t n = None" unfolding dup_laws_def by blast
  then have "n \<noteq> fd" using assms(2) by auto
  moreover have t': "t' = t(n := t fd)" "r = Inr n" using assms(3) Io_ok by (simp_all add: dup_fd_def)
  moreover have "close_fd n t' = t" using n by (simp add: t' close_fd_def fun_upd_idem)
  ultimately show ?thesis using assms(2) by (simp add: close_fd_def)
qed (use assms(3) in \<open>auto simp: dup_fd_def\<close>)

text \<open>
  C36. The operations of a \<open>CowFd\<close> on an open descriptor. An owned copy is another number open on the same
  file, and closing either leaves the other open; converting duplicates a borrowed descriptor only;
  cloning keeps the kind, and dropping the clone undoes it. Failures change nothing, and cloning a
  borrowed and converting an owned descriptor cannot fail.
\<close>

theorem cow_fd_ownership:
  assumes "dup_laws dup" and "t (cow_as_raw_fd c) = Some f"
  shows "(case cow_try_clone_to_owned dup c t of
       (t', Inl e) \<Rightarrow> t' = t
     | (t', Inr n) \<Rightarrow> n \<noteq> cow_as_raw_fd c \<and> t' n = Some f \<and> close_fd n t' = t \<and> cow_drop c t' n = Some f) \<and>
    (case cow_try_into_owned dup c t of
       (t', Inl e) \<Rightarrow> t' = t \<and> cow_is_borrowed c
     | (t', Inr n) \<Rightarrow> t' n = Some f \<and> (n = cow_as_raw_fd c \<longleftrightarrow> cow_is_owned c) \<and> (close_fd n t' = t \<longleftrightarrow> cow_is_borrowed c)) \<and>
    (case cow_try_clone dup c t of
       (t', Inl e) \<Rightarrow> t' = t \<and> cow_is_owned c
     | (t', Inr d) \<Rightarrow> cow_is_owned d = cow_is_owned c \<and> t' (cow_as_raw_fd d) = Some f \<and> cow_drop d t' = t \<and>
         (cow_is_owned c \<longrightarrow> cow_as_raw_fd d \<noteq> cow_as_raw_fd c))"
proof -
  define fd where "fd = cow_as_raw_fd c"
  obtain t' r where dup: "dup_fd dup fd t = (t', r)" by (cases "dup_fd dup fd t")
  have fd: "t fd = Some f" using assms(2) by (simp add: fd_def)
  have "close_fd fd t \<noteq> t" using fd by (auto simp: close_fd_def fun_upd_idem_iff)
  then show ?thesis
    using dup_fd_outcome [OF assms(1) fd dup] dup fd
    by (cases c) (auto simp: fd_def cow_as_raw_fd_def)
qed

theorem cow_fd_ownership_witness:
  "cow_try_into_owned (\<lambda>t fd. if t fd = None then Io_err ''EBADF'' else if t 4 = None then Io_ok 4 else Io_err ''EMFILE'') (Borrowed 3) [3 \<mapsto> ''file'']
     = ([3 \<mapsto> ''file'', 4 \<mapsto> ''file''], Inr 4) \<and> close_fd 4 [3 \<mapsto> ''file'', 4 \<mapsto> ''file''] = [3 \<mapsto> ''file'']"
proof -
  define dup :: "string fd_table \<Rightarrow> raw_fd \<Rightarrow> string io" where
    "dup = (\<lambda>t fd. if t fd = None then Io_err ''EBADF'' else if t 4 = None then Io_ok 4 else Io_err ''EMFILE'')"
  have "dup_laws dup" by (auto simp: dup_laws_def dup_def)
  moreover have "cow_try_into_owned dup (Borrowed 3) [3 \<mapsto> ''file''] = ([3 \<mapsto> ''file'', 4 \<mapsto> ''file''], Inr 4)"
    by (simp add: dup_def dup_fd_def)
  ultimately show ?thesis
    using cow_fd_ownership [of dup "[3 \<mapsto> ''file'']" "Borrowed 3" "''file''"]
    by (auto simp: cow_as_raw_fd_def dup_def)
qed

end
