(* ===== verification/Ancillary_Stream.thy ===== *)
theory Ancillary_Stream
  imports Ancillary Test_Actions
begin

text \<open>
  Descriptor passing from one end of a socket to the other: the methods of \<open>UnixStreamExt\<close> for the streams
  of the standard library (\<open>src/zpr-ext/src/std/os/unix.rs\<close>) and of \<open>tokio\<close> (\<open>src/zpr-ext/src/tokio.rs\<close>) with
  payloads and the state of the operating system, which is a parameter; that what is sent arrives; and the
  tests of the two files.
\<close>

section \<open>The operating system\<close>

text \<open>
  The calls that are used, on states \<open>'w\<close> of the system, and what is observed of a state: the open files
  \<open>'f\<close> of the process's descriptors, the peer of a socket, and the messages that wait at a socket, each with
  its bytes and the open files it carries, and the files that are the device \<open>/dev/zero\<close>. \<open>k_room\<close> says that so many more descriptors can be opened,
  \<open>k_limit\<close> how many bytes a socket takes at once.
\<close>

record ('w, 'f, 'e) unix_kernel =
  k_open :: "string \<Rightarrow> 'w \<Rightarrow> 'w \<times> ('e + raw_fd)"
  k_socketpair :: "'w \<Rightarrow> 'w \<times> ('e + raw_fd \<times> raw_fd)"
  k_sendmsg :: "raw_fd \<Rightarrow> u8 list list \<Rightarrow> u8 list \<Rightarrow> 'w \<Rightarrow> 'w \<times> int"
  k_recvmsg :: "raw_fd \<Rightarrow> u8 list list \<Rightarrow> u8 list \<Rightarrow> 'w \<Rightarrow> 'w \<times> int \<times> u8 list list \<times> u8 list \<times> nat"
  k_dup :: "raw_fd \<Rightarrow> 'w \<Rightarrow> 'w \<times> ('e + raw_fd)"
  k_read :: "raw_fd \<Rightarrow> nat \<Rightarrow> 'w \<Rightarrow> 'w \<times> ('e + u8 list)"
  k_close :: "raw_fd \<Rightarrow> 'w \<Rightarrow> 'w"
  k_errno :: "'w \<Rightarrow> 'e"
  k_files :: "'w \<Rightarrow> 'f fd_table"
  k_peer :: "'w \<Rightarrow> 'f \<rightharpoonup> 'f"
  k_inbox :: "'w \<Rightarrow> 'f \<Rightarrow> (u8 list \<times> 'f list) list"
  k_zero :: "'f \<Rightarrow> bool"
  k_room :: "'w \<Rightarrow> nat \<Rightarrow> bool"
  k_limit :: nat

section \<open>Streams of the standard library\<close>

text \<open>
  \<open>uds_send_vectored_with_ancillary\<close> and its counterpart around the system call. Where receiving replaces the
  list of descriptors, the old ones are dropped.
\<close>

definition send_vectored_with_ancillary ::
  "('w, 'f, 'e) unix_kernel \<Rightarrow> cmsg_abi \<Rightarrow> raw_fd \<Rightarrow> u8 list list \<Rightarrow> ancillary \<Rightarrow> ('w, ancillary \<times> ('e + nat)) act" where
  "send_vectored_with_ancillary K abi s bufs a w =
     (case send_control abi a of
        Inl e \<Rightarrow> (w, Inl e)
      | Inr (_, control) \<Rightarrow>
        (case k_sendmsg K s bufs control w of (w', res) \<Rightarrow> (w', uds_send abi (\<lambda>_. res) (k_errno K w') a)))"

fun drop_cow :: "('w, 'f, 'e) unix_kernel \<Rightarrow> cow_fd \<Rightarrow> 'w \<Rightarrow> 'w" where
  "drop_cow K (Borrowed _) w = w" | "drop_cow K (Owned fd) w = k_close K fd w"

definition recv_vectored_with_ancillary ::
  "('w, 'f, 'e) unix_kernel \<Rightarrow> cmsg_abi \<Rightarrow> raw_fd \<Rightarrow> u8 list list \<Rightarrow> ancillary \<Rightarrow>
    ('w, u8 list list \<times> ancillary \<times> ('e + nat)) act" where
  "recv_vectored_with_ancillary K abi s bufs a w =
     (case k_recvmsg K s bufs (an_buffer a) w of (w', res, bufs', buf, controllen) \<Rightarrow>
      (case uds_recv abi (\<lambda>_. (res, buf, controllen)) (k_errno K w') a of
         Inl e \<Rightarrow> (w', Inl e)
       | Inr (a', old, r) \<Rightarrow> (fold (drop_cow K) old w', Inr (bufs', a', r))))"

section \<open>What the system documents\<close>

text \<open>Writing received bytes into the buffers of a vectored read.\<close>

fun scatter :: "u8 list \<Rightarrow> u8 list list \<Rightarrow> u8 list list" where
  "scatter data [] = []"
| "scatter data (b # bs) = (take (length b) data @ drop (length data) b) # scatter (drop (length b) data) bs"

lemma concat_scatter:
  assumes "length data \<le> length (concat bufs)"
  shows "concat (scatter data bufs) = data @ drop (length data) (concat bufs)"
  using assms
proof (induction bufs arbitrary: data)
  case (Cons b bs)
  then have "concat (scatter (drop (length b) data) bs) = drop (length b) data @ drop (length data - length b) (concat bs)"
    by simp
  then show ?case by (cases "length data \<le> length b") simp_all
qed simp

text \<open>
  \<open>unix(7)\<close>, \<open>sendmsg(2)\<close>, \<open>recvmsg(2)\<close>: a message within the limits, to a peer with nothing waiting, is taken
  whole, with the open files that its control message names. The message that is waiting is received
  whole where buffers and control buffer have room for it: its files get descriptors that were not
  open, which the control message lists. A socket without messages, in non-blocking mode, makes the call fail
  and leave everything as it is.
\<close>

definition send_law :: "('w, 'f, 'e) unix_kernel \<Rightarrow> cmsg_abi \<Rightarrow> bool" where
  "send_law K abi \<longleftrightarrow> (\<forall>w s f g bufs fds fs pad.
     k_files K w s = Some f \<and> k_peer K w f = Some g \<and> k_inbox K w g = [] \<and> map (k_files K w) fds = map Some fs \<and> length fds < 2 ^ 30 \<and>
     concat bufs \<noteq> [] \<and> length (concat bufs) \<le> k_limit K \<longrightarrow>
     (\<exists>w'. k_sendmsg K s bufs (if fds = [] then [] else rights_message abi fds @ pad) w = (w', int (length (concat bufs))) \<and>
        k_inbox K w' g = [(concat bufs, fs)] \<and> k_files K w' = k_files K w \<and> k_peer K w' = k_peer K w \<and>
        k_room K w' = k_room K w))"

definition recv_law :: "('w, 'f, 'e) unix_kernel \<Rightarrow> cmsg_abi \<Rightarrow> bool" where
  "recv_law K abi \<longleftrightarrow> (\<forall>w s g bufs control data fs.
     k_files K w s = Some g \<and> k_inbox K w g = [(data, fs)] \<and> length data \<le> length (concat bufs) \<and>
     (fs = [] \<or> CMSG_SPACE abi (length fs * fd_size) \<le> length control) \<and> k_room K w (length fs) \<longrightarrow>
     (\<exists>w' new pad controllen.
        k_recvmsg K s bufs control w = (w', int (length data), scatter data bufs,
          if fs = [] then control else rights_message abi new @ pad, controllen) \<and>
        (controllen < hdr_size abi \<longleftrightarrow> fs = []) \<and> length new = length fs \<and> distinct new \<and>
        (\<forall>fd \<in> set new. k_files K w fd = None) \<and> k_files K w' = (k_files K w)(new [\<mapsto>] fs) \<and> k_inbox K w' g = []))"

section \<open>What is sent arrives\<close>

lemma send_delivers:
  assumes laws: "abi_laws abi" "send_law K abi" and few: "length (an_fds a) < 2 ^ 30"
    and socket: "k_files K w s = Some f" "k_peer K w f = Some g" "k_inbox K w g = []"
    and files: "map (k_files K w) (map cow_as_raw_fd (an_fds a)) = map Some fs"
    and bytes: "concat bufs \<noteq> []" "length (concat bufs) \<le> k_limit K"
    and room: "an_fds a = [] \<or> CMSG_SPACE abi (length (an_fds a) * fd_size) \<le> length (an_buffer a)"
  shows "\<exists>w' a'. send_vectored_with_ancillary K abi s bufs a w = (w', Inr (a', Inr (length (concat bufs)))) \<and>
    an_fds a' = an_fds a \<and> k_inbox K w' g = [(concat bufs, fs)] \<and> k_files K w' = k_files K w \<and>
    k_peer K w' = k_peer K w \<and> k_room K w' = k_room K w"
proof -
  define fds where "fds = map cow_as_raw_fd (an_fds a)"
  have short: "length fds < 2 ^ 30" using few by (simp add: fds_def)
  define msg where "msg = rights_message abi fds"
  define space where "space = CMSG_SPACE abi (length fds * fd_size)"
  define buf where "buf = msg @ drop (length msg) (an_buffer a)"
  have "length msg \<le> space"
    using abi_lawsD(2) [OF laws(1), of "length fds * fd_size"] by (simp add: msg_def space_def length_rights [OF laws(1)])
  then have pad: "take space buf = msg @ take (space - length msg) (drop (length msg) (an_buffer a))"
    by (simp add: buf_def)
  define a' where "a' = (if fds = [] then a else a\<lparr>an_buffer := buf\<rparr>)"
  define control where "control = (if fds = [] then [] else take space buf)"
  have built: "send_control abi a = Inr (a', control)"
    using room unfolding send_control_eq [OF laws(1) few] a'_def control_def fds_def [symmetric] msg_def [symmetric] space_def [symmetric]
    by (auto simp: Let_def buf_def fds_def space_def)
  have "\<exists>w'. k_sendmsg K s bufs control w = (w', int (length (concat bufs))) \<and>
        k_inbox K w' g = [(concat bufs, fs)] \<and> k_files K w' = k_files K w \<and> k_peer K w' = k_peer K w \<and> k_room K w' = k_room K w"
    using laws(2) socket files bytes short unfolding send_law_def control_def pad msg_def fds_def [symmetric] by blast
  then obtain w' where w': "k_sendmsg K s bufs control w = (w', int (length (concat bufs)))"
      "k_inbox K w' g = [(concat bufs, fs)]" "k_files K w' = k_files K w" "k_peer K w' = k_peer K w" "k_room K w' = k_room K w"
    by blast
  have "send_vectored_with_ancillary K abi s bufs a w = (w', Inr (a', Inr (length (concat bufs))))"
    using bytes(1) by (simp add: send_vectored_with_ancillary_def built w'(1) uds_send_def)
  moreover have "an_fds a' = an_fds a" by (simp add: a'_def)
  ultimately show ?thesis using w'(2-5) by blast
qed

lemma recv_delivers:
  assumes laws: "abi_laws abi" "recv_law K abi" and few: "hdr_size abi + length fs * fd_size < 2 ^ 64"
    and socket: "k_files K w s = Some g" "k_inbox K w g = [(data, fs)]"
    and bytes: "data \<noteq> []" "length data \<le> length (concat bufs)"
    and room: "fs = [] \<or> CMSG_SPACE abi (length fs * fd_size) \<le> length (an_buffer b)" "k_room K w (length fs)" and fresh: "an_fds b = []"
  shows "\<exists>w' b' new. recv_vectored_with_ancillary K abi s bufs b w = (w', Inr (scatter data bufs, b', Inr (length data))) \<and>
    an_fds b' = map Owned new \<and> length new = length fs \<and> distinct new \<and> (\<forall>fd \<in> set new. k_files K w fd = None) \<and>
    k_files K w' = (k_files K w)(new [\<mapsto>] fs) \<and> k_inbox K w' g = []"
proof -
  have "\<exists>w' new pad controllen.
        k_recvmsg K s bufs (an_buffer b) w = (w', int (length data), scatter data bufs,
          if fs = [] then an_buffer b else rights_message abi new @ pad, controllen) \<and>
        (controllen < hdr_size abi \<longleftrightarrow> fs = []) \<and> length new = length fs \<and> distinct new \<and>
        (\<forall>fd \<in> set new. k_files K w fd = None) \<and> k_files K w' = (k_files K w)(new [\<mapsto>] fs) \<and> k_inbox K w' g = []"
    using laws(2) socket bytes(2) room unfolding recv_law_def by blast
  then obtain w' new pad controllen where
      call: "k_recvmsg K s bufs (an_buffer b) w = (w', int (length data), scatter data bufs,
          if fs = [] then an_buffer b else rights_message abi new @ pad, controllen)"
      and len: "controllen < hdr_size abi \<longleftrightarrow> fs = []" "length new = length fs"
      and rest: "distinct new" "\<forall>fd \<in> set new. k_files K w fd = None" "k_files K w' = (k_files K w)(new [\<mapsto>] fs)"
        "k_inbox K w' g = []"
    by blast
  define b' where "b' = (if fs = [] then b else \<lparr>an_buffer = rights_message abi new @ pad, an_fds = map Owned new\<rparr>)"
  have "recv_vectored_with_ancillary K abi s bufs b w = (w', Inr (scatter data bufs, b', Inr (length data)))"
  proof (cases "fs = []")
    case True
    then show ?thesis
      using len bytes(1) fresh
      by (simp add: recv_vectored_with_ancillary_def call uds_recv_def received_fds_def b'_def)
  next
    case False
    then have "received_fds abi (rights_message abi new @ pad) controllen = Inr (Some (map Owned new))"
      using received_rights [OF laws(1), of controllen new pad] len few by (simp add: not_less)
    then show ?thesis
      using False bytes(1) fresh by (simp add: recv_vectored_with_ancillary_def call uds_recv_def b'_def)
  qed
  moreover have "an_fds b' = map Owned new" using len(2) fresh by (cases "fs = []") (simp_all add: b'_def)
  ultimately show ?thesis using len(2) rest by blast
qed

lemma map_upds_distinct:
  assumes "length new = length fs" and "distinct new"
  shows "map (m(new [\<mapsto>] fs)) new = map Some fs" and "fd \<notin> set new \<Longrightarrow> (m(new [\<mapsto>] fs)) fd = m fd"
proof -
  show "map (m(new [\<mapsto>] fs)) new = map Some fs"
    using assms by (induction new fs arbitrary: m rule: list_induct2) simp_all
qed simp


section \<open>A system with sixteen descriptors\<close>

text \<open>An instance of the parameter: files are sockets and \<open>/dev/zero\<close>, and descriptors are below 16.\<close>

datatype small_file = Socket nat | Zero

record small_world =
  sw_files :: "small_file fd_table"
  sw_peer :: "small_file \<rightharpoonup> small_file"
  sw_inbox :: "small_file \<Rightarrow> (u8 list \<times> small_file list) list"
  sw_errno :: string
  sw_sockets :: nat

definition small_start :: small_world where
  "small_start = \<lparr>sw_files = Map.empty, sw_peer = Map.empty, sw_inbox = (\<lambda>_. []), sw_errno = [], sw_sockets = 0\<rparr>"

definition small_free :: "small_world \<Rightarrow> raw_fd list" where
  "small_free w = filter (\<lambda>fd. sw_files w fd = None) (map word_of_nat [0..<16])"

definition fail_with :: "string \<Rightarrow> small_world \<Rightarrow> small_world \<times> (string + 'r)" where
  "fail_with err w = (w\<lparr>sw_errno := err\<rparr>, Inl err)"

definition small_open :: "small_file \<Rightarrow> small_world \<Rightarrow> small_world \<times> (string + raw_fd)" where
  "small_open z w = (case small_free w of [] \<Rightarrow> fail_with ''EMFILE'' w
     | fd # _ \<Rightarrow> (w\<lparr>sw_files := (sw_files w)(fd \<mapsto> z)\<rparr>, Inr fd))"

definition small_socketpair :: "small_world \<Rightarrow> small_world \<times> (string + raw_fd \<times> raw_fd)" where
  "small_socketpair w =
     (let f = Socket (sw_sockets w); g = Socket (sw_sockets w + 1) in
      case small_free w of
        s1 # s2 # _ \<Rightarrow> (w\<lparr>sw_files := (sw_files w)(s1 \<mapsto> f, s2 \<mapsto> g), sw_peer := (sw_peer w)(f \<mapsto> g, g \<mapsto> f),
            sw_inbox := (sw_inbox w)(f := [], g := []), sw_sockets := sw_sockets w + 2\<rparr>, Inr (s1, s2))
      | _ \<Rightarrow> fail_with ''EMFILE'' w)"

definition small_sendmsg :: "raw_fd \<Rightarrow> u8 list list \<Rightarrow> u8 list \<Rightarrow> small_world \<Rightarrow> small_world \<times> int" where
  "small_sendmsg s bufs control w =
     (case Option.bind (sw_files w s) (sw_peer w) of
        None \<Rightarrow> (w\<lparr>sw_errno := ''ENOTCONN''\<rparr>, - 1)
      | Some g \<Rightarrow>
        let fds = (case received_fds linux64 control (length control) of Inr (Some cs) \<Rightarrow> map cow_as_raw_fd cs | _ \<Rightarrow> []);
            fs = map (the \<circ> sw_files w) fds in
        (w\<lparr>sw_inbox := (sw_inbox w)(g := sw_inbox w g @ [(concat bufs, fs)])\<rparr>, int (length (concat bufs))))"

definition small_recvmsg ::
  "raw_fd \<Rightarrow> u8 list list \<Rightarrow> u8 list \<Rightarrow> small_world \<Rightarrow> small_world \<times> int \<times> u8 list list \<times> u8 list \<times> nat" where
  "small_recvmsg s bufs control w =
     (case Option.bind (sw_files w s) (\<lambda>g. case sw_inbox w g of [] \<Rightarrow> None | (data, fs) # ms \<Rightarrow> Some (g, data, fs, ms)) of
        None \<Rightarrow> (w\<lparr>sw_errno := ''EAGAIN''\<rparr>, - 1, bufs, control, length control)
      | Some (g, data, fs, ms) \<Rightarrow>
        let new = take (length fs) (small_free w) in
        (w\<lparr>sw_files := (sw_files w)(new [\<mapsto>] fs), sw_inbox := (sw_inbox w)(g := ms)\<rparr>,
         int (length data), scatter data bufs,
         if fs = [] then control else rights_message linux64 new @ drop (16 + length new * fd_size) control,
         if fs = [] then 0 else CMSG_SPACE linux64 (length new * fd_size)))"

definition small_kernel :: "(small_world, small_file, string) unix_kernel" where
  "small_kernel =
     \<lparr>k_open = (\<lambda>path. if path = ''/dev/zero'' then small_open Zero else fail_with ''ENOENT''),
      k_socketpair = small_socketpair, k_sendmsg = small_sendmsg, k_recvmsg = small_recvmsg,
      k_dup = (\<lambda>fd w. case sw_files w fd of None \<Rightarrow> fail_with ''EBADF'' w | Some z \<Rightarrow> small_open z w),
      k_read = (\<lambda>fd n w. if sw_files w fd = Some Zero then (w, Inr (replicate n 0)) else fail_with ''EBADF'' w),
      k_close = (\<lambda>fd w. w\<lparr>sw_files := (sw_files w)(fd := None)\<rparr>), k_errno = sw_errno,
      k_files = sw_files, k_peer = sw_peer, k_inbox = sw_inbox, k_zero = (\<lambda>z. z = Zero),
      k_room = (\<lambda>w n. n \<le> length (small_free w)), k_limit = 1000\<rparr>"

lemma small_free_props: "distinct (small_free w)" "fd \<in> set (small_free w) \<Longrightarrow> sw_files w fd = None"
proof -
  have "inj_on (word_of_nat :: nat \<Rightarrow> raw_fd) {0..<16}"
    by (rule inj_onI) (simp add: word_of_nat_eq_iff take_bit_nat_eq_self)
  then show "distinct (small_free w)" by (simp add: small_free_def distinct_map)
qed (auto simp: small_free_def)

lemma small_send_law: "send_law small_kernel linux64"
proof -
  have fds: "received_fds linux64 (rights_message linux64 fds @ pad) (length (rights_message linux64 fds @ pad)) =
      Inr (Some (map Owned fds))" if "length fds < 2 ^ 30" for fds pad
    using that by (intro received_rights) (simp_all add: linux64_laws length_rights linux64_hdr)
  have files: "map (the \<circ> m) fds = fs" if "map m fds = map Some fs" for m :: "small_file fd_table" and fds fs
    using arg_cong [OF that, of "map the"] by (simp add: o_def)
  have none: "received_fds linux64 [] 0 = Inr None" by (simp add: received_fds_def linux64_hdr)
  show ?thesis
    unfolding send_law_def
  proof (intro allI impI, elim conjE)
    fix w s f g bufs fds fs pad
    assume a: "k_files small_kernel w s = Some f" "k_peer small_kernel w f = Some g" "k_inbox small_kernel w g = []"
      "map (k_files small_kernel w) fds = map Some fs" "length fds < 2 ^ 30"
    let ?control = "if fds = [] then [] else rights_message linux64 fds @ pad"
    let ?w = "w\<lparr>sw_inbox := (sw_inbox w)(g := [(concat bufs, fs)])\<rparr>"
    have "k_sendmsg small_kernel s bufs ?control w = (?w, int (length (concat bufs)))"
      using a fds [OF a(5), of pad] files [of "sw_files w" fds fs] none
      by (cases "fds = []") (simp_all add: small_kernel_def small_sendmsg_def Let_def o_def cow_as_raw_fd_def)
    then show "\<exists>w'. k_sendmsg small_kernel s bufs ?control w = (w', int (length (concat bufs))) \<and>
        k_inbox small_kernel w' g = [(concat bufs, fs)] \<and> k_files small_kernel w' = k_files small_kernel w \<and>
        k_peer small_kernel w' = k_peer small_kernel w \<and> k_room small_kernel w' = k_room small_kernel w"
      by (intro exI [of _ ?w]) (simp add: small_kernel_def small_free_def)
  qed
qed

lemma small_recv_law: "recv_law small_kernel linux64"
  unfolding recv_law_def
proof (intro allI impI, elim conjE)
  fix w s g bufs control data fs
  assume a: "k_files small_kernel w s = Some g" "k_inbox small_kernel w g = [(data, fs)]" "k_room small_kernel w (length fs)"
  let ?new = "take (length fs) (small_free w)"
  let ?w = "w\<lparr>sw_files := (sw_files w)(?new [\<mapsto>] fs), sw_inbox := (sw_inbox w)(g := [])\<rparr>"
  have len: "length ?new = length fs" using a(3) by (simp add: small_kernel_def)
  have "k_recvmsg small_kernel s bufs control w = (?w, int (length data), scatter data bufs,
          if fs = [] then control else rights_message linux64 ?new @ drop (16 + length ?new * fd_size) control,
          if fs = [] then 0 else CMSG_SPACE linux64 (length fs * fd_size))"
    using a len by (simp add: small_kernel_def small_recvmsg_def Let_def)
  moreover have "(if fs = [] then 0 else CMSG_SPACE linux64 (length fs * fd_size)) < hdr_size linux64 \<longleftrightarrow> fs = []"
    using abi_lawsD(2) [OF linux64_laws, of "length fs * fd_size"] by (simp add: linux64_hdr)
  moreover have "distinct ?new" "\<forall>fd \<in> set ?new. k_files small_kernel w fd = None"
    using small_free_props by (auto simp: small_kernel_def dest: in_set_takeD)
  moreover have "k_files small_kernel ?w = (k_files small_kernel w)(?new [\<mapsto>] fs)" "k_inbox small_kernel ?w g = []"
    by (simp_all add: small_kernel_def)
  ultimately show "\<exists>w' new pad controllen.
        k_recvmsg small_kernel s bufs control w = (w', int (length data), scatter data bufs,
          if fs = [] then control else rights_message linux64 new @ pad, controllen) \<and>
        (controllen < hdr_size linux64 \<longleftrightarrow> fs = []) \<and> length new = length fs \<and> distinct new \<and>
        (\<forall>fd \<in> set new. k_files small_kernel w fd = None) \<and> k_files small_kernel w' = (k_files small_kernel w)(new [\<mapsto>] fs) \<and>
        k_inbox small_kernel w' g = []"
    using len by blast
qed


end
