(* ===== verification/Ancillary_Tests.thy ===== *)
theory Ancillary_Tests
  imports Ancillary_Stream
begin

text \<open>
  The tests of descriptor passing, of \<open>src/zpr-ext/src/std/os/unix.rs\<close> and \<open>src/zpr-ext/src/tokio.rs\<close>, statement by
  statement, and that they pass on every system that behaves as documented. Descriptors that a test still holds
  at its end are not closed in the model.
\<close>

section \<open>The tests on blocking sockets\<close>

definition sys :: "('w \<Rightarrow> 'w \<times> 'r) \<Rightarrow> ('w, 'r) act" where
  "sys call w = (case call w of (w', r) \<Rightarrow> (w', Inr r))"

definition ancillary_no_ancillary :: "('w, 'f, 'e) unix_kernel \<Rightarrow> cmsg_abi \<Rightarrow> ('w, unit) act" where
  "ancillary_no_ancillary K abi =
     abind (unwrap_ok (sys (k_socketpair K))) (\<lambda>(s1, s2).
     let data_in = [1, 2, 3]; ancillary_in = ancillary_new (replicate 256 0) in
     abind (send_vectored_with_ancillary K abi s1 [data_in] ancillary_in) (\<lambda>(ancillary_in, r).
     abind (assert_eq (unwrap_ok (aret r)) 3) (\<lambda>_.
     let data_out = replicate 4 0; ancillary_out = ancillary_new (replicate 256 0) in
     abind (recv_vectored_with_ancillary K abi s2 [data_out] ancillary_out) (\<lambda>(data_out, ancillary_out, r).
     abind (assert_eq (unwrap_ok (aret r)) 3) (\<lambda>_.
     assert_eq (aret (into_messages ancillary_out)) [])))))"

text \<open>
  The receiving side of the other tests: one message with one descriptor, from which a byte is read. The
  file made from the descriptor is dropped after each round.
\<close>

fun into_owned :: "('w, 'f, 'e) unix_kernel \<Rightarrow> cow_fd \<Rightarrow> ('w, 'e + raw_fd) act" where
  "into_owned K (Borrowed fd) = sys (k_dup K fd)" | "into_owned K (Owned fd) = aret (Inr fd)"

definition read_zero :: "('w, 'f, 'e) unix_kernel \<Rightarrow> cow_fd \<Rightarrow> ('w, unit) act" where
  "read_zero K fd =
     abind (unwrap_ok (into_owned K fd)) (\<lambda>file.
     abind (unwrap_ok (sys (k_read K file 1))) (\<lambda>buf.
     abind (sys (\<lambda>w. (k_close K file w, ()))) (\<lambda>_.
     assert_eq (aret buf) [0])))"

definition check_messages :: "('w, 'f, 'e) unix_kernel \<Rightarrow> ancillary \<Rightarrow> ('w, unit) act" where
  "check_messages K ancillary_out =
     (case into_messages ancillary_out of
        Inr (ScmRights fds) # messages \<Rightarrow>
          abind (assert_eq (aret (length fds)) 1) (\<lambda>_.
          abind (assert_eq (aret messages) []) (\<lambda>_.
          abind (for_each fds (read_zero K)) (\<lambda>_. aret ())))
      | _ \<Rightarrow> (\<lambda>w. (w, Inl Panic_unwrap)))"

definition ancillary_fd :: "('w, 'f, 'e) unix_kernel \<Rightarrow> cmsg_abi \<Rightarrow> ('w, unit) act" where
  "ancillary_fd K abi =
     abind (unwrap_ok (sys (k_open K ''/dev/zero''))) (\<lambda>zero_file.
     abind (unwrap_ok (sys (k_socketpair K))) (\<lambda>(s1, s2).
     let data_in = [1, 2, 3]; ancillary_in = fst (add_fds [zero_file] (ancillary_new (replicate 256 0))) in
     abind (send_vectored_with_ancillary K abi s1 [data_in] ancillary_in) (\<lambda>(ancillary_in, r).
     abind (assert_eq (unwrap_ok (aret r)) 3) (\<lambda>_.
     let data_out = replicate 4 0; ancillary_out = ancillary_new (replicate 256 0) in
     abind (recv_vectored_with_ancillary K abi s2 [data_out] ancillary_out) (\<lambda>(data_out, ancillary_out, r).
     abind (assert_eq (unwrap_ok (aret r)) 3) (\<lambda>_.
     check_messages K ancillary_out))))))"

section \<open>What the tests rely on\<close>

text \<open>
  \<open>open(2)\<close>, \<open>socketpair(2)\<close> and \<open>zero(4)\<close>: while the process has room, opening and pairing succeed with numbers that
  were not open; a read of \<open>/dev/zero\<close> gives zeros.
\<close>

definition open_law :: "('w, 'f, 'e) unix_kernel \<Rightarrow> bool" where
  "open_law K \<longleftrightarrow> (\<forall>w n. k_room K w (n + 1) \<longrightarrow> (\<exists>w' fd z. k_open K ''/dev/zero'' w = (w', Inr fd) \<and>
     k_files K w fd = None \<and> k_files K w' = (k_files K w)(fd \<mapsto> z) \<and> k_zero K z \<and> k_room K w' n))"

definition pair_law :: "('w, 'f, 'e) unix_kernel \<Rightarrow> bool" where
  "pair_law K \<longleftrightarrow> (\<forall>w n. k_room K w (n + 2) \<longrightarrow> (\<exists>w' s1 s2 f g. k_socketpair K w = (w', Inr (s1, s2)) \<and>
     k_files K w s1 = None \<and> k_files K w s2 = None \<and> s1 \<noteq> s2 \<and> k_files K w' = (k_files K w)(s1 \<mapsto> f, s2 \<mapsto> g) \<and>
     k_peer K w' f = Some g \<and> k_inbox K w' g = [] \<and> k_room K w' n))"

definition read_law :: "('w, 'f, 'e) unix_kernel \<Rightarrow> bool" where
  "read_law K \<longleftrightarrow> (\<forall>w fd z n. k_files K w fd = Some z \<and> k_zero K z \<longrightarrow> (\<exists>w'. k_read K fd n w = (w', Inr (replicate n 0))))"

definition unix_laws :: "('w, 'f, 'e) unix_kernel \<Rightarrow> cmsg_abi \<Rightarrow> bool" where
  "unix_laws K abi \<longleftrightarrow> abi_laws abi \<and> send_law K abi \<and> recv_law K abi \<and> open_law K \<and> pair_law K \<and> read_law K \<and>
     hdr_size abi < 2 ^ 32 \<and> CMSG_SPACE abi fd_size \<le> 256 \<and> 3 \<le> k_limit K"

lemma unix_lawsD:
  assumes "unix_laws K abi"
  shows "abi_laws abi" "send_law K abi" "recv_law K abi" "open_law K" "pair_law K" "read_law K"
    "hdr_size abi < 2 ^ 32" "CMSG_SPACE abi fd_size \<le> 256" "3 \<le> k_limit K"
  using assms unfolding unix_laws_def by auto

lemma open_zero:
  assumes "unix_laws K abi" and "k_room K w m" and "m = n + 1"
  obtains w' fd z where "k_open K ''/dev/zero'' w = (w', Inr fd)" and "k_files K w' fd = Some z" and "k_zero K z" and "k_room K w' n"
  using assms(2,3) unix_lawsD(4) [OF assms(1)] unfolding open_law_def by (metis fun_upd_same)

lemma open_pair:
  assumes "unix_laws K abi" and "k_room K w m" and "m = n + 2"
  obtains w' s1 s2 f g where "k_socketpair K w = (w', Inr (s1, s2))" and "k_files K w' s1 = Some f" and "k_files K w' s2 = Some g"
    and "k_peer K w' f = Some g" and "k_inbox K w' g = []" and "k_room K w' n"
    and "\<And>fd z. k_files K w fd = Some z \<Longrightarrow> k_files K w' fd = Some z"
proof -
  obtain w' s1 s2 f g where w': "k_socketpair K w = (w', Inr (s1, s2))" "k_files K w s1 = None" "k_files K w s2 = None" "s1 \<noteq> s2"
      "k_files K w' = (k_files K w)(s1 \<mapsto> f, s2 \<mapsto> g)" "k_peer K w' f = Some g" "k_inbox K w' g = []" "k_room K w' n"
    using assms(2,3) unix_lawsD(5) [OF assms(1)] unfolding pair_law_def by blast
  then have "k_files K w' s1 = Some f" "k_files K w' s2 = Some g" by simp_all
  moreover have "k_files K w' fd = Some z" if "k_files K w fd = Some z" for fd z using w'(2,3,5) that by auto
  ultimately show ?thesis using that w'(1,6-8) by blast
qed

text \<open>One descriptor of \<open>/dev/zero\<close> that was received as owned passes the checks.\<close>

lemma check_messages_ok:
  assumes "unix_laws K abi" and "an_fds b = [Owned n]" and "k_files K w n = Some z" and "k_zero K z"
  shows "snd (check_messages K b w) = Inr ()"
proof -
  obtain w' where "k_read K n 1 w = (w', Inr (replicate 1 0))"
    using assms(3,4) unix_lawsD(6) [OF assms(1)] unfolding read_law_def by blast
  then show ?thesis
    using assms(2) by (simp add: check_messages_def into_messages_def read_zero_def assert_eq_def unwrap_ok_def sys_def
        for_each.simps abind_def aret_def rassert_def)
qed

text \<open>The exchange all tests make: three bytes and some descriptors into four bytes and a fresh buffer.\<close>

definition test_out :: "u8 list list" where
  "test_out = [replicate 4 0]"

lemma test_send:
  assumes "unix_laws K abi" and "k_files K w s1 = Some f" and "k_peer K w f = Some g" and "k_inbox K w g = []"
    and "map (k_files K w) fds = map Some fs" and "length fds \<le> 1"
  shows "\<exists>w' a'. send_vectored_with_ancillary K abi s1 [[1, 2, 3]] (fst (add_fds fds (ancillary_new (replicate 256 0)))) w =
      (w', Inr (a', Inr 3)) \<and> k_inbox K w' g = [([1, 2, 3], fs)] \<and> k_files K w' = k_files K w \<and> k_room K w' = k_room K w"
proof -
  have "\<exists>w' a'. send_vectored_with_ancillary K abi s1 [[1, 2, 3]] (fst (add_fds fds (ancillary_new (replicate 256 0)))) w =
      (w', Inr (a', Inr (length (concat [[1, 2, 3 :: u8]])))) \<and>
    an_fds a' = an_fds (fst (add_fds fds (ancillary_new (replicate 256 0)))) \<and>
    k_inbox K w' g = [(concat [[1, 2, 3]], fs)] \<and> k_files K w' = k_files K w \<and> k_peer K w' = k_peer K w \<and> k_room K w' = k_room K w"
  proof (rule send_delivers [OF unix_lawsD(1,2) [OF assms(1)] _ assms(2-4)])
    show "an_fds (fst (add_fds fds (ancillary_new (replicate 256 0)))) = [] \<or>
        CMSG_SPACE abi (length (an_fds (fst (add_fds fds (ancillary_new (replicate 256 0))))) * fd_size) \<le>
        length (an_buffer (fst (add_fds fds (ancillary_new (replicate 256 0)))))"
      using unix_lawsD(8) [OF assms(1)] assms(6) by (cases fds) (simp_all add: add_fds_def ancillary_new_def)
  qed (use assms(5,6) unix_lawsD(9) [OF assms(1)] in
      \<open>simp_all add: add_fds_def ancillary_new_def cow_from_borrowed_def cow_as_raw_fd_def o_def\<close>)
  then show ?thesis by (simp add: numeral_3_eq_3) blast
qed

lemma test_recv:
  assumes "unix_laws K abi" and "k_files K w s2 = Some g" and "k_inbox K w g = [([1, 2, 3], fs)]" and "length fs \<le> 1"
    and "k_room K w (length fs)"
  shows "\<exists>w' out b' new. recv_vectored_with_ancillary K abi s2 test_out (ancillary_new (replicate 256 0)) w = (w', Inr (out, b', Inr 3)) \<and>
    an_fds b' = map Owned new \<and> map (k_files K w') new = map Some fs"
proof -
  have "\<exists>w' b' new. recv_vectored_with_ancillary K abi s2 test_out (ancillary_new (replicate 256 0)) w =
      (w', Inr (scatter [1, 2, 3] test_out, b', Inr (length [1, 2, 3 :: u8]))) \<and>
    an_fds b' = map Owned new \<and> length new = length fs \<and> distinct new \<and> (\<forall>fd \<in> set new. k_files K w fd = None) \<and>
    k_files K w' = (k_files K w)(new [\<mapsto>] fs) \<and> k_inbox K w' g = []"
  proof (rule recv_delivers [OF unix_lawsD(1,3) [OF assms(1)] _ assms(2,3)])
    show "fs = [] \<or> CMSG_SPACE abi (length fs * fd_size) \<le> length (an_buffer (ancillary_new (replicate 256 0)))"
      using unix_lawsD(8) [OF assms(1)] assms(4) by (cases fs) (simp_all add: ancillary_new_def)
  qed (use assms(4,5) unix_lawsD(7) [OF assms(1)] in \<open>simp_all add: ancillary_new_def test_out_def\<close>)
  then obtain w' b' new where recv: "recv_vectored_with_ancillary K abi s2 test_out (ancillary_new (replicate 256 0)) w =
      (w', Inr (scatter [1, 2, 3] test_out, b', Inr (length [1, 2, 3 :: u8])))" and b': "an_fds b' = map Owned new"
    and new: "length new = length fs" "distinct new" and w': "k_files K w' = (k_files K w)(new [\<mapsto>] fs)" by blast
  have "map (k_files K w') new = map Some fs" unfolding w' by (rule map_upds_distinct(1) [OF new])
  then show ?thesis using recv b' by (auto simp: numeral_3_eq_3)
qed

lemma no_ancillary_test_passes:
  assumes "unix_laws K abi" and "k_room K w 2"
  shows "snd (ancillary_no_ancillary K abi w) = Inr ()"
proof -
  obtain w1 s1 s2 f g where pair: "k_socketpair K w = (w1, Inr (s1, s2))" "k_files K w1 s1 = Some f" "k_files K w1 s2 = Some g"
      "k_peer K w1 f = Some g" "k_inbox K w1 g = []" "k_room K w1 0"
    by (rule open_pair [OF assms, of 0]) (simp, blast)
  obtain w2 a' where send: "send_vectored_with_ancillary K abi s1 [[1, 2, 3]] (ancillary_new (replicate 256 0)) w1 = (w2, Inr (a', Inr 3))"
      "k_inbox K w2 g = [([1, 2, 3], [])]" "k_files K w2 = k_files K w1" "k_room K w2 = k_room K w1"
    using test_send [OF assms(1) pair(2,4,5), of "[]" "[]"] by (auto simp: add_fds_def)
  obtain w3 out b' where "recv_vectored_with_ancillary K abi s2 [replicate 4 0] (ancillary_new (replicate 256 0)) w2 = (w3, Inr (out, b', Inr 3))"
      "an_fds b' = []"
    using test_recv [OF assms(1) _ send(2), of s2] pair(3,6) send(3,4) by (auto simp: test_out_def)
  then show ?thesis
    using pair(1) send(1)
    by (simp add: ancillary_no_ancillary_def sys_def unwrap_ok_def assert_eq_def rassert_def Let_def into_messages_def)
qed

lemma ancillary_fd_test_passes:
  assumes "unix_laws K abi" and "k_room K w 4"
  shows "snd (ancillary_fd K abi w) = Inr ()"
proof -
  obtain w0 zero z where zero: "k_open K ''/dev/zero'' w = (w0, Inr zero)" "k_files K w0 zero = Some z" "k_zero K z" "k_room K w0 3"
    by (rule open_zero [OF assms, of 3]) (simp, blast)
  obtain w1 s1 s2 f g where pair: "k_socketpair K w0 = (w1, Inr (s1, s2))" "k_files K w1 s1 = Some f" "k_files K w1 s2 = Some g"
      "k_peer K w1 f = Some g" "k_inbox K w1 g = []" "k_room K w1 1" "k_files K w1 zero = Some z"
    by (rule open_pair [OF assms(1) zero(4), of 1]) (simp, use zero(2) in blast)
  obtain w2 a' where send: "send_vectored_with_ancillary K abi s1 [[1, 2, 3]] (fst (add_fds [zero] (ancillary_new (replicate 256 0)))) w1 =
        (w2, Inr (a', Inr 3))" "k_inbox K w2 g = [([1, 2, 3], [z])]" "k_files K w2 = k_files K w1" "k_room K w2 = k_room K w1"
    using test_send [OF assms(1) pair(2,4,5), of "[zero]" "[z]"] pair(7) by auto
  obtain w3 out b' n where "recv_vectored_with_ancillary K abi s2 [replicate 4 0] (ancillary_new (replicate 256 0)) w2 = (w3, Inr (out, b', Inr 3))"
      "an_fds b' = [Owned n]" "k_files K w3 n = Some z"
    using test_recv [OF assms(1) _ send(2), of s2] pair(3,6) send(3,4) by (auto simp: test_out_def)
  then show ?thesis
    using zero(1) pair(1) send(1) check_messages_ok [OF assms(1) _ _ zero(3)]
    by (simp add: ancillary_fd_def sys_def unwrap_ok_def assert_eq_def rassert_def Let_def)
qed

section \<open>The test on asynchronous sockets\<close>

text \<open>
  The methods of \<open>tokio.rs\<close> with the state of the system: in each round the runtime says what waiting for the
  socket gave and whether \<open>try_io\<close> finds the interest ready.
\<close>

definition send_attempt :: "('w, 'f, 'e) unix_kernel \<Rightarrow> cmsg_abi \<Rightarrow> raw_fd \<Rightarrow> u8 list list \<Rightarrow> 'w \<times> ancillary \<Rightarrow>
    (('w \<times> ancillary) \<times> ('e + nat)) res" where
  "send_attempt K abi s bufs = (\<lambda>(w, a).
     case send_vectored_with_ancillary K abi s bufs a w of (w', r) \<Rightarrow> rbind r (\<lambda>(a', r'). Inr ((w', a'), r')))"

definition tokio_send :: "('w, 'f, 'e) unix_kernel \<Rightarrow> cmsg_abi \<Rightarrow> ('e \<Rightarrow> bool) \<Rightarrow> raw_fd \<Rightarrow> u8 list list \<Rightarrow>
    (('e + unit) \<times> bool) list \<Rightarrow> 'w \<times> ancillary \<Rightarrow> (('w \<times> ancillary) \<times> ('e + nat) option) res" where
  "tokio_send K abi would_block s bufs rounds =
     retry_io would_block (map (\<lambda>(ready, on). (ready, on, send_attempt K abi s bufs)) rounds)"

definition recv_attempt :: "('w, 'f, 'e) unix_kernel \<Rightarrow> cmsg_abi \<Rightarrow> raw_fd \<Rightarrow> 'w \<times> u8 list list \<times> ancillary \<Rightarrow>
    (('w \<times> u8 list list \<times> ancillary) \<times> ('e + nat)) res" where
  "recv_attempt K abi s = (\<lambda>(w, bufs, b).
     case recv_vectored_with_ancillary K abi s bufs b w of (w', r) \<Rightarrow> rbind r (\<lambda>(bufs', b', r'). Inr ((w', bufs', b'), r')))"

definition tokio_recv :: "('w, 'f, 'e) unix_kernel \<Rightarrow> cmsg_abi \<Rightarrow> ('e \<Rightarrow> bool) \<Rightarrow> raw_fd \<Rightarrow>
    (('e + unit) \<times> bool) list \<Rightarrow> 'w \<times> u8 list list \<times> ancillary \<Rightarrow> (('w \<times> u8 list list \<times> ancillary) \<times> ('e + nat) option) res" where
  "tokio_recv K abi would_block s rounds =
     retry_io would_block (map (\<lambda>(ready, on). (ready, on, recv_attempt K abi s)) rounds)"

text \<open>
  The spawned task, polled for some rounds: it still waits with its buffers, or it has ended with the
  result of its checks.
\<close>

definition poll_receiver :: "('w, 'f, 'e) unix_kernel \<Rightarrow> cmsg_abi \<Rightarrow> ('e \<Rightarrow> bool) \<Rightarrow> raw_fd \<Rightarrow> (('e + unit) \<times> bool) list \<Rightarrow>
    'w \<times> u8 list list \<times> ancillary \<Rightarrow> 'w \<times> ((u8 list list \<times> ancillary) + unit res)" where
  "poll_receiver K abi would_block s2 rounds st =
     (case tokio_recv K abi would_block s2 rounds st of
        Inl e \<Rightarrow> (fst st, Inr (Inl e))
      | Inr ((w, out, b), None) \<Rightarrow> (w, Inl (out, b))
      | Inr ((w, out, b), Some r) \<Rightarrow>
        (case abind (assert_eq (unwrap_ok (aret r)) 3) (\<lambda>_. check_messages K b) w of (w', res) \<Rightarrow> (w', Inr res)))"

text \<open>
  The test: the receiver runs \<open>early\<close> rounds before the sender's call goes through and \<open>late\<close> ones after it.
  \<open>None\<close> where the sender or the receiver is still waiting at the end of its rounds.
\<close>

definition tokio_ancillary_fd :: "('w, 'f, 'e) unix_kernel \<Rightarrow> cmsg_abi \<Rightarrow> ('e \<Rightarrow> bool) \<Rightarrow>
    (('e + unit) \<times> bool) list \<Rightarrow> (('e + unit) \<times> bool) list \<Rightarrow> (('e + unit) \<times> bool) list \<Rightarrow> 'w \<Rightarrow> (unit res) option" where
  "tokio_ancillary_fd K abi would_block early sends late w =
     (case abind (unwrap_ok (sys (k_open K ''/dev/zero''))) (\<lambda>zero_file.
           abind (unwrap_ok (sys (k_socketpair K))) (\<lambda>(s1, s2). aret (zero_file, s1, s2))) w of
        (w0, Inl e) \<Rightarrow> Some (Inl e)
      | (w0, Inr (zero_file, s1, s2)) \<Rightarrow>
        (case poll_receiver K abi would_block s2 early (w0, [replicate 4 0], ancillary_new (replicate 256 0)) of (w1, task) \<Rightarrow>
        (case tokio_send K abi would_block s1 [[1, 2, 3]] sends (w1, fst (add_fds [zero_file] (ancillary_new (replicate 256 0)))) of
           Inl e \<Rightarrow> Some (Inl e)
         | Inr (_, None) \<Rightarrow> None
         | Inr ((w2, _), Some r) \<Rightarrow>
           (case assert_eq (unwrap_ok (aret r)) 3 w2 of
              (w3, Inl e) \<Rightarrow> Some (Inl e)
            | (w3, Inr _) \<Rightarrow>
              (case task of
                 Inr res \<Rightarrow> Some res
               | Inl (out, b) \<Rightarrow>
                 (case poll_receiver K abi would_block s2 late (w3, out, b) of
                    (w4, Inr res) \<Rightarrow> Some res | (w4, Inl _) \<Rightarrow> None))))))"

text \<open>A socket in non-blocking mode on which nothing waits makes \<open>recvmsg\<close> fail with \<open>EAGAIN\<close>.\<close>

definition same_state :: "('w, 'f, 'e) unix_kernel \<Rightarrow> 'w \<Rightarrow> 'w \<Rightarrow> bool" where
  "same_state K w w' \<longleftrightarrow> k_files K w' = k_files K w \<and> k_peer K w' = k_peer K w \<and> k_inbox K w' = k_inbox K w \<and> k_room K w' = k_room K w"

definition block_law :: "('w, 'f, 'e) unix_kernel \<Rightarrow> ('e \<Rightarrow> bool) \<Rightarrow> bool" where
  "block_law K would_block \<longleftrightarrow> (\<forall>w s g bufs control. k_files K w s = Some g \<and> k_inbox K w g = [] \<longrightarrow>
     (\<exists>w'. k_recvmsg K s bufs control w = (w', - 1, bufs, control, length control) \<and> would_block (k_errno K w') \<and> same_state K w w'))"

text \<open>Rounds in which nothing can be received leave the task waiting, with its buffers as they were.\<close>

lemma poll_early:
  assumes law: "block_law K would_block" and zeros: "received_fds abi (replicate 256 0) 256 = Inr None"
    and socket: "k_files K w s = Some g" "k_inbox K w g = []" and waits: "\<forall>r \<in> set early. fst r = Inr ()"
  shows "\<exists>w'. poll_receiver K abi would_block s early (w, out, ancillary_new (replicate 256 0)) =
      (w', Inl (out, ancillary_new (replicate 256 0))) \<and> same_state K w w'"
proof -
  let ?b = "ancillary_new (replicate 256 0)"
  define S where "S = {(w', out, ?b) |w'. same_state K w w'}"
  have step: "\<exists>s' \<in> S. \<exists>e. recv_attempt K abi s st = Inr (s', Inl e) \<and> would_block e" if inS: "st \<in> S" for st
  proof -
    obtain w1 where st: "st = (w1, out, ?b)" and same: "same_state K w w1" using inS by (auto simp: S_def)
    then have "k_files K w1 s = Some g" "k_inbox K w1 g = []" using socket by (simp_all add: same_state_def)
    then obtain w2 where w2: "k_recvmsg K s out (an_buffer ?b) w1 = (w2, - 1, out, an_buffer ?b, length (an_buffer ?b))"
        "would_block (k_errno K w2)" "same_state K w1 w2"
      using law unfolding block_law_def by blast
    have "recv_attempt K abi s st = Inr ((w2, out, ?b), Inl (k_errno K w2))"
      using w2(1) zeros by (simp add: st recv_attempt_def recv_vectored_with_ancillary_def uds_recv_def ancillary_new_def)
    moreover have "(w2, out, ?b) \<in> S" using same w2(3) by (simp add: S_def same_state_def)
    ultimately show ?thesis using w2(2) by blast
  qed
  define rounds where "rounds = map (\<lambda>(ready, on). (ready, on, recv_attempt K abi s)) early"
  have "\<exists>s' \<in> S. retry_io would_block (rounds @ []) (w, out, ?b) = retry_io would_block [] s'"
  proof (rule retry_io_blocked)
    show "\<forall>(ready, on, closure) \<in> set rounds. ready = Inr () \<and>
        (on \<longrightarrow> (\<forall>s \<in> S. \<exists>s' \<in> S. \<exists>e. closure s = Inr (s', Inl e) \<and> would_block e))"
      using waits step by (auto simp: rounds_def)
  qed (simp add: S_def same_state_def)
  then obtain w' where "retry_io would_block rounds (w, out, ?b) = Inr ((w', out, ?b), None)" "same_state K w w'"
    by (auto simp: S_def)
  then show ?thesis by (auto simp: poll_receiver_def tokio_recv_def rounds_def)
qed

text \<open>Rounds in which the interest is not ready change nothing.\<close>

lemma retry_io_idle:
  assumes "\<forall>r \<in> set idle. r = (Inr (), False)"
  shows "retry_io would_block (map (\<lambda>(ready, on). (ready, on, closure)) (idle @ rounds)) s =
    retry_io would_block (map (\<lambda>(ready, on). (ready, on, closure)) rounds) s"
  using assms by (induction idle) auto

text \<open>
  The test passes under every schedule in which the sender and, after it, the receiver are found ready at some
  time, however often the receiver is polled before.
\<close>

lemma tokio_test_passes:
  assumes laws: "unix_laws K abi" "block_law K would_block" and zeros: "received_fds abi (replicate 256 0) 256 = Inr None"
    and room: "k_room K w 4" and early: "\<forall>r \<in> set early. fst r = Inr ()"
    and idle: "\<forall>r \<in> set idle. r = (Inr (), False)" "\<forall>r \<in> set idle'. r = (Inr (), False)"
  shows "tokio_ancillary_fd K abi would_block early (idle @ (Inr (), True) # sends) (idle' @ (Inr (), True) # late) w = Some (Inr ())"
proof -
  let ?b = "ancillary_new (replicate 256 0)"
  obtain w' zero z where zero: "k_open K ''/dev/zero'' w = (w', Inr zero)" "k_files K w' zero = Some z" "k_zero K z" "k_room K w' 3"
    by (rule open_zero [OF laws(1) room, of 3]) (simp, blast)
  obtain w0 s1 s2 f g where pair: "k_socketpair K w' = (w0, Inr (s1, s2))" "k_files K w0 s1 = Some f" "k_files K w0 s2 = Some g"
      "k_peer K w0 f = Some g" "k_inbox K w0 g = []" "k_room K w0 1" "k_files K w0 zero = Some z"
    by (rule open_pair [OF laws(1) zero(4), of 1]) (simp, use zero(2) in blast)
  obtain w1 where w1: "poll_receiver K abi would_block s2 early (w0, [replicate 4 0], ?b) = (w1, Inl ([replicate 4 0], ?b))" "same_state K w0 w1"
    using poll_early [OF laws(2) zeros pair(3,5) early] by blast
  obtain w2 a' where send: "send_vectored_with_ancillary K abi s1 [[1, 2, 3]] (fst (add_fds [zero] ?b)) w1 = (w2, Inr (a', Inr 3))"
      "k_inbox K w2 g = [([1, 2, 3], [z])]" "k_files K w2 = k_files K w1" "k_room K w2 = k_room K w1"
    using test_send [OF laws(1), of w1 s1 f g "[zero]" "[z]"] pair(2,4,5,7) w1(2) by (auto simp: same_state_def)
  obtain w3 out b' n where recv: "recv_vectored_with_ancillary K abi s2 [replicate 4 0] ?b w2 = (w3, Inr (out, b', Inr 3))"
      "an_fds b' = [Owned n]" "k_files K w3 n = Some z"
    using test_recv [OF laws(1) _ send(2), of s2] pair(3,6) send(3,4) w1(2) by (auto simp: test_out_def same_state_def)
  have sent: "tokio_send K abi would_block s1 [[1, 2, 3]] (idle @ (Inr (), True) # sends) (w1, fst (add_fds [zero] ?b)) = Inr ((w2, a'), Some (Inr 3))"
    unfolding tokio_send_def retry_io_idle [OF idle(1)] by (simp add: send_attempt_def send(1))
  have "tokio_recv K abi would_block s2 (idle' @ (Inr (), True) # late) (w2, [replicate 4 0], ?b) = Inr ((w3, out, b'), Some (Inr 3))"
    unfolding tokio_recv_def retry_io_idle [OF idle(2)] by (simp add: recv_attempt_def recv(1))
  moreover obtain w4 where "check_messages K b' w3 = (w4, Inr ())"
    using check_messages_ok [OF laws(1) recv(2,3) zero(3)] by (metis prod.collapse)
  ultimately have "poll_receiver K abi would_block s2 (idle' @ (Inr (), True) # late) (w2, [replicate 4 0], ?b) = (w4, Inr (Inr ()))"
    by (simp add: poll_receiver_def assert_eq_def unwrap_ok_def rassert_def)
  then show ?thesis
    using zero(1) pair(1) w1(1) sent
    by (simp add: tokio_ancillary_fd_def sys_def unwrap_ok_def assert_eq_def rassert_def)
qed

section \<open>All tests\<close>

theorem descriptor_tests_pass:
  assumes "unix_laws K abi" and "block_law K would_block" and "received_fds abi (replicate 256 0) 256 = Inr None"
    and "k_room K w 2" and "k_room K w 4" and "\<forall>r \<in> set early. fst r = Inr ()"
    and "\<forall>r \<in> set idle. r = (Inr (), False)" and "\<forall>r \<in> set idle'. r = (Inr (), False)"
  shows "snd (ancillary_no_ancillary K abi w) = Inr () \<and> snd (ancillary_fd K abi w) = Inr () \<and>
    tokio_ancillary_fd K abi would_block early (idle @ (Inr (), True) # sends) (idle' @ (Inr (), True) # late) w = Some (Inr ())"
  using no_ancillary_test_passes [OF assms(1,4)] ancillary_fd_test_passes [OF assms(1,5)] tokio_test_passes [OF assms(1-3,5-8)]
  by simp

text \<open>The laws hold of the small system.\<close>

lemma small_free_open:
  assumes "fd \<notin> set xs" and "small_free w = xs @ fd # ys"
  shows "small_free (w\<lparr>sw_files := (sw_files w)(fd \<mapsto> z)\<rparr>) = xs @ ys"
proof -
  have "small_free (w\<lparr>sw_files := (sw_files w)(fd \<mapsto> z)\<rparr>) = filter (\<lambda>x. x \<noteq> fd) (small_free w)"
    by (auto simp: small_free_def intro: filter_cong)
  moreover have "fd \<notin> set ys" using small_free_props(1) [of w] assms(2) by simp
  then have "filter (\<lambda>x. x \<noteq> fd) xs = xs" "filter (\<lambda>x. x \<noteq> fd) ys = ys" using assms(1) by (auto intro!: filter_True)
  ultimately show ?thesis using assms(2) by simp
qed

lemma small_unix_laws: "unix_laws small_kernel linux64"
proof -
  have "open_law small_kernel"
    unfolding open_law_def
  proof (intro allI impI)
    fix w n assume "k_room small_kernel w (n + 1)"
    then obtain fd rest where free: "small_free w = fd # rest" and n: "n \<le> length rest"
      by (cases "small_free w") (auto simp: small_kernel_def)
    then show "\<exists>w' fd z. k_open small_kernel ''/dev/zero'' w = (w', Inr fd) \<and> k_files small_kernel w fd = None \<and>
        k_files small_kernel w' = (k_files small_kernel w)(fd \<mapsto> z) \<and> k_zero small_kernel z \<and> k_room small_kernel w' n"
      using small_free_open [of fd "[]" w rest Zero] small_free_props(2) [of fd w]
      by (simp add: small_kernel_def small_open_def)
  qed
  moreover have "pair_law small_kernel"
    unfolding pair_law_def
  proof (intro allI impI)
    fix w n assume "k_room small_kernel w (n + 2)"
    then obtain s1 s2 rest where free: "small_free w = s1 # s2 # rest" and n: "n \<le> length rest"
      by (cases "small_free w"; cases "tl (small_free w)") (auto simp: small_kernel_def)
    let ?f = "Socket (sw_sockets w)" and ?g = "Socket (sw_sockets w + 1)"
    let ?w1 = "w\<lparr>sw_files := (sw_files w)(s1 \<mapsto> ?f)\<rparr>"
    let ?w = "w\<lparr>sw_files := (sw_files w)(s1 \<mapsto> ?f, s2 \<mapsto> ?g), sw_peer := (sw_peer w)(?f \<mapsto> ?g, ?g \<mapsto> ?f),
            sw_inbox := (sw_inbox w)(?f := [], ?g := []), sw_sockets := sw_sockets w + 2\<rparr>"
    have ne: "s1 \<noteq> s2" using small_free_props(1) [of w] free by simp
    have "small_free ?w = rest"
      using small_free_open [of s1 "[]" w "s2 # rest" ?f] small_free_open [of s2 "[]" ?w1 rest ?g] free
      by (simp add: small_free_def)
    then show "\<exists>w' s1 s2 f g. k_socketpair small_kernel w = (w', Inr (s1, s2)) \<and>
        k_files small_kernel w s1 = None \<and> k_files small_kernel w s2 = None \<and> s1 \<noteq> s2 \<and>
        k_files small_kernel w' = (k_files small_kernel w)(s1 \<mapsto> f, s2 \<mapsto> g) \<and>
        k_peer small_kernel w' f = Some g \<and> k_inbox small_kernel w' g = [] \<and> k_room small_kernel w' n"
      using free n ne small_free_props(2) [of s1 w] small_free_props(2) [of s2 w]
      by (intro exI [of _ ?w] exI [of _ s1] exI [of _ s2] exI [of _ ?f] exI [of _ ?g])
        (simp add: small_kernel_def small_socketpair_def Let_def)
  qed
  moreover have "read_law small_kernel" by (simp add: read_law_def small_kernel_def)
  ultimately show ?thesis
    using linux64_laws small_send_law small_recv_law
    by (simp add: unix_laws_def linux64_hdr) (simp add: linux64_def small_kernel_def)
qed

lemma small_block_law: "block_law small_kernel (\<lambda>e. e = ''EAGAIN'')"
  by (auto simp: block_law_def small_kernel_def small_recvmsg_def same_state_def small_free_def)

theorem descriptor_tests_pass_witness:
  "snd (ancillary_no_ancillary small_kernel linux64 small_start) = Inr () \<and>
   snd (ancillary_fd small_kernel linux64 small_start) = Inr () \<and>
   tokio_ancillary_fd small_kernel linux64 (\<lambda>e. e = ''EAGAIN'') [(Inr (), True), (Inr (), False)] [(Inr (), True)]
     [(Inr (), False), (Inr (), True)] small_start = Some (Inr ())"
proof -
  have "length (small_free small_start) = 16" by (simp add: small_free_def small_start_def)
  then have room: "k_room small_kernel small_start 2" "k_room small_kernel small_start 4" by (simp_all add: small_kernel_def)
  have zeros: "received_fds linux64 (replicate 256 0) 256 = Inr None"
    by (simp add: received_fds_def linux64_def of_le32_def nth_append)
  show ?thesis
    using descriptor_tests_pass [OF small_unix_laws small_block_law zeros room, of "[(Inr (), True), (Inr (), False)]" "[]"
        "[(Inr (), False)]" "[]" "[]"] by simp
qed

end
