(* ===== verification/Zpr_Ext.thy ===== *)
theory Zpr_Ext
  imports Zpr_Prelude
begin

text \<open>
  The small extensions of \<open>src/zpr-ext\<close>: the single-threaded counters of \<open>std/cell.rs\<close>, the optional
  non-zero numbers of \<open>std/num.rs\<close>, reading and writing values through the buffers of the \<open>bytes\<close> crate (\<open>bytes.rs\<close>, \<open>zerocopy.rs\<close>), and the socket helpers of
  \<open>std/net.rs\<close>. Buffers, byte representations and system calls are parameters.
\<close>

section \<open>Counters\<close>

text \<open>A \<open>UsizeCell\<close> is its value; operations return the new value and their result.\<close>

type_synonym usize_cell = usize

definition cell_new :: "usize \<Rightarrow> usize_cell" where
  "cell_new v = v"

definition cell_load :: "usize_cell \<Rightarrow> usize" where
  "cell_load c = c"

definition cell_store :: "usize \<Rightarrow> usize_cell \<Rightarrow> usize_cell" where
  "cell_store v c = v"

definition cell_fetch_add :: "usize \<Rightarrow> usize_cell \<Rightarrow> (usize_cell \<times> usize) res" where
  "cell_fetch_add v c = (let old = cell_load c in Inr (cell_store (old + v) c, old))"

definition cell_fetch_sub :: "usize \<Rightarrow> usize_cell \<Rightarrow> (usize_cell \<times> usize) res" where
  "cell_fetch_sub v c = (let old = cell_load c in Inr (cell_store (old - v) c, old))"

definition cell_fetch_add_nowrap :: "usize \<Rightarrow> usize_cell \<Rightarrow> (usize_cell \<times> usize) res" where
  "cell_fetch_add_nowrap v c = (let old = cell_load c in rbind (uadd old v) (\<lambda>new. Inr (cell_store new c, old)))"

definition cell_fetch_sub_nowrap :: "usize \<Rightarrow> usize_cell \<Rightarrow> (usize_cell \<times> usize) res" where
  "cell_fetch_sub_nowrap v c = (let old = cell_load c in rbind (usub old v) (\<lambda>new. Inr (cell_store new c, old)))"

text \<open>Programs of counter operations; \<open>wrapping\<close> tells which pair is used.\<close>

datatype cell_op = Add usize | Sub usize

fun cell_op_run :: "bool \<Rightarrow> cell_op \<Rightarrow> usize_cell \<Rightarrow> (usize_cell \<times> usize) res" where
  "cell_op_run wrapping (Add v) = (if wrapping then cell_fetch_add v else cell_fetch_add_nowrap v)"
| "cell_op_run wrapping (Sub v) = (if wrapping then cell_fetch_sub v else cell_fetch_sub_nowrap v)"

fun cell_ops_run :: "bool \<Rightarrow> cell_op list \<Rightarrow> usize_cell \<Rightarrow> (usize_cell \<times> usize list) res" where
  "cell_ops_run wrapping [] c = Inr (c, [])"
| "cell_ops_run wrapping (p # ps) c =
     rbind (cell_op_run wrapping p c) (\<lambda>(c', r). rbind (cell_ops_run wrapping ps c') (\<lambda>(c'', rs). Inr (c'', r # rs)))"

fun op_amount :: "cell_op \<Rightarrow> int" where
  "op_amount (Add v) = uint v" | "op_amount (Sub v) = - uint v"

text \<open>The running totals before each operation, and at the end, as integers.\<close>

fun totals :: "int \<Rightarrow> cell_op list \<Rightarrow> int list" where
  "totals z [] = [z]" | "totals z (p # ps) = z # totals (z + op_amount p) ps"

lemma totals_nonempty [simp]: "totals z ps \<noteq> []"
  by (cases ps) auto

lemmas cell_defs = cell_fetch_add_def cell_fetch_sub_def cell_fetch_add_nowrap_def cell_fetch_sub_nowrap_def
  cell_load_def cell_store_def Let_def

lemma cell_wrapping_step:
  "\<exists>c'. cell_op_run True p c = Inr (c', c) \<and> c' = word_of_int (uint c + op_amount p)"
  by (cases p) (simp_all add: cell_defs)

lemma cell_nowrap_step:
  "cell_op_run False p c =
     (let z = uint c + op_amount p in if 0 \<le> z \<and> z < 2 ^ 64 then Inr (word_of_int z, c) else Inl Panic_overflow)"
proof (cases p)
  case (Add v)
  have "unat c + unat v < 2 ^ 64 \<longleftrightarrow> int (unat c + unat v) < int (2 ^ 64)" by (simp only: of_nat_less_iff)
  then show ?thesis by (simp add: Add cell_defs uadd_def)
next
  case (Sub v)
  have "unat v \<le> unat c \<longleftrightarrow> int (unat v) \<le> int (unat c)" by (simp only: of_nat_le_iff)
  moreover have "uint c < 2 ^ 64" using uint_bounded [of c] by simp
  then have "uint c - uint v < 2 ^ 64" using uint_ge_0 [of v] by linarith
  ultimately have "(0 \<le> uint c - uint v \<and> uint c - uint v < 2 ^ 64) \<longleftrightarrow> unat v \<le> unat c" by simp
  then show ?thesis by (simp add: Sub cell_defs usub_def)
qed

lemma totals_start: "z \<in> set (totals z ps)"
  by (cases ps) auto

lemma cell_wrapping_run:
  assumes "c = word_of_int z"
  shows "\<exists>c' rs. cell_ops_run True ps c = Inr (c', rs) \<and> rs @ [c'] = map word_of_int (totals z ps)"
  using assms
proof (induction ps arbitrary: c z)
  case (Cons p ps)
  obtain c1 where c1: "cell_op_run True p c = Inr (c1, c)" "c1 = word_of_int (uint c + op_amount p)"
    using cell_wrapping_step by blast
  have "word_of_int (uint c) = (word_of_int z :: usize)" using Cons.prems by simp
  then have "c1 = word_of_int (z + op_amount p)" unfolding c1(2) wi_hom_add [symmetric] by simp
  from Cons.IH [OF this] c1(1) Cons.prems show ?case by auto
qed simp

lemma cell_nowrap_run:
  "cell_ops_run False ps c =
     (if \<forall>z \<in> set (totals (uint c) ps). 0 \<le> z \<and> z < 2 ^ 64 then cell_ops_run True ps c else Inl Panic_overflow)"
proof (induction ps arbitrary: c)
  case Nil
  have "uint c < 2 ^ 64" using uint_bounded [of c] by simp
  then show ?case by simp
next
  case (Cons p ps)
  define z where "z = uint c + op_amount p"
  have c: "uint c < 2 ^ 64" using uint_bounded [of c] by simp
  obtain c1 where c1: "cell_op_run True p c = Inr (c1, c)" "c1 = word_of_int z"
    using cell_wrapping_step z_def by blast
  show ?case
  proof (cases "0 \<le> z \<and> z < 2 ^ 64")
    case True
    then have step: "cell_op_run False p c = Inr (c1, c)" and "uint c1 = z"
      using cell_nowrap_step [of p c] c1(2) by (simp_all add: z_def [symmetric] Let_def take_bit_int_eq_self unsigned_of_int)
    then show ?thesis using Cons.IH [of c1] c c1(1) by (simp add: z_def)
  next
    case False
    then have "cell_op_run False p c = Inl Panic_overflow" using cell_nowrap_step [of p c] by (simp add: z_def [symmetric] Let_def)
    moreover have "\<not> (\<forall>x \<in> set (totals (uint c) (p # ps)). 0 \<le> x \<and> x < 2 ^ 64)"
      using False totals_start [of z ps] by (auto simp: z_def)
    ultimately show ?thesis by (simp only: cell_ops_run.simps rbind_Inl if_False)
  qed
qed

text \<open>
  A counter under any sequence of operations. The wrapping pair returns, before each operation, and
  leaves at the end, the exact running total modulo \<open>2^64\<close>, and never panics. The other pair panics
  exactly when some running total leaves the range of \<open>usize\<close>, and until then the two pairs agree.
\<close>

theorem cell_history:
  "\<exists>c' rs. cell_ops_run True ps c = Inr (c', rs) \<and> rs @ [c'] = map word_of_int (totals (uint c) ps) \<and>
     cell_ops_run False ps c = (if \<forall>z \<in> set (totals (uint c) ps). 0 \<le> z \<and> z < 2 ^ 64 then Inr (c', rs) else Inl Panic_overflow)"
proof -
  obtain c' rs where "cell_ops_run True ps c = Inr (c', rs)" "rs @ [c'] = map word_of_int (totals (uint c) ps)"
    using cell_wrapping_run [of c "uint c" ps] by auto
  then show ?thesis using cell_nowrap_run [of ps c] by metis
qed

theorem cell_history_witness:
  "(\<exists>rs. cell_ops_run True [Add 1, Sub 2] (- 1) = Inr (- 2, rs)) \<and> cell_ops_run False [Add 1, Sub 2] (- 1) = Inl Panic_overflow"
  using cell_history [of "[Add 1, Sub 2]" "- 1"] by (auto simp: uint_word_ariths)

section \<open>Optional non-zero numbers\<close>

text \<open>
  \<open>Option<NonZero<T>>\<close>: a value of the option type, for which the layout is guaranteed to be that of
  \<open>T\<close> with \<open>None\<close> as zero; \<open>transmute\<close> reads that representation.
\<close>

typedef (overloaded) 'n non_zero = "{w :: 'n::len word. w \<noteq> 0}"
  morphisms get_nz Non_zero
  by (rule exI [of _ 1]) simp

definition nz_repr :: "'n::len non_zero option \<Rightarrow> 'n word" where
  "nz_repr x = (case x of None \<Rightarrow> 0 | Some w \<Rightarrow> get_nz w)"

definition unwrap_or_zero :: "'n::len non_zero option \<Rightarrow> 'n word" where
  "unwrap_or_zero x = nz_repr x"

definition nz_new :: "'n::len word \<Rightarrow> 'n non_zero option" where
  "nz_new w = (if w = 0 then None else Some (Non_zero w))"

lemma unwrap_or_zero_inverse: "unwrap_or_zero (nz_new w) = w" and nz_new_inverse: "nz_new (unwrap_or_zero x) = x"
proof -
  show "unwrap_or_zero (nz_new w) = w"
    by (simp add: unwrap_or_zero_def nz_repr_def nz_new_def Non_zero_inverse)
  show "nz_new (unwrap_or_zero x) = x"
    using get_nz by (cases x) (auto simp: unwrap_or_zero_def nz_repr_def nz_new_def get_nz_inverse)
qed

section \<open>Values in buffers\<close>

text \<open>
  \<open>bytes::Buf\<close>: the bytes left, and copying from the front, which panics if too few are left.
  \<open>bytes::BufMut\<close>: the room left, appending, and the chunk that may be written before \<open>advance_mut\<close>.
  \<open>unread\<close> and \<open>filled\<close> are the contents the documentation speaks of.
\<close>

record 'b buf =
  remaining :: "'b \<Rightarrow> nat"
  copy_to_slice :: "nat \<Rightarrow> 'b \<Rightarrow> ('b \<times> u8 list) res"
  unread :: "'b \<Rightarrow> u8 list"

record 'b buf_mut =
  remaining_mut :: "'b \<Rightarrow> nat"
  put :: "u8 list \<Rightarrow> 'b \<Rightarrow> 'b"
  chunk_len :: "'b \<Rightarrow> nat"
  write_chunk :: "u8 list \<Rightarrow> 'b \<Rightarrow> 'b"
  advance_mut :: "nat \<Rightarrow> 'b \<Rightarrow> 'b"
  filled :: "'b \<Rightarrow> u8 list"

definition buf_laws :: "'b buf \<Rightarrow> bool" where
  "buf_laws bf \<longleftrightarrow> (\<forall>b. remaining bf b = length (unread bf b)) \<and>
     (\<forall>n b. if n \<le> remaining bf b
       then \<exists>b'. copy_to_slice bf n b = Inr (b', take n (unread bf b)) \<and> unread bf b' = drop n (unread bf b)
       else copy_to_slice bf n b = Inl Panic_assert)"

definition buf_mut_laws :: "'b buf_mut \<Rightarrow> bool" where
  "buf_mut_laws bm \<longleftrightarrow>
     (\<forall>b bs. length bs \<le> remaining_mut bm b \<longrightarrow>
        filled bm (put bm bs b) = filled bm b @ bs \<and> remaining_mut bm (put bm bs b) = remaining_mut bm b - length bs) \<and>
     (\<forall>b. chunk_len bm b \<le> remaining_mut bm b) \<and>
     (\<forall>b bs. length bs \<le> chunk_len bm b \<longrightarrow>
        filled bm (advance_mut bm (length bs) (write_chunk bm bs b)) = filled bm b @ bs \<and>
        remaining_mut bm (advance_mut bm (length bs) (write_chunk bm bs b)) = remaining_mut bm b - length bs)"

text \<open>
  The byte representation of a type that implements \<open>IntoBytes\<close> and \<open>FromBytes\<close>: all values have the
  type's size, and all byte strings of that size are values.
\<close>

record 'v byte_repr =
  size_of :: nat
  as_bytes :: "'v \<Rightarrow> u8 list"
  of_bytes :: "u8 list \<Rightarrow> 'v"

definition repr_laws :: "'v byte_repr \<Rightarrow> bool" where
  "repr_laws ty \<longleftrightarrow> (\<forall>v. length (as_bytes ty v) = size_of ty \<and> of_bytes ty (as_bytes ty v) = v) \<and>
     (\<forall>bs. length bs = size_of ty \<longrightarrow> as_bytes ty (of_bytes ty bs) = bs)"

text \<open>\<open>BufExt\<close>: a slice is given by its length; what it held is overwritten.\<close>

definition copy_to_maybe_uninit_slice_mut :: "'b buf \<Rightarrow> nat \<Rightarrow> 'b \<Rightarrow> ('b \<times> u8 list) res" where
  "copy_to_maybe_uninit_slice_mut bf dst_len b = copy_to_slice bf dst_len b"

definition get_array :: "'b buf \<Rightarrow> nat \<Rightarrow> 'b \<Rightarrow> ('b \<times> u8 list) res" where
  "get_array bf n b = copy_to_slice bf (length (replicate n (0 :: u8))) b"

datatype size_error = SizeError

definition write_to_buf :: "'b buf_mut \<Rightarrow> 'v byte_repr \<Rightarrow> 'v \<Rightarrow> 'b \<Rightarrow> 'b \<times> (size_error + unit)" where
  "write_to_buf bm ty v b =
     (let bytes = as_bytes ty v in
      if remaining_mut bm b < length bytes then (b, Inl SizeError) else (put bm bytes b, Inr ()))"

text \<open>\<open>as_uninit_bytes_mut\<close> of a new value is a slice of its size; the value is what the bytes written there say.\<close>

definition read_from_buf :: "'b buf \<Rightarrow> 'v byte_repr \<Rightarrow> 'b \<Rightarrow> ('b \<times> (size_error + 'v)) res" where
  "read_from_buf bf ty b =
     (if remaining bf b < size_of ty then Inr (b, Inl SizeError)
      else rbind (copy_to_maybe_uninit_slice_mut bf (size_of ty) b) (\<lambda>(b', bytes). Inr (b', Inr (of_bytes ty bytes))))"

text \<open>Writing values one after the other, and reading as many.\<close>

fun write_values :: "'b buf_mut \<Rightarrow> 'v byte_repr \<Rightarrow> 'v list \<Rightarrow> 'b \<Rightarrow> 'b \<times> (size_error + unit) list" where
  "write_values bm ty [] b = (b, [])"
| "write_values bm ty (v # vs) b =
     (case write_to_buf bm ty v b of (b', r) \<Rightarrow> case write_values bm ty vs b' of (b'', rs) \<Rightarrow> (b'', r # rs))"

fun read_values :: "'b buf \<Rightarrow> 'v byte_repr \<Rightarrow> nat \<Rightarrow> 'b \<Rightarrow> ('b \<times> (size_error + 'v) list) res" where
  "read_values bf ty 0 b = Inr (b, [])"
| "read_values bf ty (Suc n) b =
     rbind (read_from_buf bf ty b) (\<lambda>(b', r). rbind (read_values bf ty n b') (\<lambda>(b'', rs). Inr (b'', r # rs)))"

lemma write_values_spec:
  assumes "buf_mut_laws bm" and "repr_laws ty" and "remaining_mut bm b = room" and "0 < size_of ty"
    and fit_def: "fit = min (length vs) (room div size_of ty)"
  shows "\<exists>b'. write_values bm ty vs b = (b', replicate fit (Inr ()) @ replicate (length vs - fit) (Inl SizeError)) \<and>
     filled bm b' = filled bm b @ concat (map (as_bytes ty) (take fit vs))"
  using assms(3) unfolding fit_def
proof (induction vs arbitrary: b room)
  case (Cons v vs)
  have size: "length (as_bytes ty v) = size_of ty" using assms(2) by (simp add: repr_laws_def)
  show ?case
  proof (cases "room < size_of ty")
    case True
    then have "write_to_buf bm ty v b = (b, Inl SizeError)" using size Cons.prems by (simp add: write_to_buf_def)
    then show ?thesis using Cons.IH [OF Cons.prems] True by auto
  next
    case False
    then have step: "write_to_buf bm ty v b = (put bm (as_bytes ty v) b, Inr ())" using size Cons.prems by (simp add: write_to_buf_def)
    have laws: "filled bm (put bm (as_bytes ty v) b) = filled bm b @ as_bytes ty v"
        "remaining_mut bm (put bm (as_bytes ty v) b) = room - size_of ty"
      using assms(1) Cons.prems size False unfolding buf_mut_laws_def by (metis not_less)+
    have div: "room div size_of ty = Suc ((room - size_of ty) div size_of ty)" using False assms(4) by (simp add: le_div_geq)
    show ?thesis using Cons.IH [OF laws(2)] step laws(1) by (auto simp: div)
  qed
qed simp

lemma read_values_spec:
  assumes "buf_laws bf" and "repr_laws ty" and "unread bf b = concat (map (as_bytes ty) vs) @ rest" and "length vs \<le> n"
    and "length rest < size_of ty"
  shows "\<exists>b'. read_values bf ty n b = Inr (b', map Inr vs @ replicate (n - length vs) (Inl SizeError)) \<and> unread bf b' = rest"
  using assms(3,4)
proof (induction n arbitrary: b vs)
  case (Suc n)
  have rem: "remaining bf b = length (unread bf b)" using assms(1) by (simp add: buf_laws_def)
  show ?case
  proof (cases vs)
    case Nil
    then have "read_from_buf bf ty b = Inr (b, Inl SizeError)" using Suc.prems rem assms(5) by (simp add: read_from_buf_def)
    then show ?thesis using Suc.IH [of b "[]"] Suc.prems Nil by auto
  next
    case (Cons v ws)
    have repr: "length (as_bytes ty v) = size_of ty" "of_bytes ty (as_bytes ty v) = v" using assms(2) by (simp_all add: repr_laws_def)
    have enough: "size_of ty \<le> remaining bf b" using rem Suc.prems Cons repr(1) by simp
    then obtain b' where "copy_to_slice bf (size_of ty) b = Inr (b', take (size_of ty) (unread bf b))"
      and b': "unread bf b' = drop (size_of ty) (unread bf b)" using assms(1) unfolding buf_laws_def by metis
    then have "read_from_buf bf ty b = Inr (b', Inr v)"
      using enough Suc.prems(1) Cons repr by (simp add: read_from_buf_def copy_to_maybe_uninit_slice_mut_def)
    then show ?thesis using Suc.IH [of b' ws] Suc.prems b' Cons repr(1) by auto
  qed
qed auto

text \<open>
  C37. What is written can be read. Writing values into a buffer with room for \<open>k\<close> of them stores the first
  \<open>k\<close>, completely and in order, and refuses the others without changing anything. Reading a buffer with
  these contents gives exactly the values stored, and then refuses too.
\<close>

theorem buffer_roundtrip:
  assumes "buf_mut_laws bm" and "buf_laws bf" and "repr_laws ty" and "0 < size_of ty"
    and "filled bm b = []" and "write_values bm ty vs b = (b', rs)" and "unread bf r = filled bm b'"
  shows "let k = min (length vs) (remaining_mut bm b div size_of ty) in
     rs = replicate k (Inr ()) @ replicate (length vs - k) (Inl SizeError) \<and>
     (\<exists>r'. read_values bf ty (length vs) r = Inr (r', map Inr (take k vs) @ replicate (length vs - k) (Inl SizeError)) \<and>
        unread bf r' = [])"
proof -
  define k where "k = min (length vs) (remaining_mut bm b div size_of ty)"
  have rs: "rs = replicate k (Inr ()) @ replicate (length vs - k) (Inl SizeError)"
    and b': "filled bm b' = concat (map (as_bytes ty) (take k vs))"
    using write_values_spec [OF assms(1,3) refl assms(4) k_def] assms(5,6) by auto
  have k: "k \<le> length vs" by (simp add: k_def)
  have "\<exists>r'. read_values bf ty (length vs) r =
      Inr (r', map Inr (take k vs) @ replicate (length vs - length (take k vs)) (Inl SizeError)) \<and> unread bf r' = []"
    using assms(4,7) b' by (intro read_values_spec [OF assms(2,3)]) simp_all
  moreover have "length (take k vs) = k" using k by simp
  ultimately show ?thesis using rs unfolding k_def [symmetric] Let_def by simp
qed


text \<open>A growable byte vector with a limit, a byte slice, and the type \<open>u8\<close>.\<close>

definition vec_buf :: "(u8 list \<times> nat) buf_mut" where
  "vec_buf = \<lparr>remaining_mut = (\<lambda>(bs, cap). cap - length bs), put = (\<lambda>new (bs, cap). (bs @ new, cap)),
     chunk_len = (\<lambda>(bs, cap). cap - length bs), write_chunk = (\<lambda>new (bs, cap). (bs @ new, cap)), advance_mut = (\<lambda>_ b. b), filled = fst\<rparr>"

definition slice_buf :: "u8 list buf" where
  "slice_buf = \<lparr>remaining = length,
     copy_to_slice = (\<lambda>n bs. if n \<le> length bs then Inr (drop n bs, take n bs) else Inl Panic_assert), unread = id\<rparr>"

definition u8_repr :: "u8 byte_repr" where
  "u8_repr = \<lparr>size_of = 1, as_bytes = (\<lambda>v. [v]), of_bytes = hd\<rparr>"

lemma example_laws: "buf_mut_laws vec_buf" "buf_laws slice_buf" "repr_laws u8_repr"
proof -
  show "buf_mut_laws vec_buf" by (auto simp: buf_mut_laws_def vec_buf_def)
  show "buf_laws slice_buf" by (simp add: buf_laws_def slice_buf_def)
  show "repr_laws u8_repr" by (auto simp: repr_laws_def u8_repr_def length_Suc_conv)
qed

theorem buffer_roundtrip_witness:
  "write_values vec_buf u8_repr [7, 8, 9] ([], 2) = (([7, 8], 2), [Inr (), Inr (), Inl SizeError]) \<and>
   (\<exists>r'. read_values slice_buf u8_repr 3 [7, 8] = Inr (r', [Inr 7, Inr 8, Inl SizeError]))"
proof -
  have "write_values vec_buf u8_repr [7, 8, 9] ([], 2) = (([7, 8], 2), [Inr (), Inr (), Inl SizeError])"
    by (simp add: write_to_buf_def vec_buf_def u8_repr_def)
  with buffer_roundtrip [OF example_laws, of "([], 2)" "[7, 8, 9]" "([7, 8], 2)" "[Inr (), Inr (), Inl SizeError]" "[7, 8]"]
  show ?thesis by (auto simp: vec_buf_def slice_buf_def u8_repr_def Let_def numeral_3_eq_3 numeral_2_eq_2)
qed

section \<open>Sockets\<close>

text \<open>
  \<open>recv_buf\<close> and \<open>recv_buf_from\<close>: the socket's \<open>recv\<close> gets a slice of the chunk's length and delivers a
  datagram that fits (cut off if need be), with its sender.
\<close>

definition recv_buf_from :: "'b buf_mut \<Rightarrow> (nat \<Rightarrow> 'e + u8 list \<times> 'a) \<Rightarrow> 'b \<Rightarrow> 'b \<times> ('e + nat \<times> 'a)" where
  "recv_buf_from bm recv_from b =
     (case recv_from (chunk_len bm b) of
        Inl e \<Rightarrow> (b, Inl e)
      | Inr (bytes, from) \<Rightarrow>
          (let recvd = length bytes in (advance_mut bm recvd (write_chunk bm bytes b), Inr (recvd, from))))"

definition recv_buf :: "'b buf_mut \<Rightarrow> (nat \<Rightarrow> 'e + u8 list) \<Rightarrow> 'b \<Rightarrow> 'b \<times> ('e + nat)" where
  "recv_buf bm recv b =
     (case recv (chunk_len bm b) of
        Inl e \<Rightarrow> (b, Inl e)
      | Inr bytes \<Rightarrow> (let recvd = length bytes in (advance_mut bm recvd (write_chunk bm bytes b), Inr recvd)))"

text \<open>
  Receiving appends: for a socket that delivers no more than it is given room for, a successful
  \<open>recv_buf_from\<close> appends exactly the bytes delivered to the buffer's contents and reports their number,
  which the buffer had room for; a failure leaves the buffer alone. \<open>recv_buf\<close> does the same without
  the sender.
\<close>

theorem recv_buf_appends:
  assumes "buf_mut_laws bm" and "\<And>n bytes from. recv_from n = Inr (bytes, from) \<Longrightarrow> length bytes \<le> n"
  shows "(case recv_buf_from bm recv_from b of
       (b', Inl e) \<Rightarrow> b' = b \<and> recv_from (chunk_len bm b) = Inl e
     | (b', Inr (n, from)) \<Rightarrow> \<exists>bytes. recv_from (chunk_len bm b) = Inr (bytes, from) \<and> n = length bytes \<and>
         filled bm b' = filled bm b @ bytes \<and> n \<le> remaining_mut bm b \<and> remaining_mut bm b' = remaining_mut bm b - n) \<and>
    recv_buf bm (\<lambda>n. map_sum id fst (recv_from n)) b = map_prod id (map_sum id fst) (recv_buf_from bm recv_from b)"
proof (cases "recv_from (chunk_len bm b)")
  case (Inr x)
  obtain bytes peer where x: "x = (bytes, peer)" by (cases x)
  have fits: "length bytes \<le> chunk_len bm b" using assms(2) Inr x by blast
  moreover have "chunk_len bm b \<le> remaining_mut bm b" using assms(1) by (simp add: buf_mut_laws_def)
  with fits have "length bytes \<le> remaining_mut bm b" by (rule order_trans)
  ultimately show ?thesis
    using assms(1) Inr x by (simp add: recv_buf_from_def recv_buf_def buf_mut_laws_def Let_def)
qed (simp add: recv_buf_from_def recv_buf_def)

theorem recv_buf_appends_witness:
  "recv_buf_from vec_buf (\<lambda>n. Inr (take n [1, 2, 3], ''peer'')) ([9], 3) = (([9, 1, 2], 3), Inr (2, ''peer'') :: string + nat \<times> string)"
  using recv_buf_appends [OF example_laws(1), of "\<lambda>n. Inr (take n [1, 2, 3], ''peer'') :: string + u8 list \<times> string" "([9], 3)"]
  by (simp add: recv_buf_from_def vec_buf_def Let_def)

text \<open>
  \<open>attach_reuse_port_cbpf\<close>: the kernel is given a count of 16 bits and a pointer to the instructions, and
  reads that many.
\<close>

definition attach_reuse_port_cbpf :: "(u16 \<times> 'i list \<Rightarrow> int) \<Rightarrow> 'e \<Rightarrow> 'i list \<Rightarrow> 'e + unit" where
  "attach_reuse_port_cbpf setsockopt errno filt =
     (let res = setsockopt (word_of_nat (length filt), filt) in if res < 0 then Inl errno else Inr ())"

text \<open>
  The kernel sees the filter exactly if it has fewer than \<open>65536\<close> instructions. Of a longer one it sees
  the first \<open>length mod 65536\<close>, and the call succeeds if these are acceptable.
\<close>

theorem attach_truncates:
  "attach_reuse_port_cbpf (\<lambda>(len, mem). install (take (unat len) mem)) errno filt =
     (if install (take (length filt mod 65536) filt) < 0 then Inl errno else Inr ()) \<and>
   (take (length filt mod 65536) filt = filt \<longleftrightarrow> length filt < 65536)"
proof -
  have "take (length filt mod 65536) filt = filt \<longleftrightarrow> length filt < 65536"
  proof
    assume "take (length filt mod 65536) filt = filt"
    then have "length filt \<le> length filt mod 65536" by (metis length_take min.cobounded2)
    then show "length filt < 65536" using mod_less_divisor [of 65536 "length filt"] by linarith
  qed simp
  then show ?thesis by (simp add: attach_reuse_port_cbpf_def unsigned_of_nat take_bit_eq_mod)
qed

text \<open>The copy of \<open>attach_reuse_port_cbpf\<close> for the sockets of \<open>tokio\<close>.\<close>

definition tokio_attach_reuse_port_cbpf :: "(u16 \<times> 'i list \<Rightarrow> int) \<Rightarrow> 'e \<Rightarrow> 'i list \<Rightarrow> 'e + unit" where
  "tokio_attach_reuse_port_cbpf setsockopt errno filt =
     (let res = setsockopt (word_of_nat (length filt), filt) in if res < 0 then Inl errno else Inr ())"

lemma tokio_attach_same: "tokio_attach_reuse_port_cbpf = attach_reuse_port_cbpf"
  by (simp add: fun_eq_iff tokio_attach_reuse_port_cbpf_def attach_reuse_port_cbpf_def)

section \<open>Wrappers\<close>

text \<open>
  \<open>mtu\<close> on Linux and Android: the result of \<open>getsockopt\<close> is a signed 32-bit number, reinterpreted; its error is
  converted by \<open>from_errno\<close>. Elsewhere it is a constant.
\<close>

definition mtu :: "('n \<Rightarrow> 'e) \<Rightarrow> 'n + 32 word \<Rightarrow> 'e + 32 word" where
  "mtu from_errno opt = (case opt of Inr m \<Rightarrow> Inr m | Inl errno \<Rightarrow> Inl (from_errno errno))"

definition tokio_mtu :: "('n \<Rightarrow> 'e) \<Rightarrow> 'n + 32 word \<Rightarrow> 'e + 32 word" where
  "tokio_mtu from_errno opt = (case opt of Inr m \<Rightarrow> Inr m | Inl errno \<Rightarrow> Inl (from_errno errno))"

definition mtu_macos :: "'e + 32 word" where
  "mtu_macos = Inr 1400"

text \<open>
  \<open>Vec::recycle\<close> drops the contents and then maps what is left, nothing, to the new type: the
  \<open>unreachable!\<close> of the mapping is a panic here. The first component is what was dropped.
\<close>

fun rmap :: "('x \<Rightarrow> 'y res) \<Rightarrow> 'x list \<Rightarrow> ('y list) res" where
  "rmap f [] = Inr []"
| "rmap f (x # xs) = rbind (f x) (\<lambda>y. rbind (rmap f xs) (\<lambda>ys. Inr (y # ys)))"

definition vec_recycle :: "'t list \<Rightarrow> 't list \<times> ('u list) res" where
  "vec_recycle xs = (case (xs, [] :: 't list) of (dropped, rest) \<Rightarrow> (dropped, rmap (\<lambda>_. Inl Panic_assert) rest))"

lemma vec_recycle_reachable: "vec_recycle xs = (xs, Inr []) \<and> (rmap (\<lambda>_. Inl Panic_assert) ys = (Inr [] :: ('u list) res) \<longleftrightarrow> ys = [])"
  by (cases ys) (simp_all add: vec_recycle_def)

text \<open>\<open>SockAddr::new_unspec\<close>: family \<open>AF_UNSPEC\<close>, with the length of a \<open>sockaddr\<close>; the rest of the storage is zero.\<close>

record sock_addr =
  ss_family :: u16
  ss_len :: nat

definition new_unspec :: sock_addr where
  "new_unspec = \<lparr>ss_family = 0, ss_len = 16\<rparr>"

text \<open>\<open>slice_assume_init_mut\<close>: undefined unless every element is initialized.\<close>

definition slice_assume_init_mut :: "'t option list \<Rightarrow> ('t list) res" where
  "slice_assume_init_mut xs = (if None \<in> set xs then Inl Undefined else Inr (map the xs))"

lemma slice_assume_init_iff: "slice_assume_init_mut xs = Inr ys \<longleftrightarrow> xs = map Some ys"
proof
  assume "slice_assume_init_mut xs = Inr ys"
  then have "None \<notin> set xs" and ys: "ys = map the xs" by (auto simp: slice_assume_init_mut_def split: if_splits)
  then have "Some (the x) = x" if "x \<in> set xs" for x using that by (cases x) auto
  then show "xs = map Some ys" by (simp add: ys map_idI)
qed (simp add: slice_assume_init_mut_def comp_def)

end
