(* ===== verification/Spec2Isabelle.thy ===== *)
theory Spec2Isabelle
  imports Cbpf_Clients Rcu_Sweep Cslab_Weak_Props Rcu_Weak Cslab_Loom Unit_Tests Rcu_Box_Props Rcu_Box_Epoch Rcu_Guarded Net_Props Ancillary_Tests Zpr_Ext Rsa_Sign
begin

text \<open>
  \<^bold>\<open>Verification of zpr-utils\<close>

  The repository is a set of Rust crates. \<open>cbpf-rs\<close> validates and interprets classic BPF programs.
  \<open>cslab\<close> is a slab of fixed capacity that one writer and many readers use at once, with removal in
  two phases, and on top of it \<open>RcuCslab\<close>, which finalizes removals when the last reader that could
  see the item is gone. \<open>rcu\<close> is a box whose value is replaced while readers hold guards, in five
  implementations, with guards for options and for entries of a slab whose reader is in the box.
  \<open>zpr-utils\<close> has addresses, checksums and RSA signing; \<open>zpr-ext\<close> has extensions of the standard
  library and other crates: descriptors, descriptor passing, buffers, counters. \<open>rcu\<close> uses \<open>cslab\<close>,
  \<open>tokio.rs\<close> uses \<open>std/os/unix.rs\<close>, which uses \<open>std/os/fd.rs\<close>; the rest are independent of each other.

  \<^bold>\<open>Conventions\<close> (\<open>Zpr_Prelude\<close>). Integers are words of their width on a 64-bit target; a fallible
  function returns \<open>fault + 'a\<close>, where a fault is a panic with its reason, undefined behaviour, or
  abort. Arithmetic that Rust checks is \<open>uadd\<close>, \<open>usub\<close>, \<open>sadd\<close>, \<open>ssub\<close> and panics on overflow, as in a
  build with overflow checks; wrapping operations are the word operations. Code that changes shared
  state and may panic is an action \<open>'s \<Rightarrow> 's \<times> 'r res\<close>: the state after a panic is kept, since locks
  are poisoned and destructors run. Rust's \<open>loop\<close> is \<open>rloop\<close>, a partial function whose value is \<open>None\<close>
  when the loop does not end; no fuel is used anywhere, and that a loop ends is proved through the
  locales \<open>safe_loop\<close> and \<open>terminating_loop\<close>. Crates outside the repository, system calls and the
  runtime are parameters, with what they document as a predicate (\<open>arc_swap_laws\<close>, \<open>aarc_laws\<close>,
  \<open>epoch_laws\<close>, \<open>abi_laws\<close>, \<open>dup_laws\<close>, \<open>buf_laws\<close>, \<open>send_law\<close>, \<open>recv_law\<close>, \<dots>); each is shown satisfiable by an instance.

  \<^bold>\<open>Classic BPF\<close>, \<open>src/cbpf-rs/src/lib.rs\<close>. \<open>Cbpf\<close> has the opcodes, \<open>BpfInsn\<close>, the interpreter
  (\<open>filter_slice\<close> as \<open>filter_step\<close> under \<open>rloop\<close>, one function per group of arms) and the validator
  (\<open>do_validate\<close> as \<open>check_insn\<close> over the program). \<open>Cbpf_Safety\<close> gives the instruction set as a
  datatype with a reference semantics; it shows that the opcode matching is the decoding of that set, what
  the validator accepts and reports, that an accepted program runs without fault, refines the
  reference step by step, and returns on every packet; with backward jumps allowed it may not return.
  \<open>Cbpf_Clients\<close> has the conversions from \<open>pcap\<close>, the fuzz target of the interpreter and the tests on programs
  that \<open>libpcap\<close> compiles. The property at the end of this theory joins the interpreter with the function
  of \<open>std/net.rs\<close> that hands a filter to the kernel with its length cut to 16 bits.

  \<^bold>\<open>Slab\<close>, \<open>src/cslab/src/lib.rs\<close>. \<open>Bitmap\<close> is the presence bitmap; \<open>Cslab\<close> has the layout of the
  allocation, lookups, insertion and the two-phase removal; \<open>Cslab_Inv\<close> the invariant (free list in the
  table, counts, bitmap) and the contract \<open>slab\<close> as a locale with its interpretation on the code's
  operations; \<open>Cslab_Iter\<close> both iterators, which scan bitmap words from both ends, as instances of
  \<open>double_ended\<close>; \<open>Cslab_Props\<close> what users rely on: exact counts after any history, every branch of
  insertion and removal, the regions of the allocation, iteration from both ends, and the drop.
  \<open>Cslab_Fill\<close> shows which indices a new slab gives out, and what iterators then deliver.

  \<^bold>\<open>RCU slab\<close>, the second half of the same file. \<open>Rcu_Cslab\<close> has generations as a heap of
  reference-counted cells, the two mutexes with poisoning, every operation and destructor.
  \<open>Rcu_Inv\<close> has the invariant of the generations (freed in order of creation, exact counts, pending
  lists that enumerate the hidden slots); \<open>Rcu_World\<close> the programs that use one slab, as a step
  relation over slab, handles and the removing iterator with its proxies; \<open>Rcu_Props\<close> that a reader's
  items stay in place while it lives, that removals are finalized as soon as no reader is older, that
  no call of any program faults but for marking an absent index, and what the latter does. \<open>Rcu_Account\<close>
  keeps account of the items: each one inserted is in one slot or was dropped once, and at the end all
  were dropped. \<open>Rcu_Sweep\<close> has the loop that the documentation of \<open>iter_mut\<close> gives: it visits what is there and
  removes what it is told to.

  \<^bold>\<open>Memory ordering\<close>, the design notes of the same file. \<open>Cslab_Weak\<close> runs the slab's readers beside its
  writer under release and acquire: the writer's stores are a log in program order, each with the
  ordering the source gives it; a reader has a view of the log, an atomic load may return any contents
  from its view on, an acquire load of a release store advances the whole view, and an access to an
  entry that is not ordered with a store to it is a race and undefined. \<open>finalize_remove\<close> is called as its
  safety requirement says. \<open>Cslab_Weak_Inv\<close> has the invariant of these programs, \<open>Cslab_Weak_Props\<close> what it
  gives: no read races, whatever stale flags are read; what was found stays; a relaxed load of the
  frontier covers it; a marked index is not found by handles taken later. \<open>Rcu_Weak\<close> shows by a
  simulation that \<open>RcuCslab\<close> meets the requirement, so that all this holds for its readers.

  \<^bold>\<open>RcuBox\<close>, \<open>src/rcu/src/rcu.rs\<close>. \<open>Rcu_Box\<close> states the contract of a box as the locales \<open>rcu_box\<close> and
  \<open>prompt_rcu_box\<close> and interprets them on the read-write-lock and the mutex implementation, with locks
  that wait and are poisoned. \<open>Rcu_Box_Conc\<close> models the boxes on \<open>arc-swap\<close> and \<open>aarc\<close> at the level of
  the steps a thread takes between lock and unlock; \<open>Rcu_Box_Epoch\<close> the one on \<open>crossbeam-epoch\<close>, whose
  collector may run in any call. \<open>Rcu_Box_Props\<close> and \<open>Rcu_Box_Epoch\<close> show that the box holds the value
  written last, that guards keep reading what they were obtained with and old values are destroyed
  exactly once, that concurrent calls behave as if run one after the other, and that writers make
  progress. \<open>Rcu_Guarded\<close> has the methods shared by all implementations and joins a box of readers
  with the slab they read: an entry guard stays valid whatever happens to box and slab.

  \<^bold>\<open>Network definitions\<close>, \<open>src/zpr-utils/src/net_defs.rs\<close>. \<open>Net_Defs\<close> has the address types with their
  conversions and derived order, the IP numbers and the checksum functions; \<open>Net_Props\<close> the round
  trips, the equality with the checksum of RFC 1071 over the right pseudo-header, and what
  validation detects. \<open>Rsa_Sign\<close> has \<open>src/zpr-utils/src/rsa_sign.rs\<close>.

  \<^bold>\<open>Extensions\<close>, \<open>src/zpr-ext/src\<close>. \<open>Ancillary\<close> has \<open>CowFd\<close> (\<open>std/os/fd.rs\<close>) over a table of open
  descriptors, \<open>SocketAncillary\<close> with its send and receive functions (\<open>std/os/unix.rs\<close>) and the loops of
  \<open>tokio.rs\<close>: ownership of clones, what is sent and received, and what retries do, including the
  closing of descriptors when a control buffer is used again. \<open>Ancillary_Stream\<close> adds the payload and the
  kernel between two ends of a socket, with descriptor tables for both, and shows that a message with its
  descriptors arrives. \<open>Zpr_Ext\<close> has the counters of
  \<open>std/cell.rs\<close>, \<open>std/num.rs\<close>, values in buffers (\<open>bytes.rs\<close>, \<open>zerocopy.rs\<close>) the UDP helpers of
  \<open>std/net.rs\<close> and the thin wrappers of \<open>std/vec.rs\<close>, \<open>std/mem.rs\<close>, \<open>socket2.rs\<close> and \<open>tokio.rs\<close>.

  \<^bold>\<open>Tests.\<close> \<open>Cslab_Tests\<close>, \<open>Cslab_Fill\<close>, \<open>Cslab_Loom\<close>, \<open>Rcu_Many\<close>, \<open>Ancillary_Tests\<close>, \<open>Unit_Tests\<close> and, beside the code they
  test, \<open>Cbpf_Clients\<close> and \<open>Rsa_Sign\<close> translate the tests of the repository, in the vocabulary of
  \<open>Test_Actions\<close>, and show that they pass on the definitions above, which checks the definitions against
  what their authors expect of the code. Tests that need the outside world are run on every world that meets the laws.
  The tests under \<open>loom\<close> are run for every schedule, those of \<open>Cslab\<close> over the release-acquire memory.

  \<^bold>\<open>Bounds.\<close> Lists of descriptors are shorter than \<open>2^30\<close> where their size is computed in 32 bits; a
  slab's capacity is bounded by what can be allocated (\<open>storage_layout_regions\<close>). Nothing else is bounded.

  \<^bold>\<open>Not modelled.\<close> Weak memory beyond the slab's readers: in \<open>Rcu_World\<close> operations of \<open>RcuCslab\<close> interleave
  as wholes (the writing ones hold a lock; \<open>Rcu_Weak\<close> relates them to the single stores and loads), those
  of the boxes on \<open>arc-swap\<close> and \<open>aarc\<close> step by step. Lifetimes and borrows are represented by what
  programs of the step relations may do; the checks at compile time that types are \<open>Send\<close> and \<open>Sync\<close> have
  no counterpart. One test of \<open>RcuCslab\<close> with 130 items (of the removing iterator) is not run; what it checks are instances
  of \<open>iter_mut_removes_selected\<close>, \<open>reader_items_stay\<close> and \<open>finalization_prompt\<close>. The key files that the tests of
  \<open>rsa_sign.rs\<close> embed are not transcribed: the cryptographic library is a parameter. Module roots and build
  files have no behaviour.
\<close>

section \<open>Filters on sockets\<close>

text \<open>
  C38. A validated filter on a socket. The kernel is handed \<open>take (length mod 65536)\<close> of the instructions: all of
  them when there are fewer than \<open>65536\<close>, none when their number is a multiple of that, which is not an
  acceptable program. In every case in which what it is handed is acceptable, it returns on every packet what
  the interpreter returns for the whole program; so truncation can make the call fail but not change the
  result.
\<close>

theorem attached_filter_faithful:
  assumes "validate insns = Inr prog"
  shows "let installed = take (length insns mod 65536) insns in
    attach_reuse_port_cbpf (\<lambda>(len, mem). setsockopt (take (unat len) mem)) errno insns =
      (if setsockopt installed < 0 then Inl errno else Inr ()) \<and>
    (installed = insns \<longleftrightarrow> length insns < 65536) \<and>
    (65536 dvd length insns \<longrightarrow> validate installed = Inl MissingReturn) \<and>
    (\<forall>q packet. validate installed = Inr q \<longrightarrow>
       (\<exists>v. bpf_filter q packet = Some (Inr v) \<and> bpf_filter prog packet = Some (Inr v)))"
proof -
  define m where "m = length insns mod 65536"
  have prog: "prog = \<lparr>prog_insns = insns\<rparr>" using assms by (simp add: accepted_iff)
  have none: "validate (take m insns) = Inl MissingReturn" if "65536 dvd length insns"
    using that by (simp add: m_def validate_def validate_with_flags_def do_validate_def Let_def)
  have same: "\<exists>v. bpf_filter q packet = Some (Inr v) \<and> bpf_filter prog packet = Some (Inr v)"
    if "validate (take m insns) = Inr q" for q packet
    using that program_returns [of "take m insns" packet] filter_prefix [of m insns packet]
    by (auto simp: accepted_iff prog)
  show ?thesis
    using none same attach_truncates [of setsockopt errno insns] by (simp add: m_def Let_def)
qed

theorem attached_filter_faithful_witness:
  "validate sample_program = Inr \<lparr>prog_insns = sample_program\<rparr> \<and>
   attach_reuse_port_cbpf (\<lambda>(len, mem). if take (unat len) mem = sample_program then 0 else - 1) ''EINVAL'' sample_program = Inr () \<and>
   (\<exists>v. bpf_filter \<lparr>prog_insns = sample_program\<rparr> [0, 7, 8] = Some (Inr v))"
proof -
  have len: "length sample_program mod 65536 = length sample_program" by (simp add: sample_program_def)
  show ?thesis
    using attached_filter_faithful [OF sample_validates, of "\<lambda>p. if p = sample_program then 0 else - 1" "''EINVAL''"]
      sample_validates unfolding Let_def len take_all [OF le_refl] by auto
qed

end
